(* ===== verification/Prelude.thy ===== *)
theory Prelude
  imports Main "HOL-Library.Monad_Syntax" "HOL-Library.Word" "HOL-Library.Multiset"
begin

text \<open>
  What the other theories share: the pieces of C the program is written in (nullable pointers,
  arrays read and written by index, string comparison, \<open>size_t\<close> subtraction, the remainder
  operator, calls of \<open>malloc\<close> and \<open>strdup\<close> that may fail) and the lemmas on lists, options and
  multisets that several components use.

  A computation of the C program is a value of \<open>'a option\<close>: \<open>Some x\<close> is a run that returns
  \<open>x\<close>, and \<open>None\<close> is a run without a defined result (a NULL pointer or a cell outside its array
  is accessed, a division by zero, a mutex is used in a way that never returns).
\<close>

named_theorems c_run "equations that run the C primitives on defined arguments"

subsection \<open>Pointers\<close>

datatype 'a ptr = NULL | Ptr 'a

fun deref :: "'a ptr \<Rightarrow> 'a option" where
  "deref NULL = None"
| "deref (Ptr x) = Some x"

fun is_null :: "'a ptr \<Rightarrow> bool" where
  "is_null NULL = True"
| "is_null (Ptr x) = False"

lemma deref_Some_iff [simp]: "deref p = Some x \<longleftrightarrow> p = Ptr x"
  by (cases p) auto

lemma deref_None_iff [simp]: "deref p = None \<longleftrightarrow> p = NULL"
  by (cases p) auto

lemma is_null_iff: "is_null p \<longleftrightarrow> p = NULL"
  by (cases p) auto

subsection \<open>Arrays, strings, sizes\<close>

text \<open>A read, a write and a scan of the first cells of an array; outside the array there is no
  defined result.\<close>

definition c_nth :: "'a list \<Rightarrow> nat \<Rightarrow> 'a option" where
  "c_nth xs i = (if i < length xs then Some (xs ! i) else None)"

definition c_update :: "'a list \<Rightarrow> nat \<Rightarrow> 'a \<Rightarrow> 'a list option" where
  "c_update xs i x = (if i < length xs then Some (xs[i := x]) else None)"

definition c_prefix :: "nat \<Rightarrow> 'a list \<Rightarrow> 'a list option" where
  "c_prefix n xs = (if n \<le> length xs then Some (take n xs) else None)"

text \<open>\<open>strcmp (s, p) == 0\<close>, for a string \<open>s\<close> and a pointer \<open>p\<close> that may be NULL. The contents of a
  C string are the characters before the terminating zero byte.\<close>

definition c_streq :: "string \<Rightarrow> string ptr \<Rightarrow> bool option" where
  "c_streq s p = map_option ((=) s) (deref p)"

text \<open>\<open>a % b\<close> and \<open>a - b\<close> on \<open>size_t\<close>: the remainder by zero is undefined, the difference wraps.\<close>

definition c_mod :: "nat \<Rightarrow> nat \<Rightarrow> nat option" where
  "c_mod a b = (if b = 0 then None else Some (a mod b))"

definition size_sub :: "nat \<Rightarrow> nat \<Rightarrow> nat" where
  "size_sub a b = (if b \<le> a then a - b else a + 2 ^ 64 - b)"

lemma c_nth_in [c_run]: "i < length xs \<Longrightarrow> c_nth xs i = Some (xs ! i)"
  by (simp add: c_nth_def)

lemma c_update_in [c_run]: "i < length xs \<Longrightarrow> c_update xs i x = Some (xs[i := x])"
  by (simp add: c_update_def)

lemma c_prefix_all [c_run]: "n = length xs \<Longrightarrow> c_prefix n xs = Some xs"
  by (simp add: c_prefix_def)

lemma c_streq_Ptr [c_run]: "c_streq s (Ptr t) = Some (s = t)"
  by (simp add: c_streq_def)

lemma c_streq_NULL [simp]: "c_streq s NULL = None"
  by (simp add: c_streq_def)

lemma c_mod_pos [c_run]: "0 < b \<Longrightarrow> c_mod a b = Some (a mod b)"
  by (simp add: c_mod_def)

lemma size_sub_le [c_run]: "b \<le> a \<Longrightarrow> size_sub a b = a - b"
  by (simp add: size_sub_def)

subsection \<open>Memory allocation\<close>

text \<open>
  The places where the library allocates while it serves a request. Which of them succeed is
  an argument of the operations: \<open>mem s\<close> says whether the call at the place \<open>s\<close> returns a
  block or NULL. No operation reaches one place twice in one call.
\<close>

datatype alloc_site =
    A_hash_key      \<comment> \<open>\<open>strdup\<close> in \<open>hash_set\<close> (hash.c)\<close>
  | A_hash_entries  \<comment> \<open>\<open>malloc\<close> in \<open>resize_table\<close> (hash.c)\<close>
  | A_cache_key     \<comment> \<open>\<open>strdup\<close> in \<open>cache_set\<close> (hash.c)\<close>
  | A_wtable_entries \<comment> \<open>\<open>malloc\<close> in \<open>resize_table\<close> (wtable.c)\<close>
  | A_wtable_key    \<comment> \<open>\<open>strdup\<close> in \<open>wtable_set\<close> (wtable.c)\<close>
  | A_pf            \<comment> \<open>\<open>malloc\<close> in \<open>pf_create\<close> (fiu.c)\<close>
  | A_pf_name       \<comment> \<open>\<open>strdup\<close> in \<open>pf_create\<close> (fiu.c)\<close>

type_synonym mem = "alloc_site \<Rightarrow> bool"

definition mem_ok :: mem where
  "mem_ok = (\<lambda>_. True)"

definition strdup :: "mem \<Rightarrow> alloc_site \<Rightarrow> string \<Rightarrow> string ptr" where
  "strdup mem site s = (if mem site then Ptr s else NULL)"

lemma mem_ok_site [simp]: "mem_ok s"
  by (simp add: mem_ok_def)

lemma strdup_ok [c_run]: "mem site \<Longrightarrow> strdup mem site s = Ptr s"
  by (simp add: strdup_def)

lemma strdup_fails [c_run]: "\<not> mem site \<Longrightarrow> strdup mem site s = NULL"
  by (simp add: strdup_def)

text \<open>A destructor is a function pointer; what matters of a call is which objects it releases.\<close>

type_synonym 'v destructor = "'v ptr \<Rightarrow> 'v ptr list"

subsection \<open>Lists\<close>

lemma length_filter_update:
  "i < length xs \<Longrightarrow> length (filter P (xs[i := x])) + (if P (xs ! i) then 1 else 0)
     = length (filter P xs) + (if P x then 1 else 0)"
proof (induction xs arbitrary: i)
  case (Cons y ys)
  then show ?case by (cases i) auto
qed simp

lemma filter_update_same:
  "i < length xs \<Longrightarrow> P x = P (xs ! i) \<Longrightarrow> length (filter P (xs[i := x])) = length (filter P xs)"
  using length_filter_update [of i xs P x] by auto

lemma length_filter_pos: "i < length xs \<Longrightarrow> P (xs ! i) \<Longrightarrow> 0 < length (filter P xs)"
  by (auto simp: filter_empty_conv)

lemma length_filter_pos_ex: "0 < length (filter P xs) \<Longrightarrow> \<exists>i<length xs. P (xs ! i)"
  by (auto simp: filter_empty_conv in_set_conv_nth)

lemma bind_eq_Some: "(x \<bind> f) = Some y \<longleftrightarrow> (\<exists>z. x = Some z \<and> f z = Some y)"
  by (cases x) auto

lemma mset_filter_update:
  assumes "i < length xs"
  shows "mset (filter P (xs[i := x])) + (if P (xs ! i) then {#xs ! i#} else {#})
    = mset (filter P xs) + (if P x then {#x#} else {#})"
  using assms
proof (induction xs arbitrary: i)
  case (Cons y ys)
  show ?case
  proof (cases i)
    case 0
    then show ?thesis by simp
  next
    case (Suc n)
    with Cons.prems have "n < length ys" by simp
    from Cons.IH [OF this] Suc show ?thesis by (auto split: if_splits)
  qed
qed simp

end
