(* ===== verification/Murmur.thy ===== *)
theory Murmur
  imports Prelude
begin

text \<open>
  \<open>murmurhash2\<close> of libfiu/hash.c: the hash function of the tables, on 32-bit words.
  The platform is the one the library is deployed on: little-endian, with a signed \<open>char\<close>, so the
  bytes of the last incomplete block are sign-extended before they are shifted and mixed in.
  The lemmas show that every mixing step is a bijection, and from that which keys never collide.
\<close>

unbundle bit_operations_syntax

type_synonym u32 = "32 word"

definition murmur_m :: u32 where "murmur_m = 0x5bd1e995"
definition murmur_r :: nat where "murmur_r = 24"
definition murmur_seed :: u32 where "murmur_seed = 0x34a4b627"

text \<open>A \<open>char\<close> of the key as an unsigned byte (the word loads) and promoted to \<open>int\<close>
  (the switch on the last bytes).\<close>

definition byte_of :: "char \<Rightarrow> 8 word" where
  "byte_of c = of_char c"

definition sbyte :: "char \<Rightarrow> u32" where
  "sbyte c = scast (byte_of c)"

text \<open>\<open>*(uint32_t *) key\<close>\<close>

definition load32 :: "char \<Rightarrow> char \<Rightarrow> char \<Rightarrow> char \<Rightarrow> u32" where
  "load32 a b c d = ucast (byte_of a) OR push_bit 8 (ucast (byte_of b))
     OR push_bit 16 (ucast (byte_of c)) OR push_bit 24 (ucast (byte_of d))"

definition mix_k :: "u32 \<Rightarrow> u32" where
  "mix_k k0 = (let k1 = k0 * murmur_m; k2 = k1 XOR drop_bit murmur_r k1 in k2 * murmur_m)"

text \<open>The loop over the blocks of four bytes and the switch on what is left, in one recursion on
  the characters still to be read.\<close>

fun murmur_body :: "string \<Rightarrow> u32 \<Rightarrow> u32" where
  "murmur_body (a # b # c # d # key) h = murmur_body key (h * murmur_m XOR mix_k (load32 a b c d))"
| "murmur_body [a, b, c] h =
     (h XOR push_bit 16 (sbyte c) XOR push_bit 8 (sbyte b) XOR sbyte a) * murmur_m"
| "murmur_body [a, b] h = (h XOR push_bit 8 (sbyte b) XOR sbyte a) * murmur_m"
| "murmur_body [a] h = (h XOR sbyte a) * murmur_m"
| "murmur_body [] h = h"

definition murmur_final :: "u32 \<Rightarrow> u32" where
  "murmur_final h0 = (let h1 = h0 XOR drop_bit 13 h0; h2 = h1 * murmur_m in h2 XOR drop_bit 15 h2)"

definition murmurhash2 :: "string \<Rightarrow> u32" where
  "murmurhash2 key = murmur_final (murmur_body key (murmur_seed XOR of_nat (length key)))"

subsection \<open>Every mixing step is a bijection\<close>

lemma murmur_m_inverse: "murmur_m * 0xe59b19bd = 1"
  by (simp add: murmur_m_def)

lemma mult_murmur_m_inj: "x * murmur_m = y * murmur_m \<longleftrightarrow> x = y"
proof
  assume "x * murmur_m = y * murmur_m"
  then have "x * (murmur_m * 0xe59b19bd) = y * (murmur_m * 0xe59b19bd)"
    by (simp flip: mult.assoc)
  then show "x = y" by (simp only: murmur_m_inverse mult_1_right)
qed simp

lemma xorshift_inj: "0 < n \<Longrightarrow> (x::'a::len word) XOR drop_bit n x = y XOR drop_bit n y \<Longrightarrow> x = y"
proof -
  assume n: "0 < n" and eq: "x XOR drop_bit n x = y XOR drop_bit n y"
  have "bit x i = bit y i" if "i < LENGTH('a)" for i
    using that
  proof (induction "LENGTH('a) - i" arbitrary: i rule: less_induct)
    case less
    from eq have "bit (x XOR drop_bit n x) i = bit (y XOR drop_bit n y) i" by simp
    then have e: "(bit x i \<noteq> bit x (n + i)) = (bit y i \<noteq> bit y (n + i))"
      by (simp add: bit_xor_iff bit_drop_bit_eq)
    show ?case
    proof (cases "n + i < LENGTH('a)")
      case True
      with less n have "bit x (n + i) = bit y (n + i)" by simp
      with e show ?thesis by auto
    next
      case False
      then have "\<not> bit x (n + i)" "\<not> bit y (n + i)" by (auto dest: bit_imp_le_length)
      with e show ?thesis by simp
    qed
  qed
  then show ?thesis by (simp add: bit_word_eqI)
qed

lemma xor_left_inj: "(h::u32) XOR x = h XOR y \<longleftrightarrow> x = y"
  by (metis bit.xor_left_self)

lemma xor_right_inj: "(x::u32) XOR h = y XOR h \<longleftrightarrow> x = y"
  by (metis xor_left_inj xor.commute)

lemmas word_step_inj = mult_murmur_m_inj xor_left_inj xor_right_inj

lemma byte_of_inj: "byte_of c = byte_of d \<longleftrightarrow> c = d"
proof
  assume "byte_of c = byte_of d"
  then have "unat (of_nat (of_char c) :: 8 word) = unat (of_nat (of_char d) :: 8 word)"
    by (simp only: byte_of_def of_nat_of_char)
  moreover have "(of_char c :: nat) < 2 ^ 8" "(of_char d :: nat) < 2 ^ 8"
    using nat_of_char_less_256 [of c] nat_of_char_less_256 [of d] by simp_all
  ultimately have "(of_char c :: nat) = of_char d"
    by (simp add: unat_of_nat take_bit_eq_mod del: of_nat_of_char)
  then show "c = d" by simp
qed simp

lemma mix_k_inj: "mix_k x = mix_k y \<longleftrightarrow> x = y"
  by (auto simp: mix_k_def Let_def word_step_inj murmur_r_def dest!: xorshift_inj [rotated])

lemma murmur_final_inj: "murmur_final x = murmur_final y \<longleftrightarrow> x = y"
  by (auto simp: murmur_final_def Let_def word_step_inj dest!: xorshift_inj [rotated])

lemma load32_bytes:
  "ucast (load32 a b c d) = byte_of a"
  "ucast (drop_bit 8 (load32 a b c d)) = byte_of b"
  "ucast (drop_bit 16 (load32 a b c d)) = byte_of c"
  "ucast (drop_bit 24 (load32 a b c d)) = byte_of d"
  by (rule bit_word_eqI; auto simp: load32_def bit_simps dest: bit_imp_le_length)+

lemma load32_inj: "load32 a b c d = load32 a' b' c' d' \<longleftrightarrow> a = a' \<and> b = b' \<and> c = c' \<and> d = d'"
  by (metis load32_bytes byte_of_inj)

lemma murmur_body_h_inj: "murmur_body key h = murmur_body key h' \<longleftrightarrow> h = h'"
  by (induction key h arbitrary: h' rule: murmur_body.induct) (auto simp: word_step_inj)


lemma murmur_body_append:
  "length p mod 4 = 0 \<Longrightarrow> murmur_body (p @ s) h = murmur_body s (murmur_body p h)"
  by (induction p h rule: murmur_body.induct) auto

lemma sbyte_low: "ucast (sbyte c) = byte_of c"
  by (rule bit_word_eqI) (auto simp: sbyte_def bit_simps dest: bit_imp_le_length)

lemma tail_bytes:
  "ucast (push_bit 16 x XOR push_bit 8 y XOR sbyte a) = byte_of a"
  "ucast (push_bit 8 y XOR sbyte a) = byte_of a"
  "ucast (drop_bit 8 (push_bit 16 x XOR push_bit 8 (sbyte b))) = byte_of b"
  "ucast (drop_bit 8 (push_bit 8 (sbyte b))) = byte_of b"
  "ucast (drop_bit 16 (push_bit 16 (sbyte d))) = byte_of d"
  by (rule bit_word_eqI; auto simp: sbyte_def bit_simps dest: bit_imp_le_length)+

text \<open>The switch on the last bytes: the low byte of what is mixed in gives the first character, and so
  on upwards, in spite of the sign extension.\<close>

lemma tail1_inj: "sbyte a = sbyte a' \<longleftrightarrow> a = a'"
  by (metis sbyte_low byte_of_inj)

lemma tail2_inj:
  "push_bit 8 (sbyte b) XOR sbyte a = push_bit 8 (sbyte b') XOR sbyte a' \<longleftrightarrow> a = a' \<and> b = b'"
  by (metis tail_bytes(2,4) byte_of_inj xor_right_inj)

lemma tail3_inj:
  "push_bit 16 (sbyte d) XOR push_bit 8 (sbyte b) XOR sbyte a
     = push_bit 16 (sbyte d') XOR push_bit 8 (sbyte b') XOR sbyte a' \<longleftrightarrow> a = a' \<and> b = b' \<and> d = d'"
proof
  assume eq: "push_bit 16 (sbyte d) XOR push_bit 8 (sbyte b) XOR sbyte a
     = push_bit 16 (sbyte d') XOR push_bit 8 (sbyte b') XOR sbyte a'"
  from arg_cong [OF eq, of "ucast :: u32 \<Rightarrow> 8 word"] have a: "a = a'"
    by (simp only: tail_bytes byte_of_inj)
  with eq have eq: "push_bit 16 (sbyte d) XOR push_bit 8 (sbyte b) = push_bit 16 (sbyte d') XOR push_bit 8 (sbyte b')"
    by (simp only: xor.assoc [symmetric] xor_right_inj)
  from arg_cong [OF eq, of "\<lambda>x. ucast (drop_bit 8 x) :: 8 word"] have b: "b = b'"
    by (simp only: tail_bytes byte_of_inj)
  with eq have eq: "push_bit 16 (sbyte d) = push_bit 16 (sbyte d')"
    by (simp only: xor_right_inj)
  from arg_cong [OF eq, of "\<lambda>x. ucast (drop_bit 16 x) :: 8 word"] a b show "a = a' \<and> b = b' \<and> d = d'"
    by (simp only: tail_bytes byte_of_inj)
qed simp

lemma murmur_body_block_inj:
  assumes "length b = length b'" and "length b \<le> 4"
  shows "murmur_body b h = murmur_body b' h \<longleftrightarrow> b = b'"
  using assms
  by (cases b rule: murmur_body.cases [of "(b, h)" for b]; cases b' rule: murmur_body.cases [of "(b, h)" for b])
    (auto simp: word_step_inj mix_k_inj load32_inj tail1_inj tail2_inj tail3_inj xor.assoc)

text \<open>Two keys of the same length that differ inside one block of the hash function (an aligned
  block of four characters, or the one to three characters after the last of them) never have the
  same hash, whatever surrounds the block; keys of up to four characters of one length
  never collide at all.\<close>

theorem murmur_one_block_distinct:
  assumes "length p mod 4 = 0" and "length b = length b'" and "length b \<le> 4" and "b \<noteq> b'"
    and "s = [] \<or> length b = 4"
  shows "murmurhash2 (p @ b @ s) \<noteq> murmurhash2 (p @ b' @ s)"
proof -
  let ?h = "murmur_body p (murmur_seed XOR of_nat (length (p @ b @ s)))"
  have ne: "murmur_body b ?h \<noteq> murmur_body b' ?h"
    using assms by (simp add: murmur_body_block_inj)
  from assms(5) have "murmur_body (b @ s) ?h \<noteq> murmur_body (b' @ s) ?h"
    using ne assms(2) by (auto simp: murmur_body_append murmur_body_h_inj)
  then show ?thesis
    using assms(1,2) by (simp add: murmurhash2_def murmur_final_inj murmur_body_append)
qed

theorem murmur_one_block_distinct_witness:
  "murmurhash2 (''posix/io'' @ ''/rw/'' @ ''read'') \<noteq> murmurhash2 (''posix/io'' @ ''/oc/'' @ ''read'')"
  by (rule murmur_one_block_distinct) simp_all

end
