(* ===== verification/CFloat.thy ===== *)
theory CFloat
  imports Complex_Main "HOL-Library.Log_Nat"
begin

text \<open>
  The floating-point arithmetic of the code. The tables decide when to resize by comparing a
  \<open>float\<close> quotient of two sizes with a \<open>double\<close> literal, and the random number generator divides
  two \<open>double\<close>s. The values are non-negative and far from overflow and underflow, so a value is
  the rational number it stands for, and every operation is the exact one followed by a rounding to
  24 (\<open>float\<close>) or 53 (\<open>double\<close>) significant bits, ties to even.
\<close>

definition fexp :: "rat \<Rightarrow> int" where
  "fexp x = (case quotient_of x of (n, d) \<Rightarrow>
     let e = bitlen n - bitlen d
     in if 2 powi e \<le> x then e else e - 1)"

definition rnd_int :: "rat \<Rightarrow> int" where
  "rnd_int q = (let f = \<lfloor>q\<rfloor>; r = q - of_int f
     in if r < 1 / 2 then f else if 1 / 2 < r then f + 1 else if even f then f else f + 1)"

definition rnd :: "nat \<Rightarrow> rat \<Rightarrow> rat" where
  "rnd p x = (if x \<le> 0 then 0
     else let u = 2 powi (fexp x - int p + 1) in of_int (rnd_int (x / u)) * u)"

abbreviation f32 :: "rat \<Rightarrow> rat" where "f32 \<equiv> rnd 24"
abbreviation f64 :: "rat \<Rightarrow> rat" where "f64 \<equiv> rnd 53"

text \<open>\<open>(float) a / b\<close> for two sizes: both operands are converted to \<open>float\<close>.\<close>

definition f32_ratio :: "nat \<Rightarrow> nat \<Rightarrow> rat" where
  "f32_ratio a b = f32 (f32 (of_nat a) / f32 (of_nat b))"

text \<open>The \<open>double\<close> literals of the code.\<close>

definition d_0_3 :: rat where "d_0_3 = f64 (3 / 10)"
definition d_0_6 :: rat where "d_0_6 = f64 (6 / 10)"
definition d_1_3 :: rat where "d_1_3 = f64 (13 / 10)"

text \<open>\<open>(size_t) (n * 1.3 + 1)\<close>\<close>

definition f64_grow :: "nat \<Rightarrow> nat" where
  "f64_grow n = nat \<lfloor>f64 (f64 (f64 (of_nat n) * d_1_3) + 1)\<rfloor>"

subsection \<open>The relative error of a rounding\<close>

lemma floorlog2_bounds:
  fixes n :: nat
  assumes "0 < n"
  shows "(2::rat) powi (int (floorlog 2 n) - 1) \<le> of_nat n" and "of_nat n < (2::rat) powi int (floorlog 2 n)"
proof -
  from floorlog_bounds [of n 2] assms
  have b: "2 ^ (floorlog 2 n - 1) \<le> n" "n < 2 ^ floorlog 2 n" by auto
  have "0 < floorlog 2 n"
    using assms floorlog_eq_zero_iff [of 2 n] by simp
  then have "(2::rat) powi (int (floorlog 2 n) - 1) = of_nat (2 ^ (floorlog 2 n - 1))"
    by (simp add: power_int_def nat_diff_distrib)
  also have "\<dots> \<le> of_nat n" using b(1) by (simp only: of_nat_le_iff)
  finally show "(2::rat) powi (int (floorlog 2 n) - 1) \<le> of_nat n" .
  have "of_nat n < (of_nat (2 ^ floorlog 2 n) :: rat)" using b(2) by (simp only: of_nat_less_iff)
  then show "of_nat n < (2::rat) powi int (floorlog 2 n)" by simp
qed

lemma fexp_bounds:
  assumes "0 < x"
  shows "2 powi fexp x \<le> x" and "x < 2 powi (fexp x + 1)"
proof -
  obtain n d where q: "quotient_of x = (n, d)" by (cases "quotient_of x")
  then have d: "0 < d" and x: "x = of_int n / of_int d"
    by (auto dest: quotient_of_denom_pos quotient_of_div)
  with assms have n: "0 < n" by (simp add: zero_less_divide_iff)
  define a b where "a = int (floorlog 2 (nat n))" and "b = int (floorlog 2 (nat d))"
  have nb: "2 powi (a - 1) \<le> (of_int n :: rat)" "(of_int n :: rat) < 2 powi a"
    using floorlog2_bounds [of "nat n"] n by (simp_all add: a_def)
  have db: "2 powi (b - 1) \<le> (of_int d :: rat)" "(of_int d :: rat) < 2 powi b"
    using floorlog2_bounds [of "nat d"] d by (simp_all add: b_def)
  have "x < 2 powi a / 2 powi (b - 1)"
    unfolding x using nb db d n by (intro frac_less) auto
  then have up: "x < 2 powi (a - b + 1)" by (simp add: power_int_diff power_int_add field_simps)
  have "2 powi (a - 1) / 2 powi b \<le> x"
    unfolding x using nb db d n by (intro frac_le) auto
  then have lo: "2 powi (a - b - 1) \<le> x" by (simp add: power_int_diff power_int_add field_simps)
  have "fexp x = (if 2 powi (a - b) \<le> x then a - b else a - b - 1)"
    by (simp add: fexp_def q a_def b_def Let_def bitlen_def)
  with up lo show "2 powi fexp x \<le> x" "x < 2 powi (fexp x + 1)" by (auto split: if_splits)
qed

lemma rnd_int_error: "\<bar>of_int (rnd_int q) - q\<bar> \<le> 1 / 2"
proof -
  have "of_int \<lfloor>q\<rfloor> \<le> q" "q < of_int \<lfloor>q\<rfloor> + 1" by linarith+
  then show ?thesis by (simp add: rnd_int_def Let_def abs_le_iff split: if_splits)
qed

lemma rnd_int_ge: "of_int k \<le> q \<Longrightarrow> k \<le> rnd_int q"
  by (simp add: rnd_int_def Let_def) linarith

lemma rnd_nonneg: "0 \<le> rnd p x"
  by (auto simp: rnd_def Let_def divide_nonneg_pos intro!: mult_nonneg_nonneg rnd_int_ge)

lemma rnd_error:
  assumes "0 \<le> x"
  shows "\<bar>rnd p x - x\<bar> \<le> x / 2 ^ p"
proof (cases "x = 0")
  case False
  with assms have x: "0 < x" by simp
  define u :: rat where "u = 2 powi (fexp x - int p + 1)"
  have u: "0 < u" by (simp add: u_def)
  have "rnd p x - x = (of_int (rnd_int (x / u)) - x / u) * u"
    using x u by (simp add: rnd_def Let_def u_def [symmetric] left_diff_distrib)
  then have "\<bar>rnd p x - x\<bar> = \<bar>of_int (rnd_int (x / u)) - x / u\<bar> * u"
    using u by (simp add: abs_mult)
  also have "\<dots> \<le> 1 / 2 * u"
    using u rnd_int_error by (intro mult_right_mono) auto
  also have "\<dots> = 2 powi fexp x / 2 ^ p"
    by (simp add: u_def power_int_diff power_int_add)
  also have "\<dots> \<le> x / 2 ^ p"
    using fexp_bounds(1) [OF x] by (simp add: divide_right_mono)
  finally show ?thesis .
qed (simp add: rnd_def)

lemma rnd_ge_nat:
  assumes "of_nat k \<le> x" and "k < 2 ^ p"
  shows "of_nat k \<le> rnd p x"
proof (cases "k = 0")
  case True
  then show ?thesis by (simp add: rnd_nonneg)
next
  case False
  with assms(1) have x: "0 < x" by (metis not_gr_zero of_nat_0_less_iff order_less_le_trans)
  define e where "e = fexp x - int p + 1"
  have r: "rnd p x = of_int (rnd_int (x / 2 powi e)) * 2 powi e"
    using x by (simp add: rnd_def e_def Let_def)
  show ?thesis
  proof (cases "e \<le> 0")
    case True
    define m where "m = int k * 2 ^ nat (- e)"
    have p: "(2::rat) powi e * 2 ^ nat (- e) = 1"
      using True by (auto simp: power_int_def simp flip: power_mult_distrib)
    have "of_int m = of_nat k / (2::rat) powi e"
      using p by (simp add: m_def field_simps)
    also have "\<dots> \<le> x / 2 powi e"
      using assms(1) by (simp add: divide_right_mono)
    finally have "m \<le> rnd_int (x / 2 powi e)" by (rule rnd_int_ge)
    then have "of_int m * (2::rat) powi e \<le> rnd p x"
      unfolding r by (intro mult_right_mono) auto
    moreover have "of_int m * (2::rat) powi e = of_nat k * (2 powi e * 2 ^ nat (- e))"
      by (simp add: m_def)
    ultimately show ?thesis using p by simp
  next
    case False
    from assms(2) \<open>k \<noteq> 0\<close> have p: "0 < p" by (cases p) auto
    define m :: int where "m = 2 ^ (p - 1)"
    have me: "of_int m * (2::rat) powi e = 2 powi fexp x"
      using p by (simp add: m_def e_def power_int_diff power_int_add flip: power_int_of_nat)
    have "m \<le> rnd_int (x / 2 powi e)"
      using me fexp_bounds(1) [OF x] by (intro rnd_int_ge) (simp add: pos_le_divide_eq)
    then have "of_int m * (2::rat) powi e \<le> rnd p x"
      unfolding r by (intro mult_right_mono) auto
    moreover have "(of_nat k :: rat) < 2 ^ p"
      using assms(2) by (metis of_nat_less_iff of_nat_numeral of_nat_power)
    moreover have "(2::rat) ^ p \<le> 2 powi fexp x"
      using False by (simp add: e_def power_int_increasing flip: power_int_of_nat)
    ultimately show ?thesis using me by linarith
  qed
qed

lemma rnd_of_nat:
  assumes "n < 2 ^ p"
  shows "rnd p (of_nat n) = of_nat n"
proof (cases "n = 0")
  case True
  then show ?thesis by (simp add: rnd_def)
next
  case False
  define x :: rat where "x = of_nat n"
  from False have x: "0 < x" by (simp add: x_def)
  from fexp_bounds(1) [OF x] have "2 powi fexp x < (2::rat) powi int p"
    using assms by (metis of_nat_less_iff of_nat_numeral of_nat_power order_le_less_trans power_int_of_nat x_def)
  then have e: "fexp x < int p"
    using power_int_increasing [of "int p" "fexp x" "2 :: rat"] by fastforce
  define k where "k = nat (int p - fexp x - 1)"
  have u: "2 powi (fexp x - int p + 1) = 1 / (2::rat) ^ k"
    using e by (simp add: k_def power_int_def field_simps)
  have "rnd_int (x * 2 ^ k) = int n * 2 ^ k"
  proof -
    have "x * 2 ^ k = of_int (int n * 2 ^ k)" by (simp add: x_def)
    then show ?thesis by (simp only: rnd_int_def Let_def floor_of_int) simp
  qed
  then have "rnd p x = of_int (int n * 2 ^ k) * (1 / 2 ^ k)"
    using x by (simp add: rnd_def Let_def u)
  then show ?thesis by (simp add: x_def)
qed

lemma d_0_3_val: "d_0_3 = 5404319552844595 / 18014398509481984"
  unfolding d_0_3_def by code_simp
lemma d_0_6_val: "d_0_6 = 5404319552844595 / 9007199254740992"
  unfolding d_0_6_def by code_simp
lemma d_1_3_val: "d_1_3 = 5854679515581645 / 4503599627370496"
  unfolding d_1_3_def by code_simp

text \<open>A quotient of sizes against a literal.\<close>

lemma f32_ratio_exact:
  assumes "a < 2 ^ 24" and "b < 2 ^ 24"
  shows "f32_ratio a b = f32 (of_nat a / of_nat b)"
  using assms by (simp add: f32_ratio_def rnd_of_nat)

lemma rnd_bounds:
  assumes "0 \<le> x"
  shows "x * (1 - 1 / 2 ^ p) \<le> rnd p x" and "rnd p x \<le> x * (1 + 1 / 2 ^ p)"
  using rnd_error [OF assms, of p] by (simp_all add: abs_le_iff field_simps)

lemma f32_ratio_lt_lit:
  assumes b: "0 < b" "b \<le> 2 ^ 20" and a: "a < 2 ^ 24" and c: "c \<le> 9"
    and d: "\<bar>d - of_nat c / 10\<bar> \<le> 1 / 2 ^ 40" "d \<le> f32 (of_nat c / 10)"
  shows "f32_ratio a b < d \<longleftrightarrow> 10 * a < c * b"
proof -
  define x :: rat where "x = of_nat a / of_nat b"
  have r: "f32_ratio a b = f32 x" using a b by (simp add: f32_ratio_exact x_def)
  have b0: "0 < (of_nat b :: rat)" using b by simp
  have "(of_nat b :: rat) \<le> of_nat (2 ^ 20)" using b(2) by (simp only: of_nat_le_iff)
  then have b1: "1 / 2 ^ 20 \<le> (1 / of_nat b :: rat)" using b0 by (simp add: field_simps)
  define C :: rat where "C = of_nat c"
  have c1: "C \<le> 9" using c unfolding C_def by (metis of_nat_le_iff of_nat_numeral)
  from d(1) have d1: "d \<le> C / 10 + 1 / 2 ^ 40" "C / 10 - 1 / 2 ^ 40 \<le> d"
    unfolding C_def abs_le_iff by linarith+
  have x: "0 \<le> x" and xb: "x * of_nat b = of_nat a" using b0 by (simp_all add: x_def)
  note rb = rnd_bounds [OF x, of 24]
  consider "10 * a + 1 \<le> c * b" | "10 * a = c * b" | "c * b + 1 \<le> 10 * a" by linarith
  then show ?thesis
  proof cases
    case 1
    then have "(of_nat (10 * a + 1) :: rat) \<le> of_nat (c * b)" by (simp only: of_nat_le_iff)
    then have "10 * x + 1 / of_nat b \<le> of_nat c" using b0 by (simp add: x_def field_simps)
    with b1 have "10 * x \<le> C - 1 / 2 ^ 20" by (simp add: C_def)
    with rb(2) c1 d1 have "f32 x < d" by simp
    with 1 r show ?thesis by simp
  next
    case 2
    then have "(of_nat (10 * a) :: rat) = of_nat (c * b)" by (simp only:)
    then have "x = of_nat c / 10" using b0 by (simp add: x_def field_simps)
    with d(2) 2 r show ?thesis by simp
  next
    case 3
    then have "(of_nat (c * b + 1) :: rat) \<le> of_nat (10 * a)" by (simp only: of_nat_le_iff)
    then have "of_nat (c * b + 1) / of_nat b \<le> (of_nat (10 * a) / of_nat b :: rat)"
      by (rule divide_right_mono) simp
    then have "of_nat c + 1 / of_nat b \<le> 10 * x" using b0 by (simp add: x_def add_divide_distrib)
    with b1 have "C + 1 / 2 ^ 20 \<le> 10 * x" by (simp add: C_def)
    with rb(1) c1 d1 have "d < f32 x" by simp
    with 3 r show ?thesis by simp
  qed
qed

lemma f32_3_10: "d_0_3 \<le> f32 (3 / 10)"
  unfolding d_0_3_def by code_simp
lemma f32_6_10: "d_0_6 \<le> f32 (6 / 10)"
  unfolding d_0_6_def by code_simp

lemma f32_ratio_lt_0_3:
  "0 < b \<Longrightarrow> b \<le> 2 ^ 20 \<Longrightarrow> a < 2 ^ 24 \<Longrightarrow> f32_ratio a b < d_0_3 \<longleftrightarrow> 10 * a < 3 * b"
  using f32_ratio_lt_lit [of b a 3 d_0_3] f32_3_10 by (simp add: d_0_3_val)

lemma f32_ratio_lt_0_6:
  "0 < b \<Longrightarrow> b \<le> 2 ^ 20 \<Longrightarrow> a < 2 ^ 24 \<Longrightarrow> f32_ratio a b < d_0_6 \<longleftrightarrow> 10 * a < 6 * b"
  using f32_ratio_lt_lit [of b a 6 d_0_6] f32_6_10 by (simp add: d_0_6_val)


text \<open>Whatever the sizes are: a quotient that is far enough from the literal is on its side of it.\<close>

lemma f32_ratio_ge:
  assumes "b \<le> 2 * a" and "0 < b"
  shows "d_0_3 \<le> f32_ratio a b"
proof -
  define A B where "A = f32 (of_nat a)" and "B = f32 (of_nat b)"
  have "(of_nat b :: rat) \<le> of_nat (2 * a)" using assms(1) by (simp only: of_nat_le_iff)
  then have ab: "(of_nat b :: rat) \<le> 2 * of_nat a" "0 < (of_nat b :: rat)"
    using assms(2) by simp_all
  have A: "of_nat a * (9 / 10) \<le> A" using rnd_bounds(1) [of "of_nat a" 24] by (simp add: A_def)
  have B: "B \<le> of_nat b * (11 / 10)" "0 < B"
    using rnd_bounds [of "of_nat b" 24] ab(2) by (simp_all add: B_def)
  have "4 / 10 * B \<le> A" using A B ab by linarith
  define Q where "Q = A / B"
  have q: "4 / 10 \<le> Q"
    unfolding Q_def pos_le_divide_eq [OF B(2)] by (rule \<open>4 / 10 * B \<le> A\<close>)
  have "d_0_3 \<le> f32 Q" using q rnd_bounds(1) [of Q 24] by (simp add: d_0_3_val)
  then show ?thesis by (simp add: f32_ratio_def A_def B_def Q_def)
qed

lemma f32_ratio_0: "f32_ratio 0 b = 0"
  by (simp add: f32_ratio_def rnd_def)

lemma f32_ratio_0_lt: "f32_ratio 0 b < d_0_3"
  by (simp add: f32_ratio_0 d_0_3_val)

lemma f64_grow_ge: "Suc n \<le> f64_grow n"
proof -
  define x where "x = f64 (of_nat n) * d_1_3"
  have N: "of_nat n * (1 - 1 / 2 ^ 53) \<le> f64 (of_nat n)" by (rule rnd_bounds) simp
  have x: "of_nat n * (12 / 10) \<le> x" using N by (simp add: x_def d_1_3_val)
  moreover have "(0 :: rat) \<le> of_nat n * (12 / 10)" by simp
  ultimately have x0: "0 \<le> x" by linarith
  have "x * (1 - 1 / 2 ^ 53) \<le> f64 x" by (rule rnd_bounds) (rule x0)
  with x x0 have y: "of_nat n * (11 / 10) \<le> f64 x" by simp
  have z: "(f64 x + 1) * (1 - 1 / 2 ^ 53) \<le> f64 (f64 x + 1)"
    by (rule rnd_bounds) (simp add: rnd_nonneg add_nonneg_nonneg)
  have "of_nat (Suc n) \<le> f64 (f64 x + 1)"
  proof (cases "n = 0")
    case True
    then show ?thesis using rnd_ge_nat [of 1 "f64 x + 1" 53] by (simp add: rnd_nonneg)
  next
    case False
    then have "(1 :: rat) \<le> of_nat n" by (simp add: Suc_le_eq)
    with y z show ?thesis by simp
  qed
  then show ?thesis by (simp add: f64_grow_def x_def le_nat_iff le_floor_iff)
qed

lemma f64_grow_eq:
  assumes "n \<le> 2 ^ 30"
  shows "f64_grow n = 13 * n div 10 + 1"
proof -
  define x y z where "x = of_nat n * d_1_3" and "y = f64 x" and "z = f64 (y + 1)"
  define K N :: rat where "K = of_nat (13 * n div 10)" and "N = of_nat n"
  have N: "0 \<le> N" "N \<le> 2 ^ 30"
    using assms of_nat_le_iff [of n "2 ^ 30", where 'a = rat] by (simp_all add: N_def)
  have "10 * (13 * n div 10) \<le> 13 * n" "13 * n \<le> 10 * (13 * n div 10) + 9" by linarith+
  then have "(of_nat (10 * (13 * n div 10)) :: rat) \<le> of_nat (13 * n)"
    "(of_nat (13 * n) :: rat) \<le> of_nat (10 * (13 * n div 10) + 9)"
    by (simp_all only: of_nat_le_iff)
  then have K: "10 * K \<le> 13 * N" "13 * N \<le> 10 * K + 9"
    by (simp_all add: K_def N_def)
  have x: "K \<le> x" "x \<le> 13 / 10 * N + 1 / 2 ^ 20" "0 \<le> x"
    using K N by (simp_all add: x_def N_def [symmetric] d_1_3_val)
  have "n \<le> 1073741824" using assms by simp
  then have "13 * n div 10 + 1 < 9007199254740992" by linarith
  then have small: "13 * n div 10 + 1 < 2 ^ 53" by simp
  have y: "K \<le> y" "y \<le> x * (1 + 1 / 2 ^ 53)"
    using rnd_ge_nat [of "13 * n div 10" x 53] x(1) small
      rnd_bounds(2) [OF x(3), of 53] by (simp_all add: y_def K_def)
  then have y0: "0 \<le> y" by (simp add: y_def rnd_nonneg)
  have z: "K + 1 \<le> z" "z \<le> (y + 1) * (1 + 1 / 2 ^ 53)"
    using rnd_ge_nat [of "13 * n div 10 + 1" "y + 1" 53] y(1) y0 small rnd_bounds(2) [of "y + 1" 53]
    by (simp_all add: z_def K_def add.commute)
  have "z < K + 2" using z(2) y(2) x(2) K(2) N(2) by simp
  with z(1) have "\<lfloor>z\<rfloor> = int (13 * n div 10 + 1)"
    by (simp add: floor_eq_iff K_def)
  moreover have "f64 (of_nat n) = of_nat n" using assms by (intro rnd_of_nat) simp
  ultimately show ?thesis by (simp add: f64_grow_def z_def y_def x_def)
qed

end
