(* ===== verification/Hash.thy ===== *)
theory Hash
  imports Murmur CFloat
begin

text \<open>
  The hash table of libfiu/hash.c (\<open>struct hash\<close>): open addressing with linear probing, removed
  cells that are never reused, and automatic resizing. The definitions follow the C functions of
  the same names; \<open>_hash_set\<close> is \<open>hash_set_internal\<close>. Everything the table does is a function
  from its state to a result and a new state.
\<close>

subsection \<open>State\<close>

datatype used_as = NEVER | IN_USE | REMOVED

record 'v entry =
  e_key :: "string ptr"
  e_value :: "'v ptr"
  e_in_use :: used_as

text \<open>\<open>released\<close> is not a field of the C structure: it lists, in order, what the calls of the
  destructor have released so far.\<close>

record 'v hash =
  entries :: "'v entry list ptr"
  table_size :: nat
  nentries :: nat
  nremoved :: nat
  destructor :: "'v destructor"
  released :: "'v ptr list"

definition HASH_MIN_SIZE :: nat where "HASH_MIN_SIZE = 10"

definition dumb_destructor :: "'v destructor" where
  "dumb_destructor = (\<lambda>_. [])"

text \<open>What \<open>memset (entries, 0, ...)\<close> makes of a cell.\<close>

definition zero_entry :: "'v entry" where
  "zero_entry = \<lparr>e_key = NULL, e_value = NULL, e_in_use = NEVER\<rparr>"

definition hash_create :: "bool \<Rightarrow> bool \<Rightarrow> 'v destructor ptr \<Rightarrow> 'v hash ptr" where
  "hash_create malloc_h malloc_entries d =
     (if \<not> malloc_h then NULL
      else if \<not> malloc_entries then NULL
      else Ptr \<lparr>entries = Ptr (replicate HASH_MIN_SIZE zero_entry), table_size = HASH_MIN_SIZE,
                nentries = 0, nremoved = 0,
                destructor = (case d of NULL \<Rightarrow> dumb_destructor | Ptr f \<Rightarrow> f), released = []\<rparr>)"

subsection \<open>Cells\<close>

definition entry_at :: "'v hash \<Rightarrow> nat \<Rightarrow> 'v entry option" where
  "entry_at h pos = do { es \<leftarrow> deref (entries h); c_nth es pos }"

definition put_entry :: "'v hash \<Rightarrow> nat \<Rightarrow> 'v entry \<Rightarrow> 'v hash option" where
  "put_entry h pos e = do {
     es \<leftarrow> deref (entries h);
     es' \<leftarrow> c_update es pos e;
     Some (h\<lparr>entries := Ptr es'\<rparr>) }"

definition destroy :: "'v hash \<Rightarrow> 'v ptr \<Rightarrow> 'v hash" where
  "destroy h v = h\<lparr>released := released h @ destructor h v\<rparr>"

text \<open>The test \<open>entry->in_use == IN_USE && strcmp (key, entry->key) == 0\<close>, and the cell where the
  search for a key starts.\<close>

definition entry_matches :: "string \<Rightarrow> 'v entry \<Rightarrow> bool option" where
  "entry_matches key e = (if e_in_use e = IN_USE then c_streq key (e_key e) else Some False)"

definition home_pos :: "'v hash \<Rightarrow> string \<Rightarrow> nat option" where
  "home_pos h key = c_mod (unat (murmurhash2 key)) (table_size h)"

subsection \<open>Lookup and insertion\<close>

text \<open>The three probing loops. The first argument counts the iterations that are left of
  \<open>for (i = 0; i < h->table_size; i++)\<close>.\<close>

fun hash_get_loop :: "nat \<Rightarrow> 'v hash \<Rightarrow> string \<Rightarrow> nat \<Rightarrow> 'v ptr option" where
  "hash_get_loop 0 h key pos = Some NULL"
| "hash_get_loop (Suc n) h key pos = do {
     e \<leftarrow> entry_at h pos;
     if e_in_use e = NEVER then Some NULL
     else do {
       m \<leftarrow> entry_matches key e;
       if m then Some (e_value e)
       else do { pos' \<leftarrow> c_mod (pos + 1) (table_size h); hash_get_loop n h key pos' } } }"

definition hash_get :: "'v hash \<Rightarrow> string \<Rightarrow> 'v ptr option" where
  "hash_get h key = do { pos \<leftarrow> home_pos h key; hash_get_loop (table_size h) h key pos }"

fun hash_set_loop :: "nat \<Rightarrow> 'v hash \<Rightarrow> string \<Rightarrow> 'v ptr \<Rightarrow> nat \<Rightarrow> (bool \<times> 'v hash) option" where
  "hash_set_loop 0 h key v pos = Some (False, h)"
| "hash_set_loop (Suc n) h key v pos = do {
     e \<leftarrow> entry_at h pos;
     if e_in_use e = NEVER then do {
       h' \<leftarrow> put_entry h pos \<lparr>e_key = Ptr key, e_value = v, e_in_use = IN_USE\<rparr>;
       Some (True, h'\<lparr>nentries := nentries h' + 1\<rparr>) }
     else do {
       m \<leftarrow> entry_matches key e;
       if m then do {
         h' \<leftarrow> put_entry (destroy h (e_value e)) pos (e\<lparr>e_value := v\<rparr>);
         Some (True, h') }
       else do { pos' \<leftarrow> c_mod (pos + 1) (table_size h); hash_set_loop n h key v pos' } } }"

text \<open>\<open>_hash_set\<close>: the key pointer is stored as it is.\<close>

definition hash_set_internal :: "'v hash \<Rightarrow> string ptr \<Rightarrow> 'v ptr \<Rightarrow> (bool \<times> 'v hash) option" where
  "hash_set_internal h key v = do {
     k \<leftarrow> deref key;
     pos \<leftarrow> home_pos h k;
     hash_set_loop (table_size h) h k v pos }"

subsection \<open>Resizing\<close>

fun rehash_loop :: "'v entry list \<Rightarrow> 'v hash \<Rightarrow> 'v hash option" where
  "rehash_loop [] h = Some h"
| "rehash_loop (e # old) h =
     (if e_in_use e = IN_USE then do {
        (r, h') \<leftarrow> hash_set_internal h (e_key e) (e_value e);
        rehash_loop old h' }
      else rehash_loop old h)"

definition hash_resize_table :: "mem \<Rightarrow> 'v hash \<Rightarrow> nat \<Rightarrow> (bool \<times> 'v hash) option" where
  "hash_resize_table mem h new_size0 =
     (let new_size = (if new_size0 < HASH_MIN_SIZE then HASH_MIN_SIZE else new_size0)
      in if \<not> mem A_hash_entries then Some (False, h\<lparr>entries := NULL\<rparr>)
         else do {
           let h0 = h\<lparr>entries := Ptr (replicate new_size zero_entry), table_size := new_size,
                      nentries := 0, nremoved := 0\<rparr>;
           old_entries \<leftarrow> deref (entries h);
           old \<leftarrow> c_prefix (table_size h) old_entries;
           h' \<leftarrow> rehash_loop old h0;
           Some (True, h') })"

definition usable_ratio :: "'v hash \<Rightarrow> rat" where
  "usable_ratio h = f32_ratio (size_sub (size_sub (table_size h) (nentries h)) (nremoved h)) (table_size h)"

definition entries_ratio :: "'v hash \<Rightarrow> rat" where
  "entries_ratio h = f32_ratio (nentries h) (table_size h)"

definition auto_resize_table :: "mem \<Rightarrow> 'v hash \<Rightarrow> (bool \<times> 'v hash) option" where
  "auto_resize_table mem h =
     (if usable_ratio h < d_0_3 then hash_resize_table mem h (nentries h * 2)
      else if HASH_MIN_SIZE < table_size h \<and> entries_ratio h < d_0_3
        then hash_resize_table mem h (nentries h * 2)
      else Some (True, h))"

definition hash_set :: "mem \<Rightarrow> 'v hash \<Rightarrow> string \<Rightarrow> 'v ptr \<Rightarrow> (bool \<times> 'v hash) option" where
  "hash_set mem h key v = do {
     (r, h1) \<leftarrow> hash_set_internal h (strdup mem A_hash_key key) v;
     (ok, h2) \<leftarrow> auto_resize_table mem h1;
     Some (if \<not> ok then (False, h2) else (r, h2)) }"

subsection \<open>Removal\<close>

text \<open>The search of \<open>hash_del\<close>: the position where the loop breaks, if it does.\<close>

fun hash_del_loop :: "nat \<Rightarrow> 'v hash \<Rightarrow> string \<Rightarrow> nat \<Rightarrow> nat option option" where
  "hash_del_loop 0 h key pos = Some None"
| "hash_del_loop (Suc n) h key pos = do {
     e \<leftarrow> entry_at h pos;
     if e_in_use e = NEVER then Some None
     else do {
       m \<leftarrow> entry_matches key e;
       if m then Some (Some pos)
       else do { pos' \<leftarrow> c_mod (pos + 1) (table_size h); hash_del_loop n h key pos' } } }"

definition hash_del :: "mem \<Rightarrow> 'v hash \<Rightarrow> string \<Rightarrow> (bool \<times> 'v hash) option" where
  "hash_del mem h key = do {
     pos \<leftarrow> home_pos h key;
     found \<leftarrow> hash_del_loop (table_size h) h key pos;
     case found of
       None \<Rightarrow> Some (False, h)
     | Some p \<Rightarrow> do {
         e \<leftarrow> entry_at h p;
         h1 \<leftarrow> put_entry (destroy h (e_value e)) p
                \<lparr>e_key = NULL, e_value = NULL, e_in_use = REMOVED\<rparr>;
         let h2 = h1\<lparr>nentries := size_sub (nentries h1) 1, nremoved := nremoved h1 + 1\<rparr>;
         (ok, h3) \<leftarrow> auto_resize_table mem h2;
         Some (ok, h3) } }"

fun free_loop :: "'v entry list \<Rightarrow> 'v hash \<Rightarrow> 'v hash" where
  "free_loop [] h = h"
| "free_loop (e # es) h = free_loop es (if e_in_use e = IN_USE then destroy h (e_value e) else h)"

text \<open>\<open>hash_free\<close>: what has been released when the table itself is gone.\<close>

definition hash_free :: "'v hash \<Rightarrow> 'v ptr list option" where
  "hash_free h = do {
     all \<leftarrow> deref (entries h);
     es \<leftarrow> c_prefix (table_size h) all;
     Some (released (free_loop es h)) }"

end
