(* ===== verification/Table_Spec.thy ===== *)
theory Table_Spec
  imports Prelude "HOL-Library.Sublist"
begin

text \<open>
  The interfaces between the components, as locales. \<open>str_table\<close> is what every table with string keys
  promises (the hash table, the wildcard table): its contents are a map from keys to
  pointers, which \<open>put\<close> and \<open>del\<close> update. \<open>str_map\<close> adds a lookup that reads that map,
  \<open>owning_table\<close> adds who owns the values: each value that was handed to the table is either still in
  it or has been released, once. \<open>pattern_table\<close> adds a lookup whose keys may be patterns. \<open>lookup_cache\<close> is what the wildcard table relies on when it puts a
  cache in front of a slow lookup.
\<close>

datatype 'v table_op = SetOp string "'v ptr" | DelOp string

fun op_key :: "'v table_op \<Rightarrow> string" where
  "op_key (SetOp k v) = k"
| "op_key (DelOp k) = k"

text \<open>A client's sequence of operations, with the result of each, and the same on a map.\<close>

fun run_ops :: "('t \<Rightarrow> string \<Rightarrow> 'v ptr \<Rightarrow> (bool \<times> 't) option) \<Rightarrow> ('t \<Rightarrow> string \<Rightarrow> (bool \<times> 't) option)
    \<Rightarrow> 'v table_op list \<Rightarrow> 't \<Rightarrow> (bool list \<times> 't) option" where
  "run_ops put del [] t = Some ([], t)"
| "run_ops put del (x # xs) t = do {
     (r, t1) \<leftarrow> (case x of SetOp k v \<Rightarrow> put t k v | DelOp k \<Rightarrow> del t k);
     (rs, t2) \<leftarrow> run_ops put del xs t1;
     Some (r # rs, t2) }"

fun map_op :: "'v table_op \<Rightarrow> (string \<rightharpoonup> 'v ptr) \<Rightarrow> (string \<rightharpoonup> 'v ptr)" where
  "map_op (SetOp k v) m = m(k \<mapsto> v)"
| "map_op (DelOp k) m = m(k := None)"

fun op_result :: "'v table_op \<Rightarrow> (string \<rightharpoonup> 'v ptr) \<Rightarrow> bool" where
  "op_result (SetOp k v) m = True"
| "op_result (DelOp k) m = (m k \<noteq> None)"

fun map_ops :: "'v table_op list \<Rightarrow> (string \<rightharpoonup> 'v ptr) \<Rightarrow> bool list \<times> (string \<rightharpoonup> 'v ptr)" where
  "map_ops [] m = ([], m)"
| "map_ops (x # xs) m = (case map_ops xs (map_op x m) of (rs, m') \<Rightarrow> (op_result x m # rs, m'))"

fun values_set :: "'v table_op list \<Rightarrow> 'v ptr multiset" where
  "values_set [] = {#}"
| "values_set (SetOp k v # xs) = add_mset v (values_set xs)"
| "values_set (DelOp k # xs) = values_set xs"

locale str_table =
  fixes valid :: "string \<Rightarrow> bool"
    and put :: "'t \<Rightarrow> string \<Rightarrow> 'v ptr \<Rightarrow> (bool \<times> 't) option"
    and del :: "'t \<Rightarrow> string \<Rightarrow> (bool \<times> 't) option"
    and ok :: "'t \<Rightarrow> bool"
    and mp :: "'t \<Rightarrow> string \<rightharpoonup> 'v ptr"
  assumes set_law: "ok t \<Longrightarrow> valid k \<Longrightarrow> \<exists>t'. put t k v = Some (True, t') \<and> ok t' \<and> mp t' = (mp t)(k \<mapsto> v)"
    and del_law: "ok t \<Longrightarrow> valid k \<Longrightarrow>
      \<exists>t'. del t k = Some (mp t k \<noteq> None, t') \<and> ok t' \<and> mp t' = (mp t)(k := None)"
begin

lemma step_law:
  assumes "ok t" and "valid (op_key x)"
  obtains t' where "(case x of SetOp k v \<Rightarrow> put t k v | DelOp k \<Rightarrow> del t k) = Some (op_result x (mp t), t')"
    and "ok t'" and "mp t' = map_op x (mp t)"
proof (cases x)
  case (SetOp k v)
  with assms set_law [of t k v] that show ?thesis by auto
next
  case (DelOp k)
  with assms del_law [of t k] that show ?thesis by auto
qed

text \<open>Every sequence of operations refines the same sequence on the map.\<close>

lemma run_ops_refines:
  assumes "ok t" and "\<forall>x\<in>set xs. valid (op_key x)"
  shows "\<exists>t'. run_ops put del xs t = Some (fst (map_ops xs (mp t)), t') \<and> ok t'
    \<and> mp t' = snd (map_ops xs (mp t))"
  using assms
proof (induction xs arbitrary: t)
  case (Cons x xs)
  then have v: "valid (op_key x)" by simp
  obtain t1 where t1: "(case x of SetOp k v \<Rightarrow> put t k v | DelOp k \<Rightarrow> del t k) = Some (op_result x (mp t), t1)"
    "ok t1" "mp t1 = map_op x (mp t)"
    using Cons.prems(1) v by (rule step_law)
  with Cons.IH [OF t1(2)] Cons.prems show ?case by (auto split: prod.splits)
qed simp

lemma set_twice_abs:
  assumes "ok t" and "valid k" and "put t k v = Some (r, t1)" and "put t1 k w = Some (r', t2)"
  shows "mp t2 = (mp t)(k \<mapsto> w)"
  using assms set_law [of t k v] set_law [of t1 k w] by auto

end

locale str_map = str_table valid put del ok mp
  for valid :: "string \<Rightarrow> bool"
    and put :: "'t \<Rightarrow> string \<Rightarrow> 'v ptr \<Rightarrow> (bool \<times> 't) option"
    and del :: "'t \<Rightarrow> string \<Rightarrow> (bool \<times> 't) option"
    and ok :: "'t \<Rightarrow> bool"
    and mp :: "'t \<Rightarrow> string \<rightharpoonup> 'v ptr" +
  fixes get :: "'t \<Rightarrow> string \<Rightarrow> 'v ptr option"
  assumes get_law: "ok t \<Longrightarrow> get t k = Some (case mp t k of None \<Rightarrow> NULL | Some v \<Rightarrow> v)"
begin

text \<open>A lookup after any sequence of operations reads what the sequence leaves in the map.\<close>

lemma get_after_ops:
  assumes "ok t" and "\<forall>x\<in>set xs. valid (op_key x)"
  shows "\<exists>rs t'. run_ops put del xs t = Some (rs, t') \<and>
    get t' k = Some (case snd (map_ops xs (mp t)) k of None \<Rightarrow> NULL | Some v \<Rightarrow> v)"
  using run_ops_refines [OF assms] get_law by metis

lemma get_set:
  assumes "ok t" and "valid k" and "put t k v = Some (r, t')"
  shows "get t' k' = (if k' = k then Some v else get t k')"
  using assms set_law [of t k v] get_law by (auto simp: get_law)

lemma get_del:
  assumes "ok t" and "valid k" and "del t k = Some (r, t')"
  shows "get t' k' = (if k' = k then Some NULL else get t k')"
  using assms del_law [of t k] by (auto simp: get_law)

end

locale owning_table = str_table valid put del ok mp
  for valid :: "string \<Rightarrow> bool"
    and put :: "'t \<Rightarrow> string \<Rightarrow> 'v ptr \<Rightarrow> (bool \<times> 't) option"
    and del :: "'t \<Rightarrow> string \<Rightarrow> (bool \<times> 't) option"
    and ok :: "'t \<Rightarrow> bool"
    and mp :: "'t \<Rightarrow> string \<rightharpoonup> 'v ptr" +
  fixes owned :: "'t \<Rightarrow> 'v ptr multiset"
    and gone :: "'t \<Rightarrow> 'v ptr multiset"
  assumes set_owned: "ok t \<Longrightarrow> valid k \<Longrightarrow> put t k v = Some (True, t') \<Longrightarrow>
      owned t' + gone t' = add_mset v (owned t + gone t)"
    and del_owned: "ok t \<Longrightarrow> valid k \<Longrightarrow> del t k = Some (r, t') \<Longrightarrow> owned t' + gone t' = owned t + gone t"
begin

text \<open>Whatever a client does, each value it handed over is in the table or has been
  released, exactly as many times as it was handed over.\<close>

lemma run_ops_owned:
  assumes "ok t" and "\<forall>x\<in>set xs. valid (op_key x)" and "run_ops put del xs t = Some (rs, t')"
  shows "owned t' + gone t' = values_set xs + owned t + gone t"
  using assms
proof (induction xs arbitrary: t rs)
  case (Cons x xs)
  then have v: "valid (op_key x)" by simp
  obtain t1 where t1: "(case x of SetOp k v \<Rightarrow> put t k v | DelOp k \<Rightarrow> del t k) = Some (op_result x (mp t), t1)"
    "ok t1" "mp t1 = map_op x (mp t)"
    using Cons.prems(1) v by (rule step_law)
  then have "owned t' + gone t' = values_set xs + owned t1 + gone t1"
    using Cons.IH [OF t1(2)] Cons.prems by (auto simp: bind_eq_Some)
  moreover have "values_set xs + (owned t1 + gone t1) = values_set (x # xs) + (owned t + gone t)"
    using t1(1) v Cons.prems(1) set_owned del_owned by (cases x) auto
  ultimately show ?case by (simp add: add.assoc)
qed simp

end

subsection \<open>Patterns\<close>

text \<open>A pattern is a name that ends in an asterisk; it matches what starts with the rest of it.\<close>

definition is_pat :: "string \<Rightarrow> bool" where
  "is_pat p \<longleftrightarrow> p \<noteq> [] \<and> last p = CHR ''*''"

definition pat_matches :: "string \<Rightarrow> string \<Rightarrow> bool" where
  "pat_matches p s \<longleftrightarrow> is_pat p \<and> prefix (butlast p) s"

text \<open>The answers a table of patterns may give: an exact name counts first, then any pattern that matches.\<close>

definition pattern_answer :: "(string \<rightharpoonup> 'v ptr) \<Rightarrow> string \<Rightarrow> 'v ptr \<Rightarrow> bool" where
  "pattern_answer m k r \<longleftrightarrow>
     (if \<not> is_pat k \<and> m k \<noteq> None \<and> m k \<noteq> Some NULL then m k = Some r
      else if \<exists>p \<in> dom m. pat_matches p k then \<exists>p. pat_matches p k \<and> m p = Some r
      else r = NULL)"

locale pattern_table = str_table valid put del ok mp
  for valid :: "string \<Rightarrow> bool"
    and put :: "'t \<Rightarrow> string \<Rightarrow> 'v ptr \<Rightarrow> (bool \<times> 't) option"
    and del :: "'t \<Rightarrow> string \<Rightarrow> (bool \<times> 't) option"
    and ok :: "'t \<Rightarrow> bool"
    and mp :: "'t \<Rightarrow> string \<rightharpoonup> 'v ptr" +
  fixes find_key :: "'t \<Rightarrow> string \<Rightarrow> ('v ptr \<times> 't) option"
  assumes find_law: "ok t \<Longrightarrow> \<exists>r t'. find_key t k = Some (r, t') \<and> ok t' \<and> mp t' = mp t \<and> pattern_answer (mp t) k r"
begin

lemma find_after_ops:
  assumes "ok t" and "\<forall>x\<in>set xs. valid (op_key x)"
  shows "\<exists>t1 r t2. run_ops put del xs t = Some (fst (map_ops xs (mp t)), t1) \<and> find_key t1 k = Some (r, t2)
    \<and> ok t2 \<and> mp t2 = snd (map_ops xs (mp t)) \<and> pattern_answer (snd (map_ops xs (mp t))) k r"
  using run_ops_refines [OF assms] find_law by metis

lemma find_exact:
  assumes "ok t" and "valid k" and "\<not> is_pat k" and "put t k (Ptr x) = Some (b, t1)"
  shows "\<exists>t2. find_key t1 k = Some (Ptr x, t2) \<and> ok t2 \<and> mp t2 = (mp t)(k \<mapsto> Ptr x)"
proof -
  from assms set_law [of t k "Ptr x"] have "ok t1" "mp t1 = (mp t)(k \<mapsto> Ptr x)" by auto
  with find_law [of t1 k] assms(3) show ?thesis by (auto simp: pattern_answer_def)
qed

lemma find_gone:
  assumes "ok t" and "\<forall>p\<in>dom (mp t). p = k \<or> \<not> pat_matches p k" and "mp t k = None"
  shows "\<exists>t'. find_key t k = Some (NULL, t') \<and> ok t' \<and> mp t' = mp t"
proof -
  have "\<not> (\<exists>p \<in> dom (mp t). pat_matches p k)" using assms(2,3) by (metis domIff)
  with find_law [OF assms(1), of k] assms(3) show ?thesis by (auto simp: pattern_answer_def)
qed

end

text \<open>A cache in front of a lookup: it may forget anything at any time, but it never
  answers with something that was not stored for the key since it was last emptied.\<close>

locale lookup_cache =
  fixes ok :: "'c \<Rightarrow> bool"
    and contents :: "'c \<Rightarrow> (string \<times> 'v ptr) set"
    and get :: "'c \<Rightarrow> string \<Rightarrow> (bool \<times> 'v ptr) option"
    and put :: "'c \<Rightarrow> string \<Rightarrow> 'v ptr \<Rightarrow> (bool \<times> 'c) option"
    and invalidate :: "'c \<Rightarrow> (bool \<times> 'c) option"
    and resize :: "'c \<Rightarrow> nat \<Rightarrow> (bool \<times> 'c) option"
  assumes get_law: "ok c \<Longrightarrow> \<exists>hit v. get c k = Some (hit, v) \<and> (hit \<longrightarrow> (k, v) \<in> contents c)"
    and set_law: "ok c \<Longrightarrow> \<exists>c'. put c k v = Some (True, c') \<and> ok c' \<and> contents c' \<subseteq> insert (k, v) (contents c)"
    and invalidate_law: "ok c \<Longrightarrow> \<exists>c'. invalidate c = Some (True, c') \<and> ok c' \<and> contents c' = {}"
    and resize_law: "ok c \<Longrightarrow> \<exists>c'. resize c n = Some (True, c') \<and> ok c' \<and> contents c' \<subseteq> contents c"
begin

definition coherent :: "(string \<Rightarrow> 'v ptr) \<Rightarrow> 'c \<Rightarrow> bool" where
  "coherent f c \<longleftrightarrow> ok c \<and> (\<forall>(k, v) \<in> contents c. v = f k)"

text \<open>Reading through the cache and storing what the lookup \<open>f\<close> said keeps every answer equal
  to the one of \<open>f\<close>.\<close>

lemma coherent_hit: "coherent f c \<Longrightarrow> get c k = Some (True, v) \<Longrightarrow> v = f k"
  using get_law [of c k] by (auto simp: coherent_def)

lemma coherent_set: "coherent f c \<Longrightarrow> \<exists>c'. put c k (f k) = Some (True, c') \<and> coherent f c'"
  using set_law [of c k "f k"] by (fastforce simp: coherent_def)

lemma coherent_invalidate: "ok c \<Longrightarrow> \<exists>c'. invalidate c = Some (True, c') \<and> coherent g c'"
  using invalidate_law [of c] by (auto simp: coherent_def)

lemma coherent_resize: "coherent f c \<Longrightarrow> \<exists>c'. resize c n = Some (True, c') \<and> coherent f c'"
  using resize_law [of c n] by (fastforce simp: coherent_def)

end

end
