(* ===== verification/Hash_Correct.thy ===== *)
theory Hash_Correct
  imports Hash Table_Spec
begin

text \<open>
  Correctness of the hash table: the three probing loops follow one search (\<open>probe\<close>), the cells
  satisfy the invariant of linear probing without reuse, and under it \<open>hash_get\<close>, \<open>hash_set\<close> and
  \<open>hash_del\<close> are lookup, update and removal on a finite map. The invariant also holds the load bound
  that \<open>auto_resize_table\<close> restores, which is why a probe always ends at a cell never used.
\<close>

subsection \<open>One search for three loops\<close>

datatype probe_result = Found nat | Free nat | Exhausted

definition holds :: "'v entry \<Rightarrow> string \<Rightarrow> bool" where
  "holds e k \<longleftrightarrow> e_in_use e = IN_USE \<and> e_key e = Ptr k"

fun probe :: "'v entry list \<Rightarrow> string \<Rightarrow> nat \<Rightarrow> nat \<Rightarrow> probe_result" where
  "probe es k 0 pos = Exhausted"
| "probe es k (Suc n) pos =
     (if e_in_use (es ! pos) = NEVER then Free pos
      else if holds (es ! pos) k then Found pos
      else probe es k n ((pos + 1) mod length es))"

definition keys_ok :: "'v entry list \<Rightarrow> bool" where
  "keys_ok es \<longleftrightarrow> (\<forall>e\<in>set es. e_in_use e = IN_USE \<longrightarrow> e_key e \<noteq> NULL)"

definition table_ok :: "'v hash \<Rightarrow> 'v entry list \<Rightarrow> bool" where
  "table_ok h es \<longleftrightarrow> entries h = Ptr es \<and> length es = table_size h \<and> es \<noteq> [] \<and> keys_ok es"

lemma table_okD:
  assumes "table_ok h es"
  shows "entries h = Ptr es" "table_size h = length es" "es \<noteq> []" "keys_ok es"
  using assms by (simp_all add: table_ok_def)

lemma entry_at_ok [c_run]:
  "table_ok h es \<Longrightarrow> pos < length es \<Longrightarrow> entry_at h pos = Some (es ! pos)"
  by (simp add: entry_at_def table_ok_def c_run)

lemma put_entry_ok [c_run]:
  "entries h = Ptr es \<Longrightarrow> pos < length es \<Longrightarrow> put_entry h pos e = Some (h\<lparr>entries := Ptr (es[pos := e])\<rparr>)"
  by (simp add: put_entry_def c_run)

lemma entry_matches_ok [c_run]:
  assumes "keys_ok es" and "pos < length es"
  shows "entry_matches k (es ! pos) = Some (holds (es ! pos) k)"
proof (cases "e_in_use (es ! pos) = IN_USE")
  case True
  with assms have "e_key (es ! pos) \<noteq> NULL" by (auto simp: keys_ok_def)
  then show ?thesis using True by (cases "e_key (es ! pos)") (auto simp: entry_matches_def holds_def c_run)
qed (simp add: entry_matches_def holds_def)

lemma home_pos_ok [c_run]:
  "table_ok h es \<Longrightarrow> home_pos h k = Some (unat (murmurhash2 k) mod length es)"
  using table_okD [of h es] by (simp add: home_pos_def c_run)

lemma c_mod_table [c_run]: "table_ok h es \<Longrightarrow> c_mod a (table_size h) = Some (a mod length es)"
  using table_okD [of h es] by (simp add: c_run)

lemma hash_get_loop_probe:
  "table_ok h es \<Longrightarrow> pos < length es \<Longrightarrow>
    hash_get_loop n h k pos =
      Some (case probe es k n pos of Found p \<Rightarrow> e_value (es ! p) | _ \<Rightarrow> NULL)"
  using table_okD [of h es] by (induction n arbitrary: pos) (auto simp: c_run)

lemma hash_set_loop_probe:
  "table_ok h es \<Longrightarrow> pos < length es \<Longrightarrow>
    hash_set_loop n h k v pos =
      Some (case probe es k n pos of
        Found p \<Rightarrow> (True, (destroy h (e_value (es ! p)))\<lparr>entries := Ptr (es[p := (es ! p)\<lparr>e_value := v\<rparr>])\<rparr>)
      | Free p \<Rightarrow> (True, h\<lparr>entries := Ptr (es[p := \<lparr>e_key = Ptr k, e_value = v, e_in_use = IN_USE\<rparr>]),
                            nentries := nentries h + 1\<rparr>)
      | Exhausted \<Rightarrow> (False, h))"
  using table_okD [of h es] by (induction n arbitrary: pos) (auto simp: c_run destroy_def)

lemma hash_del_loop_probe:
  "table_ok h es \<Longrightarrow> pos < length es \<Longrightarrow>
    hash_del_loop n h k pos = Some (case probe es k n pos of Found p \<Rightarrow> Some p | _ \<Rightarrow> None)"
  using table_okD [of h es] by (induction n arbitrary: pos) (auto simp: c_run)

subsection \<open>What the search finds\<close>

definition cell :: "'v entry list \<Rightarrow> nat \<Rightarrow> nat \<Rightarrow> 'v entry" where
  "cell es pos d = es ! ((pos + d) mod length es)"

lemma cell_Suc: "cell es ((pos + 1) mod length es) d = cell es pos (Suc d)"
  by (simp add: cell_def mod_add_left_eq)

lemma probe_cases:
  assumes "0 < length es" and "pos < length es"
  shows "case probe es k n pos of
      Found p \<Rightarrow> p < length es \<and> holds (es ! p) k
    | Free p \<Rightarrow> (\<exists>d<n. p = (pos + d) mod length es \<and> e_in_use (es ! p) = NEVER
        \<and> (\<forall>j<d. e_in_use (cell es pos j) \<noteq> NEVER \<and> \<not> holds (cell es pos j) k))
    | Exhausted \<Rightarrow> (\<forall>d<n. e_in_use (cell es pos d) \<noteq> NEVER \<and> \<not> holds (cell es pos d) k)"
  using assms
proof (induction n arbitrary: pos)
  case (Suc n)
  have 0: "cell es pos 0 = es ! pos" using Suc.prems by (simp add: cell_def)
  have pos': "(pos + 1) mod length es < length es" using Suc.prems by simp
  note IH = Suc.IH [OF Suc.prems(1) pos', unfolded cell_Suc]
  show ?case
  proof (cases "e_in_use (es ! pos) = NEVER \<or> holds (es ! pos) k")
    case True
    then show ?thesis using Suc.prems by (auto simp: holds_def intro!: exI [of _ 0])
  next
    case False
    then have step: "probe es k (Suc n) pos = probe es k n ((pos + 1) mod length es)" by auto
    show ?thesis
    proof (cases "probe es k n ((pos + 1) mod length es)")
      case (Found p)
      then show ?thesis using IH step by simp
    next
      case (Free p)
      with IH obtain d where "d < n" "p = (pos + Suc d) mod length es" "e_in_use (es ! p) = NEVER"
        "\<forall>j<d. e_in_use (cell es pos (Suc j)) \<noteq> NEVER \<and> \<not> holds (cell es pos (Suc j)) k"
        by (auto simp: mod_add_left_eq)
      moreover from this(4) 0 False
      have "\<forall>j<Suc d. e_in_use (cell es pos j) \<noteq> NEVER \<and> \<not> holds (cell es pos j) k"
        by (simp add: All_less_Suc2)
      ultimately show ?thesis
        using Free step by (auto intro!: exI [of _ "Suc d"])
    next
      case Exhausted
      then show ?thesis using IH step False 0 by (simp add: All_less_Suc2)
    qed
  qed
qed simp

lemma cell_covers: "i < length es \<Longrightarrow> pos < length es \<Longrightarrow> \<exists>d<length es. (pos + d) mod length es = i"
  by (rule exI [of _ "(i + (length es - pos)) mod length es"], cases "es = []") (auto simp: mod_simps)

subsection \<open>The invariant of linear probing\<close>

text \<open>From the first cell of a key on, there is no never-used cell before the cell that holds it.\<close>

definition home :: "'v entry list \<Rightarrow> string \<Rightarrow> nat" where
  "home es k = unat (murmurhash2 k) mod length es"

definition reach :: "'v entry list \<Rightarrow> string \<Rightarrow> nat \<Rightarrow> bool" where
  "reach es k i \<longleftrightarrow> (\<exists>d<length es. i = (home es k + d) mod length es
     \<and> (\<forall>j<d. e_in_use (cell es (home es k) j) \<noteq> NEVER))"

definition unique_keys :: "'v entry list \<Rightarrow> bool" where
  "unique_keys es \<longleftrightarrow> (\<forall>i<length es. \<forall>j<length es. \<forall>k. holds (es ! i) k \<longrightarrow> holds (es ! j) k \<longrightarrow> i = j)"

definition entries_wf :: "'v entry list \<Rightarrow> bool" where
  "entries_wf es \<longleftrightarrow> keys_ok es \<and> unique_keys es \<and> (\<forall>i<length es. \<forall>k. holds (es ! i) k \<longrightarrow> reach es k i)"

definition hash_map :: "'v entry list \<Rightarrow> string \<rightharpoonup> 'v ptr" where
  "hash_map es k = map_option e_value (find (\<lambda>e. holds e k) es)"

lemma unique_keysD: "unique_keys es \<Longrightarrow> i < length es \<Longrightarrow> j < length es \<Longrightarrow> holds (es ! i) k \<Longrightarrow> holds (es ! j) k \<Longrightarrow> i = j"
  by (auto simp: unique_keys_def)

lemma hash_map_None: "hash_map es k = None \<longleftrightarrow> (\<forall>i<length es. \<not> holds (es ! i) k)"
  by (auto simp: hash_map_def find_None_iff in_set_conv_nth)

lemma hash_map_at:
  assumes "unique_keys es" and "i < length es" and "holds (es ! i) k"
  shows "hash_map es k = Some (e_value (es ! i))"
proof -
  have "hash_map es k \<noteq> None" using assms by (auto simp: hash_map_None)
  then obtain e where e: "find (\<lambda>e. holds e k) es = Some e" by (auto simp: hash_map_def)
  then obtain j where "j < length es" "holds (es ! j) k" "e = es ! j" by (auto simp: find_Some_iff)
  then show ?thesis using e unique_keysD [OF assms(1)] assms(2,3) by (auto simp: hash_map_def)
qed

lemma home_less: "es \<noteq> [] \<Longrightarrow> home es k < length es"
  by (simp add: home_def)

lemma probe_held:
  assumes "entries_wf es" and "es \<noteq> []" and "i < length es" and "holds (es ! i) k"
  shows "probe es k (length es) (home es k) = Found i"
proof -
  from assms obtain d where d: "d < length es" "i = (home es k + d) mod length es"
    "\<forall>j<d. e_in_use (cell es (home es k) j) \<noteq> NEVER"
    by (auto simp: entries_wf_def reach_def)
  have held: "holds (cell es (home es k) d) k" using d(2) assms(4) by (simp add: cell_def)
  note pc = probe_cases [of es "home es k" k "length es"]
  show ?thesis
  proof (cases "probe es k (length es) (home es k)")
    case (Found p)
    then show ?thesis
      using pc assms home_less unique_keysD [of es p i k] by (auto simp: entries_wf_def)
  next
    case (Free p)
    then obtain d' where d': "p = (home es k + d') mod length es" "e_in_use (es ! p) = NEVER"
      "\<forall>j<d'. e_in_use (cell es (home es k) j) \<noteq> NEVER \<and> \<not> holds (cell es (home es k) j) k"
      using pc assms(2) home_less by auto
    have "\<not> d' < d" using d(3) d'(1,2) by (auto simp: cell_def)
    moreover have "\<not> d < d'" using d'(3) held by blast
    ultimately have "d' = d" by simp
    with d' held show ?thesis by (simp add: cell_def holds_def)
  next
    case Exhausted
    then show ?thesis using pc assms(2) home_less d(1) held by auto
  qed
qed

lemma probe_absent:
  assumes "es \<noteq> []" and "hash_map es k = None" and "i < length es" and "e_in_use (es ! i) = NEVER"
  obtains p d where "probe es k (length es) (home es k) = Free p" and "p < length es"
    and "e_in_use (es ! p) = NEVER" and "d < length es" and "p = (home es k + d) mod length es"
    and "\<forall>j<d. e_in_use (cell es (home es k) j) \<noteq> NEVER"
proof -
  note pc = probe_cases [of es "home es k" k "length es"]
  from cell_covers [OF assms(3) home_less [OF assms(1)]] obtain d
    where d: "d < length es" "(home es k + d) mod length es = i" by blast
  show ?thesis
  proof (cases "probe es k (length es) (home es k)")
    case (Found p)
    then show ?thesis using pc assms home_less by (auto simp: hash_map_None)
  next
    case (Free p)
    then obtain d' where d': "d' < length es" "p = (home es k + d') mod length es" "e_in_use (es ! p) = NEVER"
      "\<forall>j<d'. e_in_use (cell es (home es k) j) \<noteq> NEVER"
      using pc assms(1) home_less [OF assms(1)] by auto
    show ?thesis
      by (rule that [OF Free _ d'(3,1,2,4)]) (use d'(2) assms(1) in simp)
  next
    case Exhausted
    then show ?thesis using pc assms(1,4) home_less d by (auto simp: cell_def)
  qed
qed

subsection \<open>Writing a cell\<close>

lemma reach_mono:
  assumes "length es' = length es"
    and "\<And>i. i < length es \<Longrightarrow> e_in_use (es ! i) \<noteq> NEVER \<Longrightarrow> e_in_use (es' ! i) \<noteq> NEVER"
    and "reach es k i"
  shows "reach es' k i"
proof -
  from assms(3) obtain d where d: "d < length es" "i = (home es k + d) mod length es"
    "\<forall>j<d. e_in_use (cell es (home es k) j) \<noteq> NEVER"
    by (auto simp: reach_def)
  from d(1) have "0 < length es" by (cases es) auto
  then have "\<forall>j<d. e_in_use (cell es' (home es k) j) \<noteq> NEVER"
    using assms(1,2) d(3) by (simp add: cell_def)
  with d assms(1) show ?thesis by (auto simp: reach_def home_def)
qed

text \<open>A cell takes a key that no other cell holds.\<close>

lemma entries_wf_write:
  assumes wf: "entries_wf es" and p: "p < length es" and e: "holds e k"
    and other: "\<And>i. i < length es \<Longrightarrow> holds (es ! i) k \<Longrightarrow> i = p"
    and mine: "\<And>k'. holds (es ! p) k' \<Longrightarrow> k' = k" and r: "reach es k p"
  shows "entries_wf (es[p := e])" and "hash_map (es[p := e]) = (hash_map es)(k \<mapsto> e_value e)"
proof -
  have k: "holds e k' \<longleftrightarrow> k' = k" for k' using e by (auto simp: holds_def)
  have u: "unique_keys (es[p := e])"
    using wf other p by (auto simp: entries_wf_def unique_keys_def nth_list_update k)
  have "keys_ok (es[p := e])"
    using wf e set_update_subset_insert [of es p e] by (auto simp: entries_wf_def keys_ok_def holds_def)
  moreover have "reach (es[p := e]) k' i" if "i < length es" "holds (es[p := e] ! i) k'" for i k'
  proof (rule reach_mono [of _ es])
    show "reach es k' i"
      using that wf r p by (auto simp: entries_wf_def nth_list_update k split: if_splits)
  qed (use e p in \<open>auto simp: nth_list_update holds_def\<close>)
  ultimately show wf': "entries_wf (es[p := e])" using u by (simp add: entries_wf_def)
  show "hash_map (es[p := e]) = (hash_map es)(k \<mapsto> e_value e)"
  proof
    fix k'
    show "hash_map (es[p := e]) k' = ((hash_map es)(k \<mapsto> e_value e)) k'"
    proof (cases "k' = k")
      case True
      then show ?thesis using hash_map_at [OF u, of p k] p e by simp
    next
      case False
      show ?thesis
      proof (cases "hash_map es k'")
        case None
        then have "hash_map (es[p := e]) k' = None"
          using False k p by (simp add: hash_map_None nth_list_update)
        with None False show ?thesis by simp
      next
        case (Some v)
        then obtain i where i: "i < length es" "holds (es ! i) k'"
          by (metis hash_map_None option.distinct(1))
        with mine False have "i \<noteq> p" by auto
        then show ?thesis
          using hash_map_at [OF u, of i k'] hash_map_at [of es i k'] wf i False
          by (simp add: entries_wf_def)
      qed
    qed
  qed
qed

text \<open>A cell is marked as removed.\<close>

lemma entries_wf_remove:
  assumes wf: "entries_wf es" and p: "p < length es" and k: "holds (es ! p) k" and e: "e_in_use e = REMOVED"
  shows "entries_wf (es[p := e])" and "hash_map (es[p := e]) = (hash_map es)(k := None)"
proof -
  have ne: "\<not> holds e k'" for k' using e by (simp add: holds_def)
  have u: "unique_keys (es[p := e])"
    using wf p by (auto simp: entries_wf_def unique_keys_def nth_list_update ne)
  have "keys_ok (es[p := e])"
    using wf e set_update_subset_insert [of es p e] by (auto simp: entries_wf_def keys_ok_def)
  moreover have "reach (es[p := e]) k' i" if "i < length es" "holds (es[p := e] ! i) k'" for i k'
  proof (rule reach_mono [of _ es])
    show "reach es k' i"
      using that wf p by (auto simp: entries_wf_def nth_list_update ne split: if_splits)
  qed (use e p in \<open>auto simp: nth_list_update\<close>)
  ultimately show "entries_wf (es[p := e])" using u by (simp add: entries_wf_def)
  show "hash_map (es[p := e]) = (hash_map es)(k := None)"
  proof
    fix k'
    show "hash_map (es[p := e]) k' = ((hash_map es)(k := None)) k'"
    proof (cases "hash_map es k' = None \<or> k' = k")
      case True
      have "\<not> holds (es[p := e] ! i) k'" if "i < length es" for i
      proof (cases "i = p")
        case False
        then have "k' = k \<Longrightarrow> \<not> holds (es ! i) k'"
          using unique_keysD [of es i p k] wf that p k by (auto simp: entries_wf_def)
        with True that False show ?thesis by (auto simp: hash_map_None)
      qed (use ne p in simp)
      then have "hash_map (es[p := e]) k' = None" by (simp add: hash_map_None)
      with True show ?thesis by auto
    next
      case False
      then obtain i where i: "i < length es" "holds (es ! i) k'" "k' \<noteq> k"
        by (auto simp: hash_map_None)
      with k have "i \<noteq> p" by (auto simp: holds_def)
      then show ?thesis
        using hash_map_at [OF u, of i k'] hash_map_at [of es i k'] wf i
        by (simp add: entries_wf_def)
    qed
  qed
qed

subsection \<open>The invariant of the table and the map it stands for\<close>

definition cnt :: "used_as \<Rightarrow> 'v entry list \<Rightarrow> nat" where
  "cnt u es = length (filter (\<lambda>e. e_in_use e = u) es)"

text \<open>\<open>hash_wf\<close> is what every insertion keeps; \<open>hash_inv\<close> adds the load bound that holds between
  the calls of the library.\<close>

definition hash_wf :: "'v hash \<Rightarrow> bool" where
  "hash_wf h \<longleftrightarrow> (case entries h of NULL \<Rightarrow> False
     | Ptr es \<Rightarrow> length es = table_size h \<and> HASH_MIN_SIZE \<le> table_size h \<and> entries_wf es
         \<and> nentries h = cnt IN_USE es \<and> nremoved h = cnt REMOVED es)"

definition hash_inv :: "'v hash \<Rightarrow> bool" where
  "hash_inv h \<longleftrightarrow> hash_wf h \<and> d_0_3 \<le> usable_ratio h"

definition hash_abs :: "'v hash \<Rightarrow> string \<rightharpoonup> 'v ptr" where
  "hash_abs h = (case entries h of NULL \<Rightarrow> Map.empty | Ptr es \<Rightarrow> hash_map es)"

definition hash_values :: "'v hash \<Rightarrow> 'v ptr multiset" where
  "hash_values h = (case entries h of NULL \<Rightarrow> {#}
     | Ptr es \<Rightarrow> image_mset e_value (mset (filter (\<lambda>e. e_in_use e = IN_USE) es)))"

lemma hash_wfE:
  assumes "hash_wf h"
  obtains es where "entries h = Ptr es" and "table_size h = length es" and "es \<noteq> []" and "entries_wf es"
    and "nentries h = cnt IN_USE es" and "nremoved h = cnt REMOVED es" and "HASH_MIN_SIZE \<le> length es"
    and "table_ok h es" and "hash_abs h = hash_map es"
proof -
  from assms obtain es where es: "entries h = Ptr es" "length es = table_size h" "HASH_MIN_SIZE \<le> table_size h"
    "entries_wf es" "nentries h = cnt IN_USE es" "nremoved h = cnt REMOVED es"
    by (auto simp: hash_wf_def split: ptr.splits)
  from es(2,3) have "es \<noteq> []" by (auto simp: HASH_MIN_SIZE_def)
  with es that show thesis by (simp add: table_ok_def entries_wf_def hash_abs_def)
qed

lemma cnt_total: "cnt NEVER es + cnt IN_USE es + cnt REMOVED es = length es"
  unfolding cnt_def
proof (induction es)
  case (Cons e es)
  then show ?case by (cases "e_in_use e") auto
qed simp

lemma cnt_update:
  "p < length es \<Longrightarrow> cnt u (es[p := e]) + (if e_in_use (es ! p) = u then 1 else 0)
     = cnt u es + (if e_in_use e = u then 1 else 0)"
  unfolding cnt_def by (rule length_filter_update)

lemma cnt_pos: "p < length es \<Longrightarrow> e_in_use (es ! p) = u \<Longrightarrow> 0 < cnt u es"
  unfolding cnt_def by (rule length_filter_pos)

lemma cnt_pos_ex: "0 < cnt u es \<Longrightarrow> \<exists>i<length es. e_in_use (es ! i) = u"
  unfolding cnt_def by (rule length_filter_pos_ex)

lemma hash_values_update:
  assumes "entries h = Ptr es" and "p < length es" and "entries h' = Ptr (es[p := e])"
  shows "hash_values h' + (if e_in_use (es ! p) = IN_USE then {#e_value (es ! p)#} else {#})
    = hash_values h + (if e_in_use e = IN_USE then {#e_value e#} else {#})"
  using arg_cong [OF mset_filter_update [OF assms(2), of "\<lambda>e. e_in_use e = IN_USE" e], of "image_mset e_value"]
    assms by (auto simp: hash_values_def split: if_splits)

text \<open>What storing \<open>v\<close> under \<open>k\<close> does to the contents; the value that was there is released.\<close>

definition set_effect :: "'v hash \<Rightarrow> string \<Rightarrow> 'v ptr \<Rightarrow> 'v hash \<Rightarrow> bool" where
  "set_effect h k v h' \<longleftrightarrow> hash_abs h' = (hash_abs h)(k \<mapsto> v) \<and> destructor h' = destructor h
     \<and> released h' = released h @ (case hash_abs h k of None \<Rightarrow> [] | Some old \<Rightarrow> destructor h old)
     \<and> hash_values h' + (case hash_abs h k of None \<Rightarrow> {#} | Some old \<Rightarrow> {#old#}) = add_mset v (hash_values h)"

lemma hash_get_wf:
  assumes "hash_wf h" and "nentries h + nremoved h < table_size h"
  shows "hash_get h k = Some (case hash_abs h k of None \<Rightarrow> NULL | Some v \<Rightarrow> v)"
proof -
  from assms(1) obtain es where es: "entries h = Ptr es" "table_size h = length es" "es \<noteq> []" "entries_wf es"
    "nentries h = cnt IN_USE es" "nremoved h = cnt REMOVED es" "table_ok h es" "hash_abs h = hash_map es"
    by (elim hash_wfE)
  have run: "hash_get h k = hash_get_loop (length es) h k (home es k)"
    using es by (simp add: hash_get_def c_run home_def)
  note loop = hash_get_loop_probe [OF es(7) home_less [OF es(3)]]
  show ?thesis
  proof (cases "hash_map es k")
    case None
    have "0 < cnt NEVER es" using assms(2) es cnt_total [of es] by simp
    then obtain i where "i < length es" "e_in_use (es ! i) = NEVER" using cnt_pos_ex by blast
    from probe_absent [OF es(3) None this] obtain p where "probe es k (length es) (home es k) = Free p" by blast
    then show ?thesis using None es by (simp add: run loop)
  next
    case (Some v)
    then obtain i where i: "i < length es" "holds (es ! i) k"
      by (metis hash_map_None option.distinct(1))
    have "v = e_value (es ! i)" using hash_map_at [OF _ i] Some es(4) by (simp add: entries_wf_def)
    then show ?thesis
      using probe_held [OF es(4,3) i] Some es by (simp add: run loop)
  qed
qed

lemma hash_set_internal_wf:
  assumes "hash_wf h" and "nentries h + nremoved h < table_size h"
  obtains h' where "hash_set_internal h (Ptr k) v = Some (True, h')" and "hash_wf h'" and "set_effect h k v h'"
    and "table_size h' = table_size h" and "nremoved h' = nremoved h"
    and "nentries h' = nentries h + (if hash_abs h k = None then 1 else 0)"
proof -
  from assms(1) obtain es where es: "entries h = Ptr es" "table_size h = length es" "es \<noteq> []" "entries_wf es"
    "nentries h = cnt IN_USE es" "nremoved h = cnt REMOVED es" "HASH_MIN_SIZE \<le> length es"
    "table_ok h es" "hash_abs h = hash_map es"
    by (elim hash_wfE)
  have run: "hash_set_internal h (Ptr k) v = hash_set_loop (length es) h k v (home es k)"
    using es by (simp add: hash_set_internal_def c_run home_def)
  note loop = hash_set_loop_probe [OF es(8) home_less [OF es(3)]]
  show ?thesis
  proof (cases "hash_map es k")
    case None
    have "0 < cnt NEVER es" using assms(2) es cnt_total [of es] by simp
    then obtain i where "i < length es" "e_in_use (es ! i) = NEVER" using cnt_pos_ex by blast
    from probe_absent [OF es(3) None this] obtain p d where
      p: "probe es k (length es) (home es k) = Free p" "p < length es" "e_in_use (es ! p) = NEVER"
      "d < length es" "p = (home es k + d) mod length es" "\<forall>j<d. e_in_use (cell es (home es k) j) \<noteq> NEVER"
      by blast
    define e where "e = \<lparr>e_key = Ptr k, e_value = v, e_in_use = IN_USE\<rparr>"
    define h' where "h' = h\<lparr>entries := Ptr (es[p := e]), nentries := nentries h + 1\<rparr>"
    have e: "holds e k" "e_value e = v" "e_in_use e = IN_USE" by (simp_all add: e_def holds_def)
    have "reach es k p" using p(4-6) by (auto simp: reach_def)
    moreover have "i = p" if "i < length es" "holds (es ! i) k" for i
      using that None by (simp add: hash_map_None)
    moreover have "k' = k" if "holds (es ! p) k'" for k' using that p(3) by (simp add: holds_def)
    ultimately have "entries_wf (es[p := e])" "hash_map (es[p := e]) = (hash_map es)(k \<mapsto> v)"
      using entries_wf_write [OF es(4) p(2) e(1)] unfolding e(2) by blast+
    moreover have "hash_values h' = add_mset v (hash_values h)"
      using hash_values_update [OF es(1) p(2), of h' e] p e by (simp add: h'_def)
    ultimately show ?thesis
      using that [of h'] run loop p es None e cnt_update [OF p(2), of IN_USE e] cnt_update [OF p(2), of REMOVED e]
      by (simp add: h'_def e_def [symmetric] hash_wf_def set_effect_def hash_abs_def)
  next
    case (Some old)
    then obtain p where p: "p < length es" "holds (es ! p) k"
      by (metis hash_map_None option.distinct(1))
    have old: "old = e_value (es ! p)" using hash_map_at [OF _ p] Some es(4) by (simp add: entries_wf_def)
    define e where "e = (es ! p)\<lparr>e_value := v\<rparr>"
    define h' where "h' = (destroy h old)\<lparr>entries := Ptr (es[p := e])\<rparr>"
    have e: "holds e k" "e_value e = v" "e_in_use e = IN_USE" "e_in_use (es ! p) = IN_USE"
      using p by (simp_all add: e_def holds_def)
    have "reach es k p" "unique_keys es" using p es(4) by (simp_all add: entries_wf_def)
    moreover from this(2) p have "i = p" if "i < length es" "holds (es ! i) k" for i
      using that unique_keysD [of es i p k] by blast
    moreover from p(2) have "k' = k" if "holds (es ! p) k'" for k' using that by (simp add: holds_def)
    ultimately have "entries_wf (es[p := e])" "hash_map (es[p := e]) = (hash_map es)(k \<mapsto> v)"
      using entries_wf_write [OF es(4) p(1) e(1)] unfolding e(2) by blast+
    moreover have "hash_values h' + {#old#} = add_mset v (hash_values h)"
      using hash_values_update [OF es(1) p(1), of h' e] p e old by (simp add: h'_def)
    ultimately show ?thesis
      using that [of h'] run loop probe_held [OF es(4,3) p] es Some e old
        cnt_update [OF p(1), of IN_USE e] cnt_update [OF p(1), of REMOVED e]
      by (simp add: h'_def e_def [symmetric] hash_wf_def set_effect_def hash_abs_def destroy_def)
  qed
qed

subsection \<open>Resizing keeps the contents\<close>

lemma holds_zero [simp]: "\<not> holds zero_entry k"
  by (simp add: holds_def zero_entry_def)

lemma zero_in_use [simp]: "e_in_use zero_entry = NEVER"
  by (simp add: zero_entry_def)

lemma entries_wf_zero: "entries_wf (replicate n zero_entry)"
  by (simp add: entries_wf_def keys_ok_def unique_keys_def)

lemma hash_map_zero: "hash_map (replicate n zero_entry) = Map.empty"
  by (rule ext) (simp add: hash_map_None)

lemma hash_map_Cons: "hash_map (e # es) k = (if holds e k then Some (e_value e) else hash_map es k)"
  by (simp add: hash_map_def)

lemma unique_keys_Cons: "unique_keys (e # es) \<longleftrightarrow> unique_keys es \<and> (\<forall>k. holds e k \<longrightarrow> hash_map es k = None)"
proof
  assume u: "unique_keys (e # es)"
  have "unique_keys es"
    using unique_keysD [OF u, of "Suc i" "Suc j" for i j] by (auto simp: unique_keys_def)
  moreover have "hash_map es k = None" if "holds e k" for k
    using unique_keysD [OF u, of 0 "Suc j" k for j] that by (auto simp: hash_map_None)
  ultimately show "unique_keys es \<and> (\<forall>k. holds e k \<longrightarrow> hash_map es k = None)" by blast
next
  assume "unique_keys es \<and> (\<forall>k. holds e k \<longrightarrow> hash_map es k = None)"
  then show "unique_keys (e # es)"
    by (auto simp: unique_keys_def hash_map_None nth_Cons split: nat.splits)
qed

abbreviation used_values :: "'v entry list \<Rightarrow> 'v ptr multiset" where
  "used_values es \<equiv> image_mset e_value (mset (filter (\<lambda>e. e_in_use e = IN_USE) es))"

lemma map_add_upd_left: "m2 k = None \<Longrightarrow> m(k \<mapsto> v) ++ m2 = m ++ m2(k \<mapsto> v)"
  by (rule ext) (simp add: map_add_def split: option.splits)

lemma rehash_loop_wf:
  assumes "hash_wf h" and "nremoved h = 0" and "nentries h + cnt IN_USE old < table_size h"
    and "unique_keys old" and "keys_ok old" and "\<forall>k. hash_map old k \<noteq> None \<longrightarrow> hash_abs h k = None"
  shows "\<exists>h'. rehash_loop old h = Some h' \<and> hash_wf h' \<and> nremoved h' = 0 \<and> table_size h' = table_size h
    \<and> nentries h' = nentries h + cnt IN_USE old \<and> hash_abs h' = hash_abs h ++ hash_map old
    \<and> destructor h' = destructor h \<and> released h' = released h
    \<and> hash_values h' = hash_values h + used_values old"
  using assms
proof (induction old arbitrary: h)
  case Nil
  then show ?case by (simp add: cnt_def hash_map_def map_add_def)
next
  case (Cons e old)
  have u: "unique_keys old" and fresh: "holds e k \<Longrightarrow> hash_map old k = None" for k
    using Cons.prems(4) by (auto simp: unique_keys_Cons)
  show ?case
  proof (cases "e_in_use e = IN_USE")
    case False
    then have "\<not> holds e k" for k by (simp add: holds_def)
    then have "hash_map (e # old) = hash_map old" by (auto simp: hash_map_Cons)
    then show ?thesis using False Cons.IH [of h] Cons.prems u by (simp add: cnt_def keys_ok_def)
  next
    case True
    with Cons.prems(5) obtain k where k: "e_key e = Ptr k"
      by (cases "e_key e") (auto simp: keys_ok_def)
    with True have he: "holds e k" and he': "holds e k' \<longleftrightarrow> k' = k" for k' by (auto simp: holds_def)
    have old: "hash_map (e # old) = (hash_map old)(k \<mapsto> e_value e)" by (auto simp: hash_map_Cons he')
    with Cons.prems(6) have absent: "hash_abs h k = None" by simp
    have room: "nentries h + nremoved h < table_size h" using Cons.prems by simp
    obtain h1 where h1: "hash_set_internal h (Ptr k) (e_value e) = Some (True, h1)" "hash_wf h1"
      "set_effect h k (e_value e) h1" "table_size h1 = table_size h" "nremoved h1 = nremoved h"
      "nentries h1 = nentries h + (if hash_abs h k = None then 1 else 0)"
      by (rule hash_set_internal_wf [OF Cons.prems(1) room])
    have c: "cnt IN_USE (e # old) = Suc (cnt IN_USE old)" using True by (simp add: cnt_def)
    have "\<exists>h'. rehash_loop old h1 = Some h' \<and> hash_wf h' \<and> nremoved h' = 0 \<and> table_size h' = table_size h1
      \<and> nentries h' = nentries h1 + cnt IN_USE old \<and> hash_abs h' = hash_abs h1 ++ hash_map old
      \<and> destructor h' = destructor h1 \<and> released h' = released h1
      \<and> hash_values h' = hash_values h1 + used_values old"
    proof (rule Cons.IH)
      show "\<forall>k. hash_map old k \<noteq> None \<longrightarrow> hash_abs h1 k = None"
        using Cons.prems(6) old h1(3) fresh [OF he] by (auto simp: set_effect_def)
    qed (use Cons.prems h1 absent c u in \<open>auto simp: keys_ok_def\<close>)
    moreover have "hash_abs h1 ++ hash_map old = hash_abs h ++ hash_map (e # old)"
      unfolding old using h1(3) by (simp only: set_effect_def map_add_upd_left [of "hash_map old" k, OF fresh [OF he]])
    moreover have "hash_values h1 = add_mset (e_value e) (hash_values h)" "released h1 = released h"
      "destructor h1 = destructor h"
      using h1(3) absent by (simp_all add: set_effect_def)
    ultimately show ?thesis
      using True k h1(1,4,5,6) absent c by auto
  qed
qed

lemma hash_resize_table_wf:
  assumes "hash_wf h" and "mem A_hash_entries" and "2 * nentries h \<le> n"
  obtains h' where "hash_resize_table mem h n = Some (True, h')" and "hash_wf h'" and "nremoved h' = 0"
    and "nentries h' = nentries h" and "2 * nentries h' \<le> table_size h'" and "hash_abs h' = hash_abs h"
    and "destructor h' = destructor h" and "released h' = released h" and "hash_values h' = hash_values h"
    and "table_size h' = max n HASH_MIN_SIZE"
proof -
  from assms(1) obtain es where es: "entries h = Ptr es" "table_size h = length es" "es \<noteq> []" "entries_wf es"
    "nentries h = cnt IN_USE es" "hash_abs h = hash_map es"
    by (elim hash_wfE)
  define size where "size = max n HASH_MIN_SIZE"
  define h0 where "h0 = h\<lparr>entries := Ptr (replicate size zero_entry), table_size := size, nentries := 0, nremoved := 0\<rparr>"
  have size: "HASH_MIN_SIZE \<le> size" "2 * nentries h \<le> size" "nentries h < size"
    using assms(3) by (auto simp: size_def HASH_MIN_SIZE_def)
  have wf0: "hash_wf h0"
    using size by (simp add: h0_def hash_wf_def entries_wf_zero cnt_def)
  have abs0: "hash_abs h0 = Map.empty" "hash_values h0 = {#}"
    by (simp_all add: h0_def hash_abs_def hash_map_zero hash_values_def)
  have "\<exists>h'. rehash_loop es h0 = Some h' \<and> hash_wf h' \<and> nremoved h' = 0 \<and> table_size h' = table_size h0
      \<and> nentries h' = nentries h0 + cnt IN_USE es \<and> hash_abs h' = hash_abs h0 ++ hash_map es
      \<and> destructor h' = destructor h0 \<and> released h' = released h0
      \<and> hash_values h' = hash_values h0 + used_values es"
    by (rule rehash_loop_wf [OF wf0]) (use size es abs0 in \<open>auto simp: h0_def entries_wf_def\<close>)
  then obtain h' where h': "rehash_loop es h0 = Some h'" "hash_wf h'" "nremoved h' = 0" "table_size h' = size"
      "nentries h' = cnt IN_USE es" "hash_abs h' = hash_map es"
      "destructor h' = destructor h" "released h' = released h" "hash_values h' = used_values es"
    using abs0 by (auto simp: h0_def)
  have "(if n < HASH_MIN_SIZE then HASH_MIN_SIZE else n) = size" by (simp add: size_def)
  then have run: "hash_resize_table mem h n = Some (True, h')"
    using assms(2) h'(1) es(1,2) by (simp add: hash_resize_table_def c_run Let_def h0_def)
  show ?thesis
    by (rule that [OF run h'(2,3)]) (use h' size es in \<open>auto simp: hash_values_def size_def\<close>)
qed

subsection \<open>The operations\<close>

lemma usable_ratio_wf:
  assumes "hash_wf h"
  shows "usable_ratio h = f32_ratio (table_size h - nentries h - nremoved h) (table_size h)"
    and "nentries h + nremoved h \<le> table_size h"
proof -
  from assms obtain es where es: "entries h = Ptr es" "table_size h = length es"
    "nentries h = cnt IN_USE es" "nremoved h = cnt REMOVED es"
    by (elim hash_wfE)
  then show le: "nentries h + nremoved h \<le> table_size h" using cnt_total [of es] by simp
  then show "usable_ratio h = f32_ratio (table_size h - nentries h - nremoved h) (table_size h)"
    by (simp add: usable_ratio_def c_run)
qed

lemma hash_inv_room:
  assumes "hash_inv h"
  shows "nentries h + nremoved h < table_size h"
proof (rule ccontr)
  assume "\<not> nentries h + nremoved h < table_size h"
  then have "usable_ratio h < d_0_3"
    using usable_ratio_wf [of h] assms by (simp add: hash_inv_def f32_ratio_0_lt)
  with assms show False by (simp add: hash_inv_def)
qed

lemma auto_resize_wf:
  assumes "hash_wf h" and "mem A_hash_entries"
  obtains h' where "auto_resize_table mem h = Some (True, h')" and "hash_inv h'" and "hash_abs h' = hash_abs h"
    and "destructor h' = destructor h" and "released h' = released h" and "hash_values h' = hash_values h"
    and "nentries h' = nentries h"
proof (cases "usable_ratio h < d_0_3 \<or> (HASH_MIN_SIZE < table_size h \<and> entries_ratio h < d_0_3)")
  case True
  obtain h' where h': "hash_resize_table mem h (nentries h * 2) = Some (True, h')" "hash_wf h'" "nremoved h' = 0"
    "nentries h' = nentries h" "2 * nentries h' \<le> table_size h'" "hash_abs h' = hash_abs h"
    "destructor h' = destructor h" "released h' = released h" "hash_values h' = hash_values h"
    "table_size h' = max (nentries h * 2) HASH_MIN_SIZE"
    by (rule hash_resize_table_wf [where mem = mem and n = "nentries h * 2", OF assms]) simp
  have "d_0_3 \<le> f32_ratio (table_size h' - nentries h') (table_size h')"
    by (rule f32_ratio_ge) (use h'(5,10) in \<open>auto simp: HASH_MIN_SIZE_def\<close>)
  then have "hash_inv h'" using usable_ratio_wf [OF h'(2)] h'(2,3) by (simp add: hash_inv_def)
  with True h' that show ?thesis by (auto simp: auto_resize_table_def)
next
  case False
  then have "auto_resize_table mem h = Some (True, h)" by (auto simp: auto_resize_table_def)
  moreover from False assms have "hash_inv h" by (simp add: hash_inv_def)
  ultimately show ?thesis by (rule that) simp_all
qed

lemma set_effect_trans:
  assumes "set_effect h k v h1" and "hash_abs h2 = hash_abs h1" and "destructor h2 = destructor h1"
    and "released h2 = released h1" and "hash_values h2 = hash_values h1"
  shows "set_effect h k v h2"
  using assms by (simp add: set_effect_def)

text \<open>What taking \<open>k\<close> out does to the contents.\<close>

definition del_effect :: "'v hash \<Rightarrow> string \<Rightarrow> 'v ptr \<Rightarrow> 'v hash \<Rightarrow> bool" where
  "del_effect h k v h' \<longleftrightarrow> hash_abs h' = (hash_abs h)(k := None) \<and> destructor h' = destructor h
     \<and> released h' = released h @ destructor h v \<and> add_mset v (hash_values h') = hash_values h"

lemma hash_create_inv:
  "hash_create True True d = Ptr h \<Longrightarrow> hash_inv h"
  "hash_create True True d = Ptr h \<Longrightarrow> hash_abs h = Map.empty"
  "hash_create True True d = Ptr h \<Longrightarrow> released h = []"
  "hash_create True True d = Ptr h \<Longrightarrow> hash_values h = {#}"
proof -
  assume c: "hash_create True True d = Ptr h"
  then have wf: "hash_wf h"
    by (auto simp: hash_create_def hash_wf_def entries_wf_zero cnt_def)
  moreover from c have "usable_ratio h = f32_ratio 10 10"
    by (auto simp: hash_create_def usable_ratio_def c_run HASH_MIN_SIZE_def)
  moreover have "d_0_3 \<le> f32_ratio 10 10" by (rule f32_ratio_ge) simp_all
  ultimately show "hash_inv h" by (simp add: hash_inv_def)
  from c show "hash_abs h = Map.empty" "released h = []" "hash_values h = {#}"
    by (auto simp: hash_create_def hash_abs_def hash_map_zero hash_values_def)
qed

lemma hash_get_inv:
  "hash_inv h \<Longrightarrow> hash_get h k = Some (case hash_abs h k of None \<Rightarrow> NULL | Some v \<Rightarrow> v)"
  using hash_get_wf hash_inv_room by (auto simp: hash_inv_def)

lemma hash_set_inv:
  assumes "hash_inv h" and "mem A_hash_key" and "mem A_hash_entries"
  obtains h' where "hash_set mem h k v = Some (True, h')" and "hash_inv h'" and "set_effect h k v h'"
proof -
  from assms(1) have wf: "hash_wf h" by (simp add: hash_inv_def)
  obtain h1 where h1: "hash_set_internal h (Ptr k) v = Some (True, h1)" "hash_wf h1" "set_effect h k v h1"
    by (rule hash_set_internal_wf [OF wf hash_inv_room [OF assms(1)]])
  obtain h2 where h2: "auto_resize_table mem h1 = Some (True, h2)" "hash_inv h2" "hash_abs h2 = hash_abs h1"
    "destructor h2 = destructor h1" "released h2 = released h1" "hash_values h2 = hash_values h1"
    by (rule auto_resize_wf [where mem = mem, OF h1(2) assms(3)])
  show ?thesis
    by (rule that [OF _ h2(2) set_effect_trans [OF h1(3) h2(3-6)]])
      (simp add: hash_set_def strdup_def assms(2) h1(1) h2(1))
qed

lemma hash_del_absent:
  assumes "hash_inv h" and "hash_abs h k = None"
  shows "hash_del mem h k = Some (False, h)"
proof -
  from assms(1) obtain es where es: "entries h = Ptr es" "table_size h = length es" "es \<noteq> []"
    "nentries h = cnt IN_USE es" "nremoved h = cnt REMOVED es" "table_ok h es" "hash_abs h = hash_map es"
    by (auto simp: hash_inv_def elim!: hash_wfE)
  have "0 < cnt NEVER es" using hash_inv_room [OF assms(1)] es cnt_total [of es] by simp
  then obtain i where i: "i < length es" "e_in_use (es ! i) = NEVER" using cnt_pos_ex by blast
  from assms(2) es(7) have "hash_map es k = None" by simp
  from probe_absent [OF es(3) this i] obtain p where "probe es k (length es) (home es k) = Free p" by blast
  then show ?thesis
    using es hash_del_loop_probe [OF es(6) home_less [OF es(3)]] by (simp add: hash_del_def c_run home_def)
qed

lemma hash_del_present:
  assumes "hash_inv h" and "hash_abs h k = Some v" and "mem A_hash_entries"
  obtains h' where "hash_del mem h k = Some (True, h')" and "hash_inv h'" and "del_effect h k v h'"
proof -
  from assms(1) obtain es where es: "entries h = Ptr es" "table_size h = length es" "es \<noteq> []" "entries_wf es"
    "nentries h = cnt IN_USE es" "nremoved h = cnt REMOVED es" "HASH_MIN_SIZE \<le> length es"
    "table_ok h es" "hash_abs h = hash_map es"
    by (auto simp: hash_inv_def elim!: hash_wfE)
  from assms(2) es(9) have Some: "hash_map es k = Some v" by simp
  then obtain p where p: "p < length es" "holds (es ! p) k"
    by (metis hash_map_None option.distinct(1))
  have v: "v = e_value (es ! p)" using hash_map_at [OF _ p] Some es(4) by (simp add: entries_wf_def)
  define e :: "'a entry" where "e = \<lparr>e_key = NULL, e_value = NULL, e_in_use = REMOVED\<rparr>"
  have e: "e_in_use e = REMOVED" "e_in_use (es ! p) = IN_USE" using p by (simp_all add: e_def holds_def)
  define h2 where "h2 = h\<lparr>released := released h @ destructor h v, entries := Ptr (es[p := e]),
    nentries := nentries h - 1, nremoved := nremoved h + 1\<rparr>"
  note wr = entries_wf_remove [OF es(4) p e(1)]
  have pos: "0 < nentries h" using cnt_pos [OF p(1) e(2)] es(5) by simp
  have wf2: "hash_wf h2"
    using wr(1) es p cnt_update [OF p(1), of IN_USE e] cnt_update [OF p(1), of REMOVED e] e
    by (simp add: h2_def hash_wf_def)
  obtain h3 where h3: "auto_resize_table mem h2 = Some (True, h3)" "hash_inv h3" "hash_abs h3 = hash_abs h2"
    "destructor h3 = destructor h2" "released h3 = released h2" "hash_values h3 = hash_values h2"
    by (rule auto_resize_wf [where mem = mem, OF wf2 assms(3)])
  have eff: "del_effect h k v h3"
    using h3 wr(2) es(1,9) hash_values_update [OF es(1) p(1), of h2 e] e v
    by (simp add: del_effect_def h2_def hash_abs_def)
  have "hash_del mem h k = Some (True, h3)"
    using es p v pos h3(1) probe_held [OF es(4,3) p] hash_del_loop_probe [OF es(8) home_less [OF es(3)]]
    by (simp add: hash_del_def c_run home_def destroy_def h2_def e_def [symmetric] Let_def)
  from that [OF this h3(2) eff] show ?thesis .
qed

lemma free_loop_released:
  "released (free_loop es h) = released h @ concat (map (destructor h \<circ> e_value) (filter (\<lambda>e. e_in_use e = IN_USE) es))"
  by (induction es arbitrary: h) (auto simp: destroy_def)

lemma hash_free_wf:
  assumes "hash_wf h"
  shows "\<exists>vs. hash_free h = Some (released h @ concat (map (destructor h) vs)) \<and> mset vs = hash_values h"
proof -
  from assms obtain es where es: "entries h = Ptr es" "table_size h = length es" by (elim hash_wfE)
  define vs where "vs = map e_value (filter (\<lambda>e. e_in_use e = IN_USE) es)"
  have "hash_free h = Some (released h @ concat (map (destructor h) vs))"
    using es by (simp add: hash_free_def c_run free_loop_released vs_def)
  moreover have "mset vs = hash_values h" by (simp add: vs_def hash_values_def es)
  ultimately show ?thesis by blast
qed

subsection \<open>The hash table provides the interfaces\<close>

text \<open>A destructor that releases exactly the value it is called with, as \<open>pf_free\<close> does.\<close>

definition plain_destructor :: "'v destructor" where
  "plain_destructor = (\<lambda>v. [v])"

definition hash_owns :: "'v hash \<Rightarrow> bool" where
  "hash_owns h \<longleftrightarrow> hash_inv h \<and> destructor h = plain_destructor"

lemma hash_set_law:
  assumes "hash_inv h"
  obtains h' where "hash_set mem_ok h k v = Some (True, h')" and "hash_inv h'" and "set_effect h k v h'"
  by (rule hash_set_inv [OF assms, of mem_ok]) simp_all

lemma hash_del_law:
  assumes "hash_inv h"
  obtains h' where "hash_del mem_ok h k = Some (hash_abs h k \<noteq> None, h')" and "hash_inv h'"
    and "case hash_abs h k of None \<Rightarrow> h' = h | Some v \<Rightarrow> del_effect h k v h'"
proof (cases "hash_abs h k")
  case None
  show ?thesis by (rule that [of h]) (use hash_del_absent [OF assms None] None assms in simp_all)
next
  case (Some v)
  obtain h' where "hash_del mem_ok h k = Some (True, h')" "hash_inv h'" "del_effect h k v h'"
    by (rule hash_del_present [OF assms Some, of mem_ok]) simp_all
  with Some that show ?thesis by simp
qed

interpretation hash_table: str_map "\<lambda>_. True" "hash_set mem_ok" "hash_del mem_ok" hash_inv hash_abs hash_get
proof
  fix t :: "'a hash" and k :: string and v :: "'a ptr"
  assume inv: "hash_inv t"
  obtain h' where "hash_set mem_ok t k v = Some (True, h')" "hash_inv h'" "set_effect t k v h'"
    by (rule hash_set_law [OF inv])
  then show "\<exists>t'. hash_set mem_ok t k v = Some (True, t') \<and> hash_inv t' \<and> hash_abs t' = (hash_abs t)(k \<mapsto> v)"
    by (auto simp: set_effect_def)
  obtain h' where h': "hash_del mem_ok t k = Some (hash_abs t k \<noteq> None, h')" "hash_inv h'"
    "case hash_abs t k of None \<Rightarrow> h' = t | Some v \<Rightarrow> del_effect t k v h'"
    by (rule hash_del_law [OF inv])
  from h'(3) have "hash_abs h' = (hash_abs t)(k := None)"
    by (cases "hash_abs t k") (auto simp: del_effect_def)
  with h' show "\<exists>t'. hash_del mem_ok t k = Some (hash_abs t k \<noteq> None, t') \<and> hash_inv t' \<and> hash_abs t' = (hash_abs t)(k := None)"
    by blast
  show "hash_get t k = Some (case hash_abs t k of None \<Rightarrow> NULL | Some v \<Rightarrow> v)"
    by (rule hash_get_inv [OF inv])
qed

interpretation hash_owner: owning_table "\<lambda>_. True" "hash_set mem_ok" "hash_del mem_ok" hash_owns hash_abs
  hash_values "\<lambda>h. mset (released h)"
proof
  fix t t' :: "'a hash" and k :: string and v :: "'a ptr" and r
  assume owns: "hash_owns t"
  then have inv: "hash_inv t" by (simp add: hash_owns_def)
  obtain h1 where h1: "hash_set mem_ok t k v = Some (True, h1)" "hash_inv h1" "set_effect t k v h1"
    by (rule hash_set_law [OF inv])
  then show "\<exists>t'. hash_set mem_ok t k v = Some (True, t') \<and> hash_owns t' \<and> hash_abs t' = (hash_abs t)(k \<mapsto> v)"
    using owns by (auto simp: set_effect_def hash_owns_def)
  obtain h2 where h2: "hash_del mem_ok t k = Some (hash_abs t k \<noteq> None, h2)" "hash_inv h2"
    "case hash_abs t k of None \<Rightarrow> h2 = t | Some v \<Rightarrow> del_effect t k v h2"
    by (rule hash_del_law [OF inv])
  from h2(2,3) owns have "hash_abs h2 = (hash_abs t)(k := None) \<and> hash_owns h2"
    by (cases "hash_abs t k") (auto simp: del_effect_def hash_owns_def)
  with h2 show "\<exists>t'. hash_del mem_ok t k = Some (hash_abs t k \<noteq> None, t') \<and> hash_owns t' \<and> hash_abs t' = (hash_abs t)(k := None)"
    by blast
  show "hash_values t' + mset (released t') = add_mset v (hash_values t + mset (released t))"
    if "hash_set mem_ok t k v = Some (True, t')"
    using that h1 owns
    by (auto simp: set_effect_def hash_owns_def plain_destructor_def split: option.splits)
  show "hash_values t' + mset (released t') = hash_values t + mset (released t)"
    if "hash_del mem_ok t k = Some (r, t')"
    using that h2 owns by (cases "hash_abs t k") (auto simp: del_effect_def hash_owns_def plain_destructor_def)
qed

subsection \<open>Properties\<close>

definition the_entries :: "'v hash \<Rightarrow> 'v entry list" where
  "the_entries h = (case entries h of NULL \<Rightarrow> [] | Ptr es \<Rightarrow> es)"

text \<open>Property C1: Functional refinement of the hash table: a table that comes from \<open>hash_create\<close> answers
  every sequence of \<open>hash_set\<close> and \<open>hash_del\<close> calls, in any order, with the results that the same sequence has on
  a map (a store succeeds, a removal succeeds iff the key is there), through every growth, shrinking and reuse
  of removed cells; afterwards \<open>hash_get\<close> reads exactly what the map holds, and NULL for
  every other key.\<close>

theorem hash_refines_map:
  assumes "hash_create True True d = Ptr h"
  shows "\<exists>h'. run_ops (hash_set mem_ok) (hash_del mem_ok) ops h = Some (fst (map_ops ops Map.empty), h')
    \<and> (\<forall>k. hash_get h' k = Some (case snd (map_ops ops Map.empty) k of None \<Rightarrow> NULL | Some v \<Rightarrow> v))"
proof -
  obtain h' where "run_ops (hash_set mem_ok) (hash_del mem_ok) ops h = Some (fst (map_ops ops Map.empty), h')"
    "hash_inv h'" "hash_abs h' = snd (map_ops ops Map.empty)"
    using hash_table.run_ops_refines [OF hash_create_inv(1) [OF assms], of ops] hash_create_inv(2) [OF assms] by auto
  with hash_table.get_law show ?thesis by metis
qed

theorem hash_refines_map_witness:
  "\<exists>h h'. hash_create True True NULL = Ptr h \<and>
     run_ops (hash_set mem_ok) (hash_del mem_ok)
       [SetOp ''a'' (Ptr 1), SetOp ''b'' (Ptr 2), DelOp ''a'', DelOp ''c''] h = Some ([True, True, True, False], h')
     \<and> hash_get h' ''b'' = Some (Ptr (2 :: nat)) \<and> hash_get h' ''a'' = Some NULL"
proof -
  obtain h :: "nat hash" where h: "hash_create True True NULL = Ptr h" by (simp add: hash_create_def)
  from hash_refines_map [OF h, of "[SetOp ''a'' (Ptr 1), SetOp ''b'' (Ptr 2), DelOp ''a'', DelOp ''c'']"] h
  show ?thesis by auto
qed

text \<open>Ownership: after any sequence of operations on a new table whose destructor releases its argument,
  and then \<open>hash_free\<close>, the destructor has been called for every value that was ever stored exactly as many times as
  it was stored: no value leaks, none is released twice.\<close>

theorem hash_releases_once:
  assumes "hash_create True True (Ptr plain_destructor) = Ptr h"
  shows "\<exists>rs h' freed. run_ops (hash_set mem_ok) (hash_del mem_ok) ops h = Some (rs, h')
    \<and> hash_free h' = Some freed \<and> mset freed = values_set ops"
proof -
  have owns: "hash_owns h" using assms hash_create_inv(1) [OF assms] by (auto simp: hash_owns_def hash_create_def)
  then obtain h' where h': "run_ops (hash_set mem_ok) (hash_del mem_ok) ops h = Some (fst (map_ops ops (hash_abs h)), h')"
    "hash_owns h'" using hash_owner.run_ops_refines [of h ops] by auto
  have bal: "hash_values h' + mset (released h') = values_set ops"
    using hash_owner.run_ops_owned [OF owns _ h'(1)] hash_create_inv(3,4) [OF assms] by simp
  have "concat (map plain_destructor vs) = vs" for vs :: "'a ptr list" by (induction vs) (auto simp: plain_destructor_def)
  then obtain vs where "hash_free h' = Some (released h' @ vs)" "mset vs = hash_values h'"
    using hash_free_wf [of h'] h'(2) by (auto simp: hash_owns_def hash_inv_def)
  with h'(1) bal show ?thesis by (auto simp: add.commute)
qed

theorem hash_releases_once_witness:
  "\<exists>h rs h' freed. hash_create True True (Ptr plain_destructor) = Ptr h \<and>
     run_ops (hash_set mem_ok) (hash_del mem_ok) [SetOp ''a'' (Ptr 1), SetOp ''a'' (Ptr 2), DelOp ''b''] h = Some (rs, h')
     \<and> hash_free h' = Some freed \<and> mset freed = {#Ptr (1 :: nat), Ptr 2#}"
proof -
  obtain h :: "nat hash" where h: "hash_create True True (Ptr plain_destructor) = Ptr h" by (simp add: hash_create_def)
  from hash_releases_once [OF h, of "[SetOp ''a'' (Ptr 1), SetOp ''a'' (Ptr 2), DelOp ''b'']"] h
  show ?thesis by (auto simp: add_mset_commute)
qed

text \<open>The load bound: in every table that a sequence of calls on a new table reaches, at least three cells in ten
  have never been used (the test in \<open>float\<close> arithmetic against the \<open>double\<close> 0.3 is exact up to \<open>2 ^ 20\<close>
  cells), and the counters of the table are the numbers of its cells of each kind.\<close>

theorem hash_load_bound:
  assumes "hash_create True True d = Ptr h"
    and "run_ops (hash_set mem_ok) (hash_del mem_ok) ops h = Some (rs, h')"
  shows "nentries h' = cnt IN_USE (the_entries h') \<and> nremoved h' = cnt REMOVED (the_entries h')
    \<and> table_size h' = length (the_entries h')
    \<and> (table_size h' \<le> 2 ^ 20 \<longrightarrow> 3 * table_size h' \<le> 10 * cnt NEVER (the_entries h'))"
proof -
  have inv: "hash_inv h'"
    using hash_table.run_ops_refines [OF hash_create_inv(1) [OF assms(1)], of ops] assms(2) by auto
  then have wf: "hash_wf h'" by (simp add: hash_inv_def)
  then obtain es where es: "entries h' = Ptr es" "table_size h' = length es" "nentries h' = cnt IN_USE es"
    "nremoved h' = cnt REMOVED es" "HASH_MIN_SIZE \<le> length es" by (elim hash_wfE)
  have "3 * table_size h' \<le> 10 * cnt NEVER es" if "table_size h' \<le> 2 ^ 20"
  proof -
    have never: "table_size h' - nentries h' - nremoved h' = cnt NEVER es" using cnt_total [of es] es by simp
    have "\<not> f32_ratio (cnt NEVER es) (table_size h') < d_0_3"
      using inv usable_ratio_wf(1) [OF wf] never by (simp add: hash_inv_def)
    moreover have "cnt NEVER es < 2 ^ 24" "0 < table_size h'"
      using cnt_total [of es] es(2,5) that by (auto simp: HASH_MIN_SIZE_def)
    ultimately show ?thesis using f32_ratio_lt_0_3 [OF _ that] by auto
  qed
  with es show ?thesis by (simp add: the_entries_def)
qed

theorem hash_load_bound_witness:
  "\<exists>h rs h'. hash_create True True NULL = Ptr h \<and>
     run_ops (hash_set mem_ok) (hash_del mem_ok) [SetOp ''a'' (Ptr (1 :: nat)), DelOp ''a''] h = Some (rs, h')
     \<and> nremoved h' = cnt REMOVED (the_entries h')"
proof -
  obtain h :: "nat hash" where h: "hash_create True True NULL = Ptr h" by (simp add: hash_create_def)
  obtain rs h' where r: "run_ops (hash_set mem_ok) (hash_del mem_ok) [SetOp ''a'' (Ptr (1 :: nat)), DelOp ''a''] h = Some (rs, h')"
    using hash_table.run_ops_refines [OF hash_create_inv(1) [OF h], of "[SetOp ''a'' (Ptr 1), DelOp ''a'']"]
    unfolding Let_def by (metis list.set_intros)
  from hash_load_bound [OF h r] h r show ?thesis by blast
qed

text \<open>Removing a key that is not there has no effect, for any table a client can
  have (its invariant holds) and whatever the allocator does: \<open>hash_del\<close> returns false and every field is as before.\<close>

theorem hash_del_missing:
  assumes "hash_inv h" and "hash_abs h k = None"
  shows "hash_del mem h k = Some (False, h)"
  using assms by (rule hash_del_absent)

theorem hash_del_missing_witness:
  "\<exists>h :: nat hash. hash_create True True NULL = Ptr h \<and> hash_del (\<lambda>_. False) h ''x'' = Some (False, h)"
proof -
  obtain h :: "nat hash" where h: "hash_create True True NULL = Ptr h" by (simp add: hash_create_def)
  have "hash_abs h ''x'' = None" using hash_create_inv(2) [OF h] by simp
  from hash_del_missing [OF hash_create_inv(1) [OF h] this] h show ?thesis by blast
qed

text \<open>Property C37: When the allocation of a resize fails, the operation reports the failure, but the table is
  left without its array (\<open>h->entries\<close> has been overwritten by NULL while \<open>table_size\<close> is
  unchanged): the next lookup, store or removal of any key has no defined result, it
  dereferences NULL.\<close>

theorem hash_resize_failure:
  assumes "\<not> mem A_hash_entries" and "usable_ratio h < d_0_3" and "0 < table_size h"
  shows "\<exists>h'. auto_resize_table mem h = Some (False, h') \<and> hash_get h' k = None
    \<and> hash_set mem' h' k v = None \<and> hash_del mem' h' k = None"
proof -
  obtain n where n: "table_size h = Suc n" using assms(3) by (cases "table_size h") auto
  have "auto_resize_table mem h = Some (False, h\<lparr>entries := NULL\<rparr>)"
    using assms(1,2) by (simp add: auto_resize_table_def hash_resize_table_def)
  moreover have "entry_at (h\<lparr>entries := NULL\<rparr>) pos = None" for pos by (simp add: entry_at_def)
  ultimately show ?thesis
    using n by (auto simp: hash_get_def hash_set_def hash_set_internal_def hash_del_def home_pos_def c_run strdup_def)
qed

theorem hash_resize_failure_witness:
  "\<exists>h'. auto_resize_table (\<lambda>_. False) \<lparr>entries = Ptr (replicate 10 zero_entry), table_size = 10, nentries = 8,
       nremoved = 0, destructor = dumb_destructor, released = []\<rparr> = Some (False, h') \<and> hash_get h' ''a'' = (None :: nat ptr option)
     \<and> hash_set mem_ok h' ''a'' (Ptr 1) = None \<and> hash_del mem_ok h' ''a'' = None"
proof -
  have "f32_ratio 2 10 < d_0_3" by code_simp
  then show ?thesis
    by (intro hash_resize_failure) (simp_all add: usable_ratio_def size_sub_le)
qed

end
