(* ===== verification/Cache.thy ===== *)
theory Cache
  imports Hash_Correct
begin

text \<open>
  The lookup cache of libfiu/hash.c (\<open>struct cache\<close>). It uses the array of a hash table directly:
  a key is only ever looked for in the cell its hash selects, and storing a key overwrites whatever
  that cell held. Every function runs under the lock of the cache, so one call is one step.
  The second half shows that the cache keeps the contract \<open>lookup_cache\<close>.
\<close>

subsection \<open>State and operations\<close>

record 'v cache =
  c_hash :: "'v hash"
  c_size :: nat

text \<open>\<open>cache_create\<close> does not set the field \<open>size\<close>: its first value is what \<open>malloc\<close> left there.\<close>

definition cache_create :: "bool \<Rightarrow> bool \<Rightarrow> bool \<Rightarrow> nat \<Rightarrow> 'v cache ptr" where
  "cache_create malloc_c malloc_h malloc_entries junk =
     (if \<not> malloc_c then NULL
      else case hash_create malloc_h malloc_entries NULL of
        NULL \<Rightarrow> NULL
      | Ptr h \<Rightarrow> Ptr \<lparr>c_hash = h, c_size = junk\<rparr>)"

definition cache_free :: "'v cache \<Rightarrow> 'v ptr list option" where
  "cache_free c = hash_free (c_hash c)"

definition clear_entry :: "'v entry \<Rightarrow> 'v entry" where
  "clear_entry e = (if e_in_use e = IN_USE then e\<lparr>e_key := NULL, e_value := NULL, e_in_use := NEVER\<rparr> else e)"

text \<open>\<open>_cache_invalidate\<close>\<close>

definition cache_invalidate_internal :: "'v cache \<Rightarrow> 'v cache option" where
  "cache_invalidate_internal c = do {
     all \<leftarrow> deref (entries (c_hash c));
     es \<leftarrow> c_prefix (table_size (c_hash c)) all;
     Some (c\<lparr>c_hash := (c_hash c)\<lparr>entries := Ptr (map clear_entry es @ drop (table_size (c_hash c)) all)\<rparr>\<rparr>) }"

definition cache_invalidate :: "'v cache \<Rightarrow> (bool \<times> 'v cache) option" where
  "cache_invalidate c = do { c' \<leftarrow> cache_invalidate_internal c; Some (True, c') }"

definition cache_resize :: "mem \<Rightarrow> 'v cache \<Rightarrow> nat \<Rightarrow> (bool \<times> 'v cache) option" where
  "cache_resize mem c new_size =
     (if c_size c < new_size then do {
        (r, h) \<leftarrow> hash_resize_table mem (c_hash c) new_size;
        Some (if r then (True, c\<lparr>c_hash := h, c_size := new_size\<rparr>) else (False, c\<lparr>c_hash := h\<rparr>)) }
      else do {
        c1 \<leftarrow> cache_invalidate_internal c;
        (r, h) \<leftarrow> hash_resize_table mem (c_hash c1) new_size;
        Some (if r then (True, c1\<lparr>c_hash := h, c_size := new_size\<rparr>) else (False, c1\<lparr>c_hash := h\<rparr>)) })"

text \<open>\<open>entry_for_key\<close>: the position of the cell, and what is in it.\<close>

definition entry_for_key :: "'v cache \<Rightarrow> string \<Rightarrow> (nat \<times> 'v entry) option" where
  "entry_for_key c key = do {
     pos \<leftarrow> home_pos (c_hash c) key;
     e \<leftarrow> entry_at (c_hash c) pos;
     Some (pos, e) }"

definition cache_get :: "'v cache \<Rightarrow> string \<Rightarrow> (bool \<times> 'v ptr) option" where
  "cache_get c key = do {
     (pos, e) \<leftarrow> entry_for_key c key;
     if e_in_use e \<noteq> IN_USE then Some (False, NULL)
     else do {
       eq \<leftarrow> c_streq key (e_key e);
       Some (if eq then (True, e_value e) else (False, NULL)) } }"

definition cache_set :: "mem \<Rightarrow> 'v cache \<Rightarrow> string \<Rightarrow> 'v ptr \<Rightarrow> (bool \<times> 'v cache) option" where
  "cache_set mem c key v = do {
     (pos, e) \<leftarrow> entry_for_key c key;
     h \<leftarrow> put_entry (c_hash c) pos
            (e\<lparr>e_in_use := IN_USE, e_key := strdup mem A_cache_key key, e_value := v\<rparr>);
     Some (True, c\<lparr>c_hash := h\<rparr>) }"

definition cache_del :: "'v cache \<Rightarrow> string \<Rightarrow> (bool \<times> 'v cache) option" where
  "cache_del c key = do {
     (pos, e) \<leftarrow> entry_for_key c key;
     m \<leftarrow> entry_matches key e;
     if m then do {
       h \<leftarrow> put_entry (c_hash c) pos (e\<lparr>e_key := NULL, e_value := NULL, e_in_use := NEVER\<rparr>);
       Some (True, c\<lparr>c_hash := h\<rparr>) }
     else Some (False, c) }"

subsection \<open>What is in the cache\<close>

definition cells :: "'v cache \<Rightarrow> 'v entry list" where
  "cells c = (case entries (c_hash c) of NULL \<Rightarrow> [] | Ptr es \<Rightarrow> es)"

definition cell_contents :: "'v entry list \<Rightarrow> (string \<times> 'v ptr) set" where
  "cell_contents es = {(k, e_value e) | k e. e \<in> set es \<and> holds e k}"

definition cache_contents :: "'v cache \<Rightarrow> (string \<times> 'v ptr) set" where
  "cache_contents c = cell_contents (cells c)"

definition cache_inv :: "'v cache \<Rightarrow> bool" where
  "cache_inv c \<longleftrightarrow> table_ok (c_hash c) (cells c)"

lemma cell_contents_update:
  assumes "p < length es"
  shows "cell_contents (es[p := e]) \<subseteq> cell_contents es \<union> {(k, e_value e) | k. holds e k}"
  using set_update_subset_insert [of es p e] by (auto simp: cell_contents_def)

lemma cell_contents_at: "p < length es \<Longrightarrow> holds (es ! p) k \<Longrightarrow> (k, e_value (es ! p)) \<in> cell_contents es"
  by (auto simp: cell_contents_def)

lemma keys_ok_update: "keys_ok es \<Longrightarrow> (e_in_use e = IN_USE \<Longrightarrow> e_key e \<noteq> NULL) \<Longrightarrow> keys_ok (es[p := e])"
  using set_update_subset_insert [of es p e] by (auto simp: keys_ok_def)

lemma entry_for_key_ok:
  "cache_inv c \<Longrightarrow> entry_for_key c k = Some (home (cells c) k, cells c ! home (cells c) k)"
  using home_less [of "cells c" k] by (simp add: cache_inv_def entry_for_key_def c_run table_okD home_def)

lemma cache_invD:
  assumes "cache_inv c"
  shows "entries (c_hash c) = Ptr (cells c)" "cells c \<noteq> []" "keys_ok (cells c)" "table_size (c_hash c) = length (cells c)"
  using table_okD [OF assms [unfolded cache_inv_def]] by simp_all

lemma cache_get_ok:
  assumes "cache_inv c"
  shows "cache_get c k = Some (if holds (cells c ! home (cells c) k) k
    then (True, e_value (cells c ! home (cells c) k)) else (False, NULL))"
proof -
  note h = home_less [OF cache_invD(2) [OF assms]]
  have "e_in_use (cells c ! home (cells c) k) = IN_USE \<Longrightarrow> \<exists>s. e_key (cells c ! home (cells c) k) = Ptr s"
    using cache_invD(3) [OF assms] nth_mem [OF h]
    by (cases "e_key (cells c ! home (cells c) k)") (auto simp: keys_ok_def)
  then show ?thesis
    using entry_for_key_ok [OF assms, of k] by (auto simp: cache_get_def holds_def c_run)
qed

text \<open>The cell of a key, rewritten.\<close>

lemma cells_put [simp]: "cells (c\<lparr>c_hash := h\<lparr>entries := Ptr es\<rparr>\<rparr>) = es"
  by (simp add: cells_def)

lemma cache_inv_put:
  assumes "cache_inv c" and "keys_ok es" and "length es = length (cells c)"
  shows "cache_inv (c\<lparr>c_hash := (c_hash c)\<lparr>entries := Ptr es\<rparr>\<rparr>)"
proof -
  from cache_invD(2) [OF assms(1)] assms(3) have "es \<noteq> []" by auto
  with assms cache_invD(4) [OF assms(1)] show ?thesis by (simp add: cache_inv_def table_ok_def)
qed

lemma entry_all_fields [simp]:
  "(e :: 'v entry)\<lparr>e_in_use := u, e_key := k, e_value := v\<rparr> = \<lparr>e_key = k, e_value = v, e_in_use = u\<rparr>"
  by (cases e) simp

lemma cache_set_ok:
  assumes "cache_inv c" and "mem A_cache_key"
  shows "\<exists>c'. cache_set mem c k v = Some (True, c') \<and> cache_inv c'
    \<and> cells c' = (cells c)[home (cells c) k := \<lparr>e_key = Ptr k, e_value = v, e_in_use = IN_USE\<rparr>]"
proof -
  define e :: "'a entry" where "e = \<lparr>e_key = Ptr k, e_value = v, e_in_use = IN_USE\<rparr>"
  define c' where "c' = c\<lparr>c_hash := (c_hash c)\<lparr>entries := Ptr ((cells c)[home (cells c) k := e])\<rparr>\<rparr>"
  have "keys_ok ((cells c)[home (cells c) k := e])"
    using cache_invD(3) [OF assms(1)] by (rule keys_ok_update) (simp add: e_def)
  then have "cache_inv c'" unfolding c'_def by (intro cache_inv_put assms(1)) simp_all
  moreover have "cache_set mem c k v = Some (True, c')"
    using assms(2) entry_for_key_ok [OF assms(1), of k]
      put_entry_ok [OF cache_invD(1) [OF assms(1)] home_less [OF cache_invD(2) [OF assms(1)]], of k]
    by (simp add: cache_set_def strdup_def c'_def e_def)
  ultimately show ?thesis by (auto simp: c'_def e_def)
qed

lemma rehash_contents:
  assumes "table_ok h es" and "keys_ok old"
  shows "\<exists>h' es'. rehash_loop old h = Some h' \<and> table_ok h' es' \<and> cell_contents es' \<subseteq> cell_contents es \<union> cell_contents old"
  using assms
proof (induction old arbitrary: h es)
  case Nil
  then show ?case by auto
next
  case (Cons e old)
  have sub: "cell_contents old \<subseteq> cell_contents (e # old)" by (auto simp: cell_contents_def)
  show ?case
  proof (cases "e_in_use e = IN_USE")
    case False
    then show ?thesis using Cons sub by (fastforce simp: keys_ok_def)
  next
    case True
    with Cons.prems(2) obtain k where k: "e_key e = Ptr k" by (cases "e_key e") (auto simp: keys_ok_def)
    with True have e: "(k, e_value e) \<in> cell_contents (e # old)" by (auto simp: cell_contents_def holds_def)
    note h = home_less [OF table_okD(3) [OF Cons.prems(1)]]
    note loop = hash_set_loop_probe [OF Cons.prems(1) h]
    have pc: "case probe es k (length es) (home es k) of Found p \<Rightarrow> p < length es \<and> holds (es ! p) k
      | Free p \<Rightarrow> p < length es | Exhausted \<Rightarrow> True"
      using probe_cases [of es "home es k" k "length es"] table_okD(3) [OF Cons.prems(1)] h
      by (auto split: probe_result.splits)
    have "\<exists>r h1 es1. hash_set_internal h (Ptr k) (e_value e) = Some (r, h1) \<and> table_ok h1 es1
      \<and> cell_contents es1 \<subseteq> insert (k, e_value e) (cell_contents es)"
    proof (cases "probe es k (length es) (home es k)")
      case (Found p)
      let ?e = "(es ! p)\<lparr>e_value := e_value e\<rparr>"
      have "cell_contents (es[p := ?e]) \<subseteq> insert (k, e_value e) (cell_contents es)"
        using cell_contents_update [of p es ?e] pc Found by (auto simp: holds_def)
      moreover have "keys_ok (es[p := ?e])"
        using table_okD(4) [OF Cons.prems(1)] pc Found by (intro keys_ok_update) (auto simp: holds_def)
      ultimately show ?thesis
        using Found loop [of "length es" k "e_value e"] Cons.prems(1) table_okD [OF Cons.prems(1)]
        by (auto simp: hash_set_internal_def c_run home_def table_ok_def destroy_def)
    next
      case (Free p)
      let ?e = "\<lparr>e_key = Ptr k, e_value = e_value e, e_in_use = IN_USE\<rparr>"
      have "cell_contents (es[p := ?e]) \<subseteq> insert (k, e_value e) (cell_contents es)"
        using cell_contents_update [of p es ?e] pc Free by (auto simp: holds_def)
      moreover have "keys_ok (es[p := ?e])"
        using table_okD(4) [OF Cons.prems(1)] by (intro keys_ok_update) simp_all
      ultimately show ?thesis
        using Free loop [of "length es" k "e_value e"] Cons.prems(1) table_okD [OF Cons.prems(1)]
        by (auto simp: hash_set_internal_def c_run home_def table_ok_def)
    next
      case Exhausted
      then show ?thesis
        using loop [of "length es" k "e_value e"] Cons.prems(1) table_okD [OF Cons.prems(1)]
        by (auto simp: hash_set_internal_def c_run home_def)
    qed
    then obtain r h1 es1 where h1: "hash_set_internal h (Ptr k) (e_value e) = Some (r, h1)" "table_ok h1 es1"
      "cell_contents es1 \<subseteq> insert (k, e_value e) (cell_contents es)" by blast
    have "keys_ok old" using Cons.prems(2) by (simp add: keys_ok_def)
    from Cons.IH [OF h1(2) this] obtain h' es' where
      "rehash_loop old h1 = Some h'" "table_ok h' es'" "cell_contents es' \<subseteq> cell_contents es1 \<union> cell_contents old"
      by blast
    moreover from this(3) h1(3) e sub have "cell_contents es' \<subseteq> cell_contents es \<union> cell_contents (e # old)"
      by blast
    ultimately show ?thesis using True k h1(1) by auto
  qed
qed

subsection \<open>The contract\<close>

lemma holds_clear [simp]: "\<not> holds (clear_entry e) k"
  by (simp add: holds_def clear_entry_def)

lemma clear_not_used [simp]: "e_in_use (clear_entry e) \<noteq> IN_USE"
  by (simp add: clear_entry_def)

lemma cell_contents_clear [simp]: "cell_contents (map clear_entry es) = {}"
  by (auto simp: cell_contents_def)

lemma keys_ok_clear [simp]: "keys_ok (map clear_entry es)"
  by (simp add: keys_ok_def)

lemma cache_invalidate_internal_ok:
  assumes "cache_inv c"
  shows "\<exists>c'. cache_invalidate_internal c = Some c' \<and> cache_inv c' \<and> cells c' = map clear_entry (cells c)
    \<and> c_size c' = c_size c"
proof -
  have "cache_inv (c\<lparr>c_hash := (c_hash c)\<lparr>entries := Ptr (map clear_entry (cells c))\<rparr>\<rparr>)"
    by (rule cache_inv_put [OF assms]) simp_all
  then show ?thesis
    using cache_invD [OF assms] by (simp add: cache_invalidate_internal_def c_run)
qed

lemma hash_resize_contents:
  assumes "table_ok h es" and "mem A_hash_entries"
  shows "\<exists>h' es'. hash_resize_table mem h n = Some (True, h') \<and> table_ok h' es' \<and> cell_contents es' \<subseteq> cell_contents es"
proof -
  define size where "size = (if n < HASH_MIN_SIZE then HASH_MIN_SIZE else n)"
  define zs :: "'a entry list" where "zs = replicate size zero_entry"
  define h0 where "h0 = h\<lparr>entries := Ptr zs, table_size := size, nentries := 0, nremoved := 0\<rparr>"
  have "table_ok h0 zs"
    by (simp add: table_ok_def h0_def zs_def keys_ok_def size_def HASH_MIN_SIZE_def)
  from rehash_contents [OF this table_okD(4) [OF assms(1)]] obtain h' es' where
    "rehash_loop es h0 = Some h'" "table_ok h' es'" "cell_contents es' \<subseteq> cell_contents zs \<union> cell_contents es"
    by blast
  moreover have "cell_contents zs = {}" by (simp add: cell_contents_def zs_def)
  ultimately show ?thesis
    using assms(2) table_okD [OF assms(1)]
    by (auto simp: hash_resize_table_def c_run Let_def h0_def zs_def size_def [symmetric])
qed

lemma cache_resize_law:
  assumes "cache_inv c" and "mem A_hash_entries"
  shows "\<exists>c'. cache_resize mem c n = Some (True, c') \<and> cache_inv c' \<and> cache_contents c' \<subseteq> cache_contents c"
proof -
  have res: "\<exists>h' es'. hash_resize_table mem (c_hash d) n = Some (True, h') \<and> table_ok h' es'
      \<and> cell_contents es' \<subseteq> cell_contents (cells d)" if "cache_inv d" for d :: "'a cache"
    using hash_resize_contents [where mem = mem, OF that [unfolded cache_inv_def] assms(2)] .
  have new: "cache_inv (d\<lparr>c_hash := h', c_size := n\<rparr>)" "cache_contents (d\<lparr>c_hash := h', c_size := n\<rparr>) = cell_contents es'"
    if "table_ok h' es'" for d :: "'a cache" and h' es'
    using that table_okD(1) [OF that] by (simp_all add: cache_inv_def cache_contents_def cells_def)
  show ?thesis
  proof (cases "c_size c < n")
    case True
    with res [OF assms(1)] new show ?thesis by (fastforce simp: cache_resize_def cache_contents_def)
  next
    case False
    from cache_invalidate_internal_ok [OF assms(1)] obtain c1 where
      c1: "cache_invalidate_internal c = Some c1" "cache_inv c1" "cells c1 = map clear_entry (cells c)" by blast
    from res [OF c1(2)] c1(3) obtain h' es' where
      "hash_resize_table mem (c_hash c1) n = Some (True, h')" "table_ok h' es'" "cell_contents es' = {}" by auto
    with False c1(1) new show ?thesis by (auto simp: cache_resize_def)
  qed
qed

lemma cache_get_law:
  assumes "cache_inv c"
  shows "\<exists>hit v. cache_get c k = Some (hit, v) \<and> (hit \<longrightarrow> (k, v) \<in> cache_contents c)"
  using cache_get_ok [OF assms, of k] cell_contents_at [OF home_less [OF cache_invD(2) [OF assms]], of k]
  by (auto simp: cache_contents_def)

lemma cache_set_law:
  assumes "cache_inv c" and "mem A_cache_key"
  shows "\<exists>c'. cache_set mem c k v = Some (True, c') \<and> cache_inv c' \<and> cache_contents c' \<subseteq> insert (k, v) (cache_contents c)"
proof -
  from cache_set_ok [where mem = mem, OF assms] obtain c' where c': "cache_set mem c k v = Some (True, c')" "cache_inv c'"
    "cells c' = (cells c)[home (cells c) k := \<lparr>e_key = Ptr k, e_value = v, e_in_use = IN_USE\<rparr>]" by blast
  have "cache_contents c' \<subseteq> insert (k, v) (cache_contents c)"
    using cell_contents_update [OF home_less [OF cache_invD(2) [OF assms(1)], of k],
        of "\<lparr>e_key = Ptr k, e_value = v, e_in_use = IN_USE\<rparr>"] c'(3)
    by (auto simp: cache_contents_def holds_def)
  with c' show ?thesis by blast
qed

lemma cache_invalidate_law:
  "cache_inv c \<Longrightarrow> \<exists>c'. cache_invalidate c = Some (True, c') \<and> cache_inv c' \<and> cache_contents c' = {}"
  using cache_invalidate_internal_ok [of c] by (auto simp: cache_invalidate_def cache_contents_def)

interpretation wcache: lookup_cache cache_inv cache_contents cache_get "cache_set mem_ok" cache_invalidate
  "cache_resize mem_ok"
  by unfold_locales (auto intro: cache_get_law cache_set_law cache_invalidate_law cache_resize_law)

lemma cache_create_inv:
  assumes "cache_create True True True junk = Ptr c"
  shows "cache_inv c" and "cache_contents c = {}"
  using assms by (auto simp: cache_create_def hash_create_def cache_inv_def cache_contents_def cells_def
      table_ok_def keys_ok_def cell_contents_def HASH_MIN_SIZE_def)

subsection \<open>Properties\<close>

text \<open>The cache after a store: the key just stored hits with its value, a key whose hash selects another
  cell answers as before, and a different key of the same cell now misses (its entry was
  overwritten), so a hit never returns the value of another key.\<close>

theorem cache_get_after_set:
  assumes "cache_inv c" and "mem A_cache_key"
  shows "\<exists>c'. cache_set mem c k v = Some (True, c') \<and> cache_get c' k = Some (True, v)
    \<and> (\<forall>k'. k' \<noteq> k \<longrightarrow> cache_get c' k' =
          (if home_pos (c_hash c) k' = home_pos (c_hash c) k then Some (False, NULL) else cache_get c k'))"
proof -
  define e :: "'a entry" where "e = \<lparr>e_key = Ptr k, e_value = v, e_in_use = IN_USE\<rparr>"
  obtain c' where c': "cache_set mem c k v = Some (True, c')" "cache_inv c'" "cells c' = (cells c)[home (cells c) k := e]"
    using cache_set_ok [where mem = mem, OF assms] unfolding e_def by blast
  have home: "home ((cells c)[i := x]) = home (cells c)" for i x by (simp add: home_def fun_eq_iff)
  have less: "home (cells c) j < length (cells c)" for j using home_less [OF cache_invD(2) [OF assms(1)]] .
  have pos: "home_pos (c_hash c) j = Some (home (cells c) j)" for j
    using assms(1) cache_invD(2,4) [OF assms(1)] less [of j]
    by (simp add: home_pos_def home_def c_mod_def split: if_splits)
  have held: "holds e j \<longleftrightarrow> j = k" for j by (auto simp: holds_def e_def)
  have "cache_get c' k = Some (True, v)"
    using cache_get_ok [OF c'(2), of k] less [of k] held [of k] by (simp add: home c'(3)) (simp add: e_def)
  moreover have "cache_get c' k' = (if home_pos (c_hash c) k' = home_pos (c_hash c) k then Some (False, NULL) else cache_get c k')"
    if "k' \<noteq> k" for k'
    using cache_get_ok [OF c'(2), of k'] cache_get_ok [OF assms(1), of k'] less [of k'] less [of k] held [of k'] that
    by (simp add: home c'(3) pos)
  ultimately show ?thesis using c'(1) by blast
qed

theorem cache_get_after_set_witness:
  "\<exists>c c'. cache_create True True True 0 = Ptr c \<and> cache_set mem_ok c ''posix/io/rw/read'' (Ptr (7 :: nat)) = Some (True, c')
     \<and> cache_get c' ''posix/io/rw/read'' = Some (True, Ptr 7)"
proof -
  obtain c :: "nat cache" where c: "cache_create True True True 0 = Ptr c" by (simp add: cache_create_def hash_create_def)
  from cache_get_after_set [OF cache_create_inv(1) [OF c], of mem_ok "''posix/io/rw/read''" "Ptr 7"] c
  show ?thesis by auto
qed

end
