(* ===== verification/Wtable.thy ===== *)
theory Wtable
  imports Cache
begin

text \<open>
  The wildcard table of libfiu/wtable.c: exact names are kept in a hash table, names that end in
  an asterisk in a dynamic array that is walked in order, and a cache remembers what walks of the
  array have found. The definitions follow the C functions of the same names (\<open>resize_table\<close> is
  \<open>wtable_resize_table\<close>).
\<close>

subsection \<open>State\<close>

record 'v wentry =
  w_key :: "string ptr"
  w_key_len :: nat
  w_value :: "'v ptr"
  w_in_use :: bool

text \<open>\<open>w_released\<close> lists what the destructor has released when it was called for cells of the array;
  \<open>finals\<close> keeps its own list.\<close>

record 'v wtable =
  finals :: "'v hash"
  wildcards :: "'v wentry list ptr"
  ws_size :: nat
  ws_used_count :: nat
  wcache :: "'v cache"
  w_destructor :: "'v destructor ptr"
  w_released :: "'v ptr list"

definition W_MIN_SIZE :: nat where "W_MIN_SIZE = 10"

definition zero_wentry :: "'v wentry" where
  "zero_wentry = \<lparr>w_key = NULL, w_key_len = 0, w_value = NULL, w_in_use = False\<rparr>"

text \<open>The seven allocations of \<open>wtable_create\<close>, in order: the table, the two of \<open>hash_create\<close>, the array,
  the three of \<open>cache_create\<close>. Each failure ends at the label \<open>error\<close>, which frees what there is.\<close>

definition wtable_create :: "bool \<Rightarrow> bool \<Rightarrow> bool \<Rightarrow> bool \<Rightarrow> bool \<Rightarrow> bool \<Rightarrow> bool \<Rightarrow> nat
    \<Rightarrow> 'v destructor ptr \<Rightarrow> 'v wtable ptr" where
  "wtable_create malloc_t fin1 fin2 malloc_ws c1 c2 c3 junk d =
     (if \<not> malloc_t then NULL
      else case hash_create fin1 fin2 d of NULL \<Rightarrow> NULL
      | Ptr f \<Rightarrow>
        (if \<not> malloc_ws then NULL
         else case cache_create c1 c2 c3 junk of NULL \<Rightarrow> NULL
         | Ptr c \<Rightarrow> Ptr \<lparr>finals = f, wildcards = Ptr (replicate W_MIN_SIZE zero_wentry), ws_size = W_MIN_SIZE,
                       ws_used_count = 0, wcache = c, w_destructor = d, w_released = []\<rparr>))"

subsection \<open>Matching\<close>

text \<open>How many characters \<open>s1\<close> and \<open>s2\<close> have in common at the start.\<close>

fun strlast :: "string \<Rightarrow> string \<Rightarrow> nat" where
  "strlast (x # s1) (y # s2) = (if x = y then Suc (strlast s1 s2) else 0)"
| "strlast s1 s2 = 0"

text \<open>\<open>s[len - 1] == '*'\<close>: the terminating zero byte may be read, what is before the string may not.\<close>

definition is_wildcard :: "string \<Rightarrow> nat \<Rightarrow> bool option" where
  "is_wildcard s len =
     (if len = 0 then None else map_option ((=) (CHR ''*'')) (c_nth (s @ [CHR 0x00]) (len - 1)))"

definition ws_matches_s :: "string ptr \<Rightarrow> nat \<Rightarrow> string ptr \<Rightarrow> nat \<Rightarrow> bool \<Rightarrow> bool option" where
  "ws_matches_s wsp ws_len sp s_len exact =
     (case (wsp, sp) of
        (Ptr ws, Ptr s) \<Rightarrow> do {
          inexact \<leftarrow> (if exact then Some False else is_wildcard ws ws_len);
          Some (if \<not> inexact then ws_len = s_len \<and> ws = s
                else size_sub ws_len 1 \<le> strlast ws s) }
      | _ \<Rightarrow> Some False)"

definition wentry_at :: "'v wtable \<Rightarrow> nat \<Rightarrow> 'v wentry option" where
  "wentry_at t pos = do { ws \<leftarrow> deref (wildcards t); c_nth ws pos }"

definition put_wentry :: "'v wtable \<Rightarrow> nat \<Rightarrow> 'v wentry \<Rightarrow> 'v wtable option" where
  "put_wentry t pos e = do {
     ws \<leftarrow> deref (wildcards t);
     ws' \<leftarrow> c_update ws pos e;
     Some (t\<lparr>wildcards := Ptr ws'\<rparr>) }"

text \<open>The loop of \<open>wildcards_find_entry\<close>: \<open>n\<close> iterations are left, \<open>pos\<close> is the loop's index, \<open>free\<close> what
  \<open>*first_free\<close> points to so far (nothing is stored there if the caller passed NULL, that
  is, if \<open>want_free\<close> is false). The result is the position of the entry, if there is one, and \<open>free\<close>.\<close>

fun wildcards_find_loop :: "nat \<Rightarrow> 'v wtable \<Rightarrow> string \<Rightarrow> bool \<Rightarrow> bool \<Rightarrow> nat option \<Rightarrow> nat
    \<Rightarrow> (nat option \<times> nat option) option" where
  "wildcards_find_loop 0 t key exact want_free free pos = Some (None, free)"
| "wildcards_find_loop (Suc n) t key exact want_free free pos = do {
     e \<leftarrow> wentry_at t pos;
     if \<not> w_in_use e then
       wildcards_find_loop n t key exact want_free
         (if free = None \<and> want_free then Some pos else free) (pos + 1)
     else do {
       m \<leftarrow> ws_matches_s (w_key e) (w_key_len e) (Ptr key) (length key) exact;
       if m then Some (Some pos, free)
       else wildcards_find_loop n t key exact want_free free (pos + 1) } }"

definition wildcards_find_entry :: "'v wtable \<Rightarrow> string \<Rightarrow> bool \<Rightarrow> bool \<Rightarrow> (nat option \<times> nat option) option" where
  "wildcards_find_entry t key exact want_free =
     wildcards_find_loop (ws_size t) t key exact want_free None 0"

subsection \<open>Operations\<close>

definition wtable_get :: "mem \<Rightarrow> 'v wtable \<Rightarrow> string \<Rightarrow> ('v ptr \<times> 'v wtable) option" where
  "wtable_get mem t key = do {
     value \<leftarrow> hash_get (finals t) key;
     if \<not> is_null value then Some (value, t)
     else do {
       (hit, cached) \<leftarrow> cache_get (wcache t) key;
       if hit then Some (cached, t)
       else do {
         (found, _) \<leftarrow> wildcards_find_entry t key False False;
         value \<leftarrow> (case found of None \<Rightarrow> Some NULL | Some p \<Rightarrow> map_option w_value (wentry_at t p));
         (_, c) \<leftarrow> cache_set mem (wcache t) key value;
         Some (value, t\<lparr>wcache := c\<rparr>) } } }"

text \<open>A call through the function pointer \<open>t->destructor\<close>.\<close>

definition w_destroy :: "'v wtable \<Rightarrow> 'v ptr \<Rightarrow> 'v wtable option" where
  "w_destroy t v = do { d \<leftarrow> deref (w_destructor t); Some (t\<lparr>w_released := w_released t @ d v\<rparr>) }"

definition wildcards_set :: "'v wtable \<Rightarrow> string ptr \<Rightarrow> 'v ptr \<Rightarrow> (bool \<times> 'v wtable) option" where
  "wildcards_set t key v = do {
     k \<leftarrow> deref key;
     (entry, first_free) \<leftarrow> wildcards_find_entry t k True True;
     case entry of
       Some p \<Rightarrow> do {
         e \<leftarrow> wentry_at t p;
         t1 \<leftarrow> w_destroy t (w_value e);
         t2 \<leftarrow> put_wentry t1 p (e\<lparr>w_key := key, w_value := v\<rparr>);
         Some (True, t2) }
     | None \<Rightarrow>
         (case first_free of
            Some p \<Rightarrow> do {
              t1 \<leftarrow> put_wentry t p \<lparr>w_key = key, w_key_len = length k, w_value = v, w_in_use = True\<rparr>;
              Some (True, t1\<lparr>ws_used_count := ws_used_count t1 + 1\<rparr>) }
          | None \<Rightarrow> Some (False, t)) }"

fun rewild_loop :: "'v wentry list \<Rightarrow> 'v wtable \<Rightarrow> 'v wtable option" where
  "rewild_loop [] t = Some t"
| "rewild_loop (e # old) t =
     (if w_in_use e then do {
        (_, t') \<leftarrow> wildcards_set t (w_key e) (w_value e);
        rewild_loop old t' }
      else rewild_loop old t)"

definition wtable_resize_table :: "mem \<Rightarrow> 'v wtable \<Rightarrow> nat \<Rightarrow> (bool \<times> 'v wtable) option" where
  "wtable_resize_table mem t new_size =
     (if new_size < W_MIN_SIZE then Some (True, t)
      else if \<not> mem A_wtable_entries then Some (False, t\<lparr>wildcards := NULL\<rparr>)
      else do {
        old_wildcards \<leftarrow> deref (wildcards t);
        old \<leftarrow> c_prefix (ws_size t) old_wildcards;
        t1 \<leftarrow> rewild_loop old (t\<lparr>wildcards := Ptr (replicate new_size zero_wentry), ws_size := new_size,
                                ws_used_count := 0\<rparr>);
        (_, c) \<leftarrow> cache_resize mem (wcache t1) new_size;
        Some (True, t1\<lparr>wcache := c\<rparr>) })"

definition wtable_set :: "mem \<Rightarrow> 'v wtable \<Rightarrow> string \<Rightarrow> 'v ptr \<Rightarrow> (bool \<times> 'v wtable) option" where
  "wtable_set mem t key v = do {
     wild \<leftarrow> is_wildcard key (length key);
     if wild then do {
       (ok, t1) \<leftarrow> (if size_sub (ws_size t) (ws_used_count t) \<le> 1
                  then wtable_resize_table mem t (f64_grow (ws_size t)) else Some (True, t));
       if \<not> ok then Some (False, t1)
       else do {
         (_, c) \<leftarrow> cache_invalidate (wcache t1);
         wildcards_set (t1\<lparr>wcache := c\<rparr>) (strdup mem A_wtable_key key) v } }
     else do {
       (r, h) \<leftarrow> hash_set mem (finals t) key v;
       Some (r, t\<lparr>finals := h\<rparr>) } }"

definition wtable_del :: "mem \<Rightarrow> 'v wtable \<Rightarrow> string \<Rightarrow> (bool \<times> 'v wtable) option" where
  "wtable_del mem t key = do {
     wild \<leftarrow> is_wildcard key (length key);
     if wild then do {
       (entry, _) \<leftarrow> wildcards_find_entry t key True False;
       case entry of
         None \<Rightarrow> Some (False, t)
       | Some p \<Rightarrow> do {
           e \<leftarrow> wentry_at t p;
           t1 \<leftarrow> w_destroy t (w_value e);
           t2 \<leftarrow> put_wentry t1 p \<lparr>w_key = NULL, w_key_len = 0, w_value = NULL, w_in_use = False\<rparr>;
           let t3 = t2\<lparr>ws_used_count := size_sub (ws_used_count t2) 1\<rparr>;
           (ok, t4) \<leftarrow> (if W_MIN_SIZE < ws_size t3 \<and> f32_ratio (ws_used_count t3) (ws_size t3) < d_0_6
                      then wtable_resize_table mem t3 (ws_used_count t3 + 3) else Some (True, t3));
           if \<not> ok then Some (False, t4)
           else do {
             (_, c) \<leftarrow> cache_invalidate (wcache t4);
             Some (True, t4\<lparr>wcache := c\<rparr>) } } }
     else do {
       (r, h) \<leftarrow> hash_del mem (finals t) key;
       Some (r, t\<lparr>finals := h\<rparr>) } }"

fun wfree_loop :: "'v wentry list \<Rightarrow> 'v wtable \<Rightarrow> 'v wtable option" where
  "wfree_loop [] t = Some t"
| "wfree_loop (e # es) t =
     (if w_in_use e then do { t' \<leftarrow> w_destroy t (w_value e); wfree_loop es t' } else wfree_loop es t)"

text \<open>What the destructors have released in the operation that led from \<open>t\<close> to \<open>t'\<close>.\<close>

definition newly_released :: "'v wtable \<Rightarrow> 'v wtable \<Rightarrow> 'v ptr list" where
  "newly_released t t' = drop (length (released (finals t))) (released (finals t'))
     @ drop (length (w_released t)) (w_released t')"

text \<open>\<open>wtable_free\<close>: everything the destructors have released when the table is gone.\<close>

definition wtable_free :: "'v wtable \<Rightarrow> 'v ptr list option" where
  "wtable_free t = do {
     rs \<leftarrow> hash_free (finals t);
     _ \<leftarrow> cache_free (wcache t);
     all \<leftarrow> deref (wildcards t);
     es \<leftarrow> c_prefix (ws_size t) all;
     t' \<leftarrow> wfree_loop es t;
     Some (rs @ w_released t') }"

end
