(* ===== verification/Wtable_Correct.thy ===== *)
theory Wtable_Correct
  imports Wtable
begin

text \<open>
  Correctness of the wildcard table. The walk of the array finds the first matching entry; with it
  the table is a map from names and patterns to values (interface \<open>str_table\<close>), a lookup answers as
  the map of patterns says (interface \<open>pattern_table\<close>), and no answer depends on what the cache holds.
\<close>

subsection \<open>Matching\<close>

lemma strlast_ge: "n \<le> strlast s1 s2 \<longleftrightarrow> n \<le> length s1 \<and> n \<le> length s2 \<and> take n s1 = take n s2"
proof (induction s1 s2 arbitrary: n rule: strlast.induct)
  case (1 x s1 y s2)
  then show ?case by (cases n) auto
qed auto

lemma is_wildcard_length: "s \<noteq> [] \<Longrightarrow> is_wildcard s (length s) = Some (is_pat s)"
  by (auto simp: is_wildcard_def is_pat_def c_nth_def last_conv_nth nth_append)

lemma is_wildcard_empty: "is_wildcard [] (length []) = None"
  by (simp add: is_wildcard_def)

text \<open>An entry as the table keeps it: a pattern with its length.\<close>

definition wents_ok :: "'v wentry list \<Rightarrow> bool" where
  "wents_ok ws \<longleftrightarrow> (\<forall>e\<in>set ws. w_in_use e \<longrightarrow> (\<exists>p. w_key e = Ptr p \<and> w_key_len e = length p \<and> is_pat p))"

definition wholds :: "string \<Rightarrow> 'v wentry \<Rightarrow> bool" where
  "wholds k e \<longleftrightarrow> w_in_use e \<and> w_key e = Ptr k"

definition wmatches :: "string \<Rightarrow> 'v wentry \<Rightarrow> bool" where
  "wmatches k e \<longleftrightarrow> w_in_use e \<and> (\<exists>p. w_key e = Ptr p \<and> pat_matches p k)"

definition wtest :: "bool \<Rightarrow> string \<Rightarrow> 'v wentry \<Rightarrow> bool" where
  "wtest exact k e = (if exact then wholds k e else wmatches k e)"

lemma wtest_in_use: "wtest x k e \<Longrightarrow> w_in_use e"
  by (auto simp: wtest_def wholds_def wmatches_def split: if_splits)

lemma butlast_prefix_iff: "p \<noteq> [] \<Longrightarrow> prefix (butlast p) s \<longleftrightarrow> length p - 1 \<le> strlast p s"
proof -
  assume "p \<noteq> []"
  define n where "n = length p - 1"
  have b: "butlast p = take n p" "length (butlast p) = n" by (simp_all add: n_def butlast_conv_take)
  have "prefix (butlast p) s \<longleftrightarrow> n \<le> length s \<and> take n s = butlast p"
  proof
    assume "n \<le> length s \<and> take n s = butlast p"
    then show "prefix (butlast p) s" by (metis take_is_prefix)
  qed (use b(2) in \<open>auto simp: prefix_def\<close>)
  then show ?thesis using b(1) by (auto simp: strlast_ge n_def)
qed

lemma ws_matches_s_ok:
  assumes "wents_ok ws" and "e \<in> set ws" and "w_in_use e"
  shows "ws_matches_s (w_key e) (w_key_len e) (Ptr k) (length k) exact = Some (wtest exact k e)"
proof -
  from assms obtain p where p: "w_key e = Ptr p" "w_key_len e = length p" "is_pat p"
    by (auto simp: wents_ok_def)
  then have "p \<noteq> []" by (simp add: is_pat_def)
  then show ?thesis
    using p assms(3) is_wildcard_length [of p]
    by (auto simp: ws_matches_s_def wtest_def wholds_def wmatches_def pat_matches_def butlast_prefix_iff
        size_sub_le Suc_leI)
qed

subsection \<open>The walk of the array\<close>

fun scan :: "('v wentry \<Rightarrow> bool) \<Rightarrow> bool \<Rightarrow> 'v wentry list \<Rightarrow> nat option \<Rightarrow> nat \<Rightarrow> nat option \<times> nat option" where
  "scan m want [] free pos = (None, free)"
| "scan m want (e # es) free pos =
     (if m e then (Some pos, free)
      else scan m want es (if \<not> w_in_use e \<and> free = None \<and> want then Some pos else free) (pos + 1))"

definition warray :: "'v wtable \<Rightarrow> 'v wentry list" where
  "warray t = (case wildcards t of NULL \<Rightarrow> [] | Ptr ws \<Rightarrow> ws)"

definition warray_ok :: "'v wtable \<Rightarrow> bool" where
  "warray_ok t \<longleftrightarrow> wildcards t = Ptr (warray t) \<and> ws_size t = length (warray t) \<and> wents_ok (warray t)"

lemma wildcards_find_loop_scan:
  assumes "warray_ok t" and "n + pos = length (warray t)"
  shows "wildcards_find_loop n t k exact want free pos =
    Some (scan (wtest exact k) want (drop pos (warray t)) free pos)"
  using assms(2)
proof (induction n arbitrary: free pos)
  case (Suc n)
  then have pos: "pos < length (warray t)" by simp
  have at: "wentry_at t pos = Some (warray t ! pos)"
    using assms(1) pos by (auto simp: warray_ok_def wentry_at_def c_run)
  have m: "w_in_use (warray t ! pos) \<Longrightarrow>
    ws_matches_s (w_key (warray t ! pos)) (w_key_len (warray t ! pos)) (Ptr k) (length k) exact
      = Some (wtest exact k (warray t ! pos))"
    using assms(1) pos ws_matches_s_ok [of "warray t" "warray t ! pos"] by (auto simp: warray_ok_def)
  have "drop pos (warray t) = warray t ! pos # drop (Suc pos) (warray t)"
    using pos by (simp add: Cons_nth_drop_Suc)
  then show ?case
    using at m Suc wtest_in_use [of exact k "warray t ! pos"] by auto
qed simp

lemma wildcards_find_entry_scan:
  "warray_ok t \<Longrightarrow> wildcards_find_entry t k exact want = Some (scan (wtest exact k) want (warray t) None 0)"
  using wildcards_find_loop_scan [of t "ws_size t" 0 k exact want None]
  by (simp add: wildcards_find_entry_def warray_ok_def)

lemma scan_found:
  "fst (scan m want es free pos) = Some p \<Longrightarrow>
    \<exists>i<length es. p = pos + i \<and> m (es ! i) \<and> (\<forall>j<i. \<not> m (es ! j))"
proof (induction es arbitrary: free pos)
  case (Cons e es)
  show ?case
  proof (cases "m e")
    case True
    with Cons.prems show ?thesis by (auto intro!: exI [of _ 0])
  next
    case False
    with Cons obtain i where "i < length es" "p = pos + Suc i" "m (es ! i)" "\<forall>j<i. \<not> m (es ! j)"
      by fastforce
    with False show ?thesis by (auto simp: All_less_Suc2 intro!: exI [of _ "Suc i"])
  qed
qed simp

lemma scan_none: "fst (scan m want es free pos) = None \<longleftrightarrow> (\<forall>e\<in>set es. \<not> m e)"
  by (induction es arbitrary: free pos) auto

lemma scan_free:
  assumes "\<forall>e\<in>set es. \<not> m e"
  shows "snd (scan m True es None pos) =
    (if \<forall>e\<in>set es. w_in_use e then None else Some (pos + length (takeWhile w_in_use es)))"
proof -
  have fr: "snd (scan m True es (Some q) pos) = Some q" if "\<forall>e\<in>set es. \<not> m e" for es q pos
    using that by (induction es arbitrary: pos) auto
  show ?thesis using assms
    by (induction es arbitrary: pos) (auto simp: fr)
qed

subsection \<open>What the array says about a name\<close>

definition wild_lookup :: "'v wentry list \<Rightarrow> string \<Rightarrow> 'v ptr" where
  "wild_lookup ws k = (case find (wmatches k) ws of None \<Rightarrow> NULL | Some e \<Rightarrow> w_value e)"

definition wild_map :: "'v wentry list \<Rightarrow> string \<rightharpoonup> 'v ptr" where
  "wild_map ws k = map_option w_value (find (wholds k) ws)"

lemma scan_find:
  "map_option (\<lambda>p. es ! (p - pos)) (fst (scan m want es free pos)) = find m es"
proof (cases "fst (scan m want es free pos)")
  case None
  then have "\<forall>e\<in>set es. \<not> m e" by (simp add: scan_none)
  then have "find m es = None" by (simp add: find_None_iff)
  with None show ?thesis by simp
next
  case (Some p)
  from scan_found [OF this] obtain i where "i < length es" "p = pos + i" "m (es ! i)" "\<forall>j<i. \<not> m (es ! j)" by blast
  then have "find m es = Some (es ! i)" by (auto simp: find_Some_iff)
  with Some \<open>p = pos + i\<close> show ?thesis by simp
qed


lemma wentry_at_ok [c_run]: "warray_ok t \<Longrightarrow> p < length (warray t) \<Longrightarrow> wentry_at t p = Some (warray t ! p)"
  by (auto simp: warray_ok_def wentry_at_def c_run)

lemma put_wentry_ok [c_run]:
  "wildcards t = Ptr ws \<Longrightarrow> p < length ws \<Longrightarrow> put_wentry t p e = Some (t\<lparr>wildcards := Ptr (ws[p := e])\<rparr>)"
  by (simp add: put_wentry_def c_run)

text \<open>The part of \<open>wtable_get\<close> that walks the array.\<close>

lemma wildcards_walk:
  assumes "warray_ok t"
  shows "\<exists>p f. wildcards_find_entry t k False False = Some (p, f) \<and>
    (case p of None \<Rightarrow> Some NULL | Some p \<Rightarrow> map_option w_value (wentry_at t p)) = Some (wild_lookup (warray t) k)"
proof -
  define r where "r = scan (wtest False k) False (warray t) None 0"
  have w: "wtest False k = wmatches k" by (simp add: wtest_def fun_eq_iff)
  have find: "map_option ((!) (warray t)) (fst r) = find (wmatches k) (warray t)"
    using scan_find [of "warray t" 0 "wmatches k" False None] by (simp add: r_def w)
  have "(case fst r of None \<Rightarrow> Some NULL | Some p \<Rightarrow> map_option w_value (wentry_at t p)) = Some (wild_lookup (warray t) k)"
  proof (cases "fst r")
    case None
    with find show ?thesis by (simp add: wild_lookup_def)
  next
    case (Some p)
    then have "p < length (warray t)" using scan_found [of "wtest False k" False "warray t" None 0 p] by (auto simp: r_def)
    then have "wentry_at t p = Some (warray t ! p)" by (rule wentry_at_ok [OF assms])
    moreover have "find (wmatches k) (warray t) = Some (warray t ! p)" using find Some by simp
    ultimately show ?thesis using Some by (simp add: wild_lookup_def)
  qed
  then show ?thesis
    using wildcards_find_entry_scan [OF assms, of k False False] by (metis r_def prod.collapse)
qed

subsection \<open>The invariant\<close>

definition wunique :: "'v wentry list \<Rightarrow> bool" where
  "wunique ws \<longleftrightarrow> (\<forall>i<length ws. \<forall>j<length ws. \<forall>k. wholds k (ws ! i) \<longrightarrow> wholds k (ws ! j) \<longrightarrow> i = j)"

definition wcount :: "'v wentry list \<Rightarrow> nat" where
  "wcount ws = length (filter w_in_use ws)"

text \<open>The array is well-formed and has a free cell. With \<open>coherent\<close> this is the invariant of the table.\<close>

definition wild_wf :: "'v wtable \<Rightarrow> bool" where
  "wild_wf t \<longleftrightarrow> warray_ok t \<and> wunique (warray t) \<and> ws_used_count t = wcount (warray t)
     \<and> W_MIN_SIZE \<le> ws_size t \<and> w_destructor t \<noteq> NULL"

definition finals_ok :: "'v wtable \<Rightarrow> bool" where
  "finals_ok t \<longleftrightarrow> hash_inv (finals t) \<and> w_destructor t = Ptr (destructor (finals t))
     \<and> (\<forall>k \<in> dom (hash_abs (finals t)). \<not> is_pat k)"

definition cache_coherent :: "'v wtable \<Rightarrow> bool" where
  "cache_coherent t \<longleftrightarrow> wcache.coherent (wild_lookup (warray t)) (wcache t)"

definition wtable_inv :: "'v wtable \<Rightarrow> bool" where
  "wtable_inv t \<longleftrightarrow> finals_ok t \<and> wild_wf t \<and> ws_used_count t < ws_size t \<and> cache_coherent t"

definition wtable_abs :: "'v wtable \<Rightarrow> string \<rightharpoonup> 'v ptr" where
  "wtable_abs t k = (if is_pat k then wild_map (warray t) k else hash_abs (finals t) k)"

lemma wuniqueD: "wunique ws \<Longrightarrow> i < length ws \<Longrightarrow> j < length ws \<Longrightarrow> wholds k (ws ! i) \<Longrightarrow> wholds k (ws ! j) \<Longrightarrow> i = j"
  by (auto simp: wunique_def)

lemma wild_map_None: "wild_map ws k = None \<longleftrightarrow> (\<forall>i<length ws. \<not> wholds k (ws ! i))"
  by (auto simp: wild_map_def find_None_iff in_set_conv_nth)

lemma wild_map_at:
  assumes "wunique ws" and "i < length ws" and "wholds k (ws ! i)"
  shows "wild_map ws k = Some (w_value (ws ! i))"
proof -
  have "wild_map ws k \<noteq> None" using assms by (auto simp: wild_map_None)
  then obtain e where e: "find (wholds k) ws = Some e" by (auto simp: wild_map_def)
  then obtain j where "j < length ws" "wholds k (ws ! j)" "e = ws ! j" by (auto simp: find_Some_iff)
  then show ?thesis using e wuniqueD [OF assms(1)] assms(2,3) by (auto simp: wild_map_def)
qed

lemma wild_map_Some: "wild_map ws k = Some v \<Longrightarrow> \<exists>i<length ws. wholds k (ws ! i) \<and> v = w_value (ws ! i)"
  by (auto simp: wild_map_def find_Some_iff)

lemma wents_okD:
  assumes "wents_ok ws" and "i < length ws" and "w_in_use (ws ! i)"
  shows "\<exists>p. w_key (ws ! i) = Ptr p \<and> w_key_len (ws ! i) = length p \<and> is_pat p"
  using assms nth_mem [of i ws] by (auto simp: wents_ok_def)

lemma wild_lookup_cases:
  assumes "wents_ok ws" and "wunique ws"
  shows "if \<exists>p \<in> dom (wild_map ws). pat_matches p k
    then \<exists>p. pat_matches p k \<and> wild_map ws p = Some (wild_lookup ws k) else wild_lookup ws k = NULL"
proof (cases "find (wmatches k) ws")
  case None
  have "\<not> pat_matches p k" if "p \<in> dom (wild_map ws)" for p
    using that None wild_map_Some [of ws p]
    by (fastforce simp: find_None_iff wmatches_def wholds_def in_set_conv_nth)
  with None show ?thesis by (auto simp: wild_lookup_def)
next
  case (Some e)
  then obtain i where i: "i < length ws" "wmatches k (ws ! i)" "e = ws ! i" by (auto simp: find_Some_iff)
  then obtain p where p: "wholds p (ws ! i)" "pat_matches p k" by (auto simp: wmatches_def wholds_def)
  have "wild_map ws p = Some (wild_lookup ws k)"
    using wild_map_at [OF assms(2) i(1) p(1)] Some i(3) by (simp add: wild_lookup_def)
  with p(2) show ?thesis by auto
qed

lemma wild_map_pat: "wents_ok ws \<Longrightarrow> wild_map ws k \<noteq> None \<Longrightarrow> is_pat k"
  using wild_map_Some wents_okD by (fastforce simp: wholds_def)

lemma scan_free_none: "snd (scan m False es None pos) = None"
  by (induction es arbitrary: pos) auto

subsection \<open>Lookup\<close>

text \<open>What a lookup without the cache would answer.\<close>

definition wtable_answer :: "'v wtable \<Rightarrow> string \<Rightarrow> 'v ptr" where
  "wtable_answer t k = (case hash_abs (finals t) k of
     Some (Ptr v) \<Rightarrow> Ptr v | _ \<Rightarrow> wild_lookup (warray t) k)"

lemma warray_wcache [simp]: "warray (t\<lparr>wcache := c\<rparr>) = warray t"
  by (simp add: warray_def)

lemma warray_finals [simp]: "warray (t\<lparr>finals := f\<rparr>) = warray t"
  by (simp add: warray_def)

lemma warray_wild [simp]: "warray (t\<lparr>wildcards := Ptr ws\<rparr>) = ws"
  by (simp add: warray_def)

lemma warray_counts [simp]:
  "warray (t\<lparr>ws_used_count := n\<rparr>) = warray t" "warray (t\<lparr>ws_size := n\<rparr>) = warray t"
  "warray (t\<lparr>w_released := r\<rparr>) = warray t"
  by (simp_all add: warray_def)

lemma wtable_get_ok:
  assumes "wtable_inv t"
  shows "\<exists>c. wtable_get mem_ok t k = Some (wtable_answer t k, t\<lparr>wcache := c\<rparr>)
    \<and> wcache.coherent (wild_lookup (warray t)) c"
proof -
  from assms have inv: "hash_inv (finals t)" "warray_ok t" "wcache.coherent (wild_lookup (warray t)) (wcache t)"
    by (auto simp: wtable_inv_def finals_ok_def wild_wf_def cache_coherent_def)
  have same: "t\<lparr>wcache := wcache t\<rparr> = t" by simp
  have get: "hash_get (finals t) k = Some (case hash_abs (finals t) k of None \<Rightarrow> NULL | Some v \<Rightarrow> v)"
    by (rule hash_get_inv [OF inv(1)])
  show ?thesis
  proof (cases "\<exists>v. hash_abs (finals t) k = Some (Ptr v)")
    case True
    with get inv(3) same show ?thesis by (auto simp: wtable_get_def wtable_answer_def intro!: exI [of _ "wcache t"])
  next
    case False
    then have ans: "wtable_answer t k = wild_lookup (warray t) k"
      by (auto simp: wtable_answer_def split: option.splits ptr.splits)
    have null: "hash_get (finals t) k = Some NULL"
      using False get by (auto split: option.splits) (metis ptr.exhaust)
    obtain hit v where hit: "cache_get (wcache t) k = Some (hit, v)"
      using inv(3) wcache.get_law by (metis wcache.coherent_def)
    show ?thesis
    proof (cases hit)
      case True
      with hit wcache.coherent_hit [OF inv(3)] have "v = wild_lookup (warray t) k" by simp
      with True hit null ans inv(3) same show ?thesis by (auto simp: wtable_get_def intro!: exI [of _ "wcache t"])
    next
      case False
      obtain p f where walk: "wildcards_find_entry t k False False = Some (p, f)"
        "(case p of None \<Rightarrow> Some NULL | Some p \<Rightarrow> map_option w_value (wentry_at t p)) = Some (wild_lookup (warray t) k)"
        using wildcards_walk [OF inv(2)] by blast
      obtain c where "cache_set mem_ok (wcache t) k (wild_lookup (warray t) k) = Some (True, c)"
        "wcache.coherent (wild_lookup (warray t)) c"
        using wcache.coherent_set [OF inv(3)] by blast
      with False hit null ans walk show ?thesis by (auto simp: wtable_get_def)
    qed
  qed
qed

lemma wtable_inv_cache:
  "wtable_inv t \<Longrightarrow> wcache.coherent (wild_lookup (warray t)) c \<Longrightarrow> wtable_inv (t\<lparr>wcache := c\<rparr>)"
  by (simp add: wtable_inv_def finals_ok_def wild_wf_def warray_ok_def cache_coherent_def)

lemma wtable_abs_cache [simp]: "wtable_abs (t\<lparr>wcache := c\<rparr>) = wtable_abs t"
  by (simp add: wtable_abs_def fun_eq_iff)

lemma pat_matches_pat: "pat_matches p k \<Longrightarrow> is_pat p"
  by (simp add: pat_matches_def)

lemma wtable_answer_pattern:
  assumes "wtable_inv t"
  shows "pattern_answer (wtable_abs t) k (wtable_answer t k)"
proof -
  from assms have wf: "wents_ok (warray t)" "wunique (warray t)" and fin: "\<forall>k \<in> dom (hash_abs (finals t)). \<not> is_pat k"
    by (auto simp: wtable_inv_def wild_wf_def warray_ok_def finals_ok_def)
  have m: "wtable_abs t p = wild_map (warray t) p" if "pat_matches p k" for p
    using pat_matches_pat [OF that] by (simp add: wtable_abs_def)
  have ex: "(\<exists>p \<in> dom (wtable_abs t). pat_matches p k) \<longleftrightarrow> (\<exists>p \<in> dom (wild_map (warray t)). pat_matches p k)"
    using m by (metis domIff)
  have vals: "(\<exists>p. pat_matches p k \<and> wtable_abs t p = Some r) \<longleftrightarrow> (\<exists>p. pat_matches p k \<and> wild_map (warray t) p = Some r)" for r
    using m by metis
  note look = wild_lookup_cases [OF wf, of k]
  show ?thesis
  proof (cases "\<not> is_pat k \<and> wtable_abs t k \<noteq> None \<and> wtable_abs t k \<noteq> Some NULL")
    case True
    then obtain v where "hash_abs (finals t) k = Some (Ptr v)"
      by (auto simp: wtable_abs_def) (metis ptr.exhaust)
    with True show ?thesis by (auto simp: pattern_answer_def wtable_answer_def wtable_abs_def)
  next
    case False
    have "wtable_answer t k = wild_lookup (warray t) k"
    proof (cases "hash_abs (finals t) k")
      case (Some v)
      with fin have "\<not> is_pat k" by blast
      with Some False have "v = NULL" by (simp add: wtable_abs_def)
      with Some show ?thesis by (simp add: wtable_answer_def)
    qed (simp add: wtable_answer_def)
    with False look ex vals show ?thesis unfolding pattern_answer_def by (metis (lifting))
  qed
qed

subsection \<open>Writing a cell\<close>

lemma wholds_inj: "wholds k e \<Longrightarrow> wholds k' e \<Longrightarrow> k' = k"
  by (simp add: wholds_def)

lemma zero_wentry_free [simp]: "\<not> w_in_use zero_wentry"
  by (simp add: zero_wentry_def)

lemma wholds_free: "\<not> w_in_use e \<Longrightarrow> \<not> wholds k e"
  by (simp add: wholds_def)

lemma wents_ok_update:
  "wents_ok ws \<Longrightarrow> (w_in_use e \<Longrightarrow> \<exists>p. w_key e = Ptr p \<and> w_key_len e = length p \<and> is_pat p) \<Longrightarrow> wents_ok (ws[i := e])"
  using set_update_subset_insert [of ws i e] by (auto simp: wents_ok_def)

lemma wild_map_iff:
  "wunique ws \<Longrightarrow> wild_map ws k = Some v \<longleftrightarrow> (\<exists>i<length ws. wholds k (ws ! i) \<and> v = w_value (ws ! i))"
  using wild_map_Some wild_map_at by metis

lemma wunique_write:
  assumes "wunique ws" and "p < length ws"
    and held: "\<And>k j. wholds k e \<Longrightarrow> j < length ws \<Longrightarrow> wholds k (ws ! j) \<Longrightarrow> j = p"
  shows "wunique (ws[p := e])"
  unfolding wunique_def
proof (intro allI impI)
  fix i j k
  assume a: "i < length (ws[p := e])" "j < length (ws[p := e])" "wholds k (ws[p := e] ! i)" "wholds k (ws[p := e] ! j)"
  show "i = j"
  proof (cases "i = p"; cases "j = p")
    assume "i = p" "j \<noteq> p"
    with a assms(2) held [of k j] show ?thesis by simp
  next
    assume "i \<noteq> p" "j = p"
    with a assms(2) held [of k i] show ?thesis by simp
  next
    assume "i \<noteq> p" "j \<noteq> p"
    with a wuniqueD [OF assms(1)] show ?thesis by simp
  qed simp
qed

lemma wild_map_write:
  assumes "wunique ws" and "p < length ws"
    and "\<And>j. j < length ws \<Longrightarrow> wholds k (ws ! j) \<Longrightarrow> j = p" and "wholds k e"
    and "\<And>k'. wholds k' (ws ! p) \<Longrightarrow> k' = k"
  shows "wunique (ws[p := e])" and "wild_map (ws[p := e]) = (wild_map ws)(k \<mapsto> w_value e)"
proof -
  show u: "wunique (ws[p := e])"
    using assms(3,4) wholds_inj by (intro wunique_write [OF assms(1,2)]) blast
  show "wild_map (ws[p := e]) = (wild_map ws)(k \<mapsto> w_value e)"
  proof
    fix k'
    show "wild_map (ws[p := e]) k' = ((wild_map ws)(k \<mapsto> w_value e)) k'"
    proof (cases "k' = k")
      case True
      with wild_map_at [OF u, of p k] assms(2,4) show ?thesis by simp
    next
      case False
      have "\<not> wholds k' e" using wholds_inj [OF assms(4)] False by blast
      moreover have "\<not> wholds k' (ws ! p)" using assms(5) False by blast
      ultimately have "wild_map (ws[p := e]) k' = Some v \<longleftrightarrow> wild_map ws k' = Some v" for v
        unfolding wild_map_iff [OF u] wild_map_iff [OF assms(1)] using assms(2)
        by (metis length_list_update nth_list_update)
      with False show ?thesis by (metis fun_upd_other not_None_eq)
    qed
  qed
qed

lemma wild_map_clear:
  assumes "wunique ws" and "p < length ws" and "wholds k (ws ! p)" and "\<not> w_in_use e"
  shows "wunique (ws[p := e])" and "wild_map (ws[p := e]) = (wild_map ws)(k := None)"
proof -
  have e: "\<not> wholds k' e" for k' using assms(4) by (simp add: wholds_def)
  show u: "wunique (ws[p := e])"
    using e by (intro wunique_write [OF assms(1,2)]) blast
  show "wild_map (ws[p := e]) = (wild_map ws)(k := None)"
  proof
    fix k'
    show "wild_map (ws[p := e]) k' = ((wild_map ws)(k := None)) k'"
    proof (cases "k' = k")
      case True
      have "\<not> wholds k (ws[p := e] ! j)" if "j < length ws" for j
        using e wuniqueD [OF assms(1) that assms(2), of k] assms(3) that by (cases "j = p") auto
      with True show ?thesis by (simp add: wild_map_None)
    next
      case False
      have "\<not> wholds k' (ws ! p)" using wholds_inj [OF assms(3)] False by blast
      with e have "wild_map (ws[p := e]) k' = Some v \<longleftrightarrow> wild_map ws k' = Some v" for v
        unfolding wild_map_iff [OF u] wild_map_iff [OF assms(1)] using assms(2)
        by (metis length_list_update nth_list_update)
      with False show ?thesis by (metis fun_upd_other not_None_eq)
    qed
  qed
qed

lemma wholds_scan:
  assumes "warray_ok t"
  shows "\<exists>q. wildcards_find_entry t k True w = Some (q, snd (scan (wholds k) w (warray t) None 0)) \<and>
    (case q of None \<Rightarrow> wild_map (warray t) k = None
     | Some p \<Rightarrow> p < length (warray t) \<and> wholds k (warray t ! p))"
proof -
  have w: "wtest True k = wholds k" by (simp add: wtest_def fun_eq_iff)
  define r where "r = scan (wholds k) w (warray t) None 0"
  have "case fst r of None \<Rightarrow> wild_map (warray t) k = None
     | Some p \<Rightarrow> p < length (warray t) \<and> wholds k (warray t ! p)"
    using scan_found [of "wholds k" w "warray t" None 0] scan_none [of "wholds k" w "warray t" None 0]
    by (auto simp: r_def wild_map_None split: option.splits)
  then show ?thesis
    using wildcards_find_entry_scan [OF assms, of k True w] w by (metis r_def prod.collapse)
qed

lemma wild_free:
  "wild_map ws k = None \<Longrightarrow> snd (scan (wholds k) True ws None 0) =
    (if \<forall>e\<in>set ws. w_in_use e then None else Some (length (takeWhile w_in_use ws)))"
  using scan_free [of ws "wholds k" 0] by (auto simp: wild_map_def find_None_iff)

lemma wcount_full: "wcount ws = length ws \<longleftrightarrow> (\<forall>e\<in>set ws. w_in_use e)"
  unfolding wcount_def by (metis filter_True length_filter_less nat_neq_iff)

lemma takeWhile_at:
  assumes "\<not> (\<forall>x\<in>set xs. P x)"
  shows "length (takeWhile P xs) < length xs" and "\<not> P (xs ! length (takeWhile P xs))"
proof -
  show l: "length (takeWhile P xs) < length xs" using assms
    by (metis length_takeWhile_le le_neq_implies_less set_takeWhileD takeWhile_eq_take take_all order_refl)
  show "\<not> P (xs ! length (takeWhile P xs))" using l by (rule nth_length_takeWhile)
qed

text \<open>\<open>wildcards_set\<close> stores the value, in the cell of the pattern if it has one and otherwise in the first
  free cell.\<close>

definition wset_effect :: "'v wtable \<Rightarrow> string \<Rightarrow> 'v ptr \<Rightarrow> 'v wtable \<Rightarrow> bool" where
  "wset_effect t k v t' \<longleftrightarrow> warray_ok t' \<and> wunique (warray t')
     \<and> wild_map (warray t') = (wild_map (warray t))(k \<mapsto> v) \<and> length (warray t') = length (warray t)
     \<and> (\<exists>d. w_destructor t = Ptr d \<and>
         w_released t' = w_released t @ (case wild_map (warray t) k of None \<Rightarrow> [] | Some old \<Rightarrow> d old))
     \<and> finals t' = finals t \<and> wcache t' = wcache t \<and> w_destructor t' = w_destructor t \<and> ws_size t' = ws_size t
     \<and> wcount (warray t') = wcount (warray t) + (if wild_map (warray t) k = None then 1 else 0)
     \<and> ws_used_count t' = ws_used_count t + (if wild_map (warray t) k = None then 1 else 0)
     \<and> image_mset w_value (mset (filter w_in_use (warray t'))) + (case wild_map (warray t) k of None \<Rightarrow> {#} | Some old \<Rightarrow> {#old#})
        = add_mset v (image_mset w_value (mset (filter w_in_use (warray t))))"

lemma image_mset_update:
  assumes "i < length ws"
  shows "image_mset w_value (mset (filter w_in_use (ws[i := e])))
      + (if w_in_use (ws ! i) then {#w_value (ws ! i)#} else {#})
    = image_mset w_value (mset (filter w_in_use ws)) + (if w_in_use e then {#w_value e#} else {#})"
proof -
  note mset_filter_update [OF assms, of w_in_use e, THEN arg_cong [where f = "image_mset w_value"]]
  then show ?thesis by (simp split: if_splits)
qed

lemma wcount_update:
  assumes "i < length ws"
  shows "wcount (ws[i := e]) + (if w_in_use (ws ! i) then 1 else 0) = wcount ws + (if w_in_use e then 1 else 0)"
  unfolding wcount_def using length_filter_update [OF assms] by blast

lemma wildcards_set_ok:
  assumes "warray_ok t" and "wunique (warray t)" and "w_destructor t = Ptr d" and "is_pat k"
    and "wild_map (warray t) k \<noteq> None \<or> wcount (warray t) < length (warray t)"
  shows "\<exists>t'. wildcards_set t (Ptr k) v = Some (True, t') \<and> wset_effect t k v t'"
proof -
  let ?ws = "warray t"
  have arr: "wildcards t = Ptr ?ws" "ws_size t = length ?ws" "wents_ok ?ws"
    using assms(1) by (simp_all add: warray_ok_def)
  obtain q where q: "wildcards_find_entry t k True True = Some (q, snd (scan (wholds k) True ?ws None 0))"
    "case q of None \<Rightarrow> wild_map ?ws k = None | Some p \<Rightarrow> p < length ?ws \<and> wholds k (?ws ! p)"
    using wholds_scan [OF assms(1), of k True] by blast
  show ?thesis
  proof (cases q)
    case (Some p)
    define e where "e = (?ws ! p)\<lparr>w_key := Ptr k, w_value := v\<rparr>"
    define ws' where "ws' = ?ws[p := e]"
    from Some q(2) have p: "p < length ?ws" "wholds k (?ws ! p)" by simp_all
    then have used: "w_in_use (?ws ! p)" "w_key (?ws ! p) = Ptr k" by (simp_all add: wholds_def)
    have e: "wholds k e" "w_value e = v" "w_in_use e" using used by (simp_all add: e_def wholds_def)
    have old: "wild_map ?ws k = Some (w_value (?ws ! p))" by (rule wild_map_at [OF assms(2) p])
    have wr: "wunique ws'" "wild_map ws' = (wild_map ?ws)(k \<mapsto> v)"
      using wild_map_write [OF assms(2) p(1), of k e] wuniqueD [OF assms(2) _ p(1) _ p(2)] e wholds_inj [OF p(2)]
      unfolding ws'_def by blast+
    have ok: "wents_ok ws'" unfolding ws'_def
    proof (rule wents_ok_update [OF arr(3)])
      show "\<exists>p. w_key e = Ptr p \<and> w_key_len e = length p \<and> is_pat p"
        using wents_okD [OF arr(3) p(1) used(1)] used(2) by (auto simp: e_def)
    qed
    have "wcount ws' = wcount ?ws" using wcount_update [OF p(1), of e] used(1) e(3) by (simp add: ws'_def)
    moreover have "image_mset w_value (mset (filter w_in_use ws')) + {#w_value (?ws ! p)#}
        = add_mset v (image_mset w_value (mset (filter w_in_use ?ws)))"
      using image_mset_update [OF p(1), of e] used(1) e(2,3) by (simp add: ws'_def)
    moreover have "length ws' = length ?ws" by (simp add: ws'_def)
    ultimately have "wset_effect t k v (t\<lparr>w_released := w_released t @ d (w_value (?ws ! p)), wildcards := Ptr ws'\<rparr>)"
      using wr ok old arr(2) assms(3) by (simp add: wset_effect_def warray_ok_def warray_def)
    then show ?thesis using Some q(1) arr(1) p(1) assms(1,3)
      by (simp add: wildcards_set_def w_destroy_def c_run e_def ws'_def)
  next
    case None
    define p where "p = length (takeWhile w_in_use ?ws)"
    define e where "e = \<lparr>w_key = Ptr k, w_key_len = length k, w_value = v, w_in_use = True\<rparr>"
    define ws' where "ws' = ?ws[p := e]"
    from None q(2) have no: "wild_map ?ws k = None" by simp
    with assms(5) have "wcount ?ws \<noteq> length ?ws" by simp
    then have notall: "\<not> (\<forall>e\<in>set ?ws. w_in_use e)" by (simp add: wcount_full)
    have p: "p < length ?ws" "\<not> w_in_use (?ws ! p)" unfolding p_def using takeWhile_at [OF notall] by blast+
    have free: "snd (scan (wholds k) True ?ws None 0) = Some p" using wild_free [OF no] notall by (simp add: p_def)
    have e: "wholds k e" "w_value e = v" "w_in_use e" by (simp_all add: e_def wholds_def)
    have wr: "wunique ws'" "wild_map ws' = (wild_map ?ws)(k \<mapsto> v)"
      using wild_map_write [OF assms(2) p(1), of k e] no e wholds_free [OF p(2)]
      unfolding ws'_def wild_map_None by blast+
    have ok: "wents_ok ws'" unfolding ws'_def
      by (rule wents_ok_update [OF arr(3)]) (use assms(4) in \<open>simp add: e_def\<close>)
    have "wcount ws' = wcount ?ws + 1" using wcount_update [OF p(1), of e] p(2) e(3) by (simp add: ws'_def)
    moreover have "image_mset w_value (mset (filter w_in_use ws'))
        = add_mset v (image_mset w_value (mset (filter w_in_use ?ws)))"
      using image_mset_update [OF p(1), of e] p(2) e(2,3) by (simp add: ws'_def)
    moreover have "length ws' = length ?ws" by (simp add: ws'_def)
    ultimately have "wset_effect t k v (t\<lparr>wildcards := Ptr ws', ws_used_count := ws_used_count t + 1\<rparr>)"
      using wr ok no arr(2) assms(3) by (simp add: wset_effect_def warray_ok_def warray_def)
    then show ?thesis using None q(1) free arr(1) p(1)
      by (simp add: wildcards_set_def c_run e_def ws'_def)
  qed
qed

subsection \<open>Moving to another array\<close>

lemma wholds_unused [simp]: "find (wholds k) (replicate n zero_wentry) = None"
  "find (wmatches k) (replicate n zero_wentry) = None"
  by (auto simp: find_None_iff wholds_def wmatches_def)

lemma find_filter_used: "(\<And>e. P e \<Longrightarrow> w_in_use e) \<Longrightarrow> find P (filter w_in_use es) = find P es"
  by (induction es) auto

lemma find_append: "find P (xs @ ys) = (case find P xs of None \<Rightarrow> find P ys | Some x \<Rightarrow> Some x)"
  by (induction xs) auto

definition packed :: "'v wentry list \<Rightarrow> nat \<Rightarrow> 'v wentry list" where
  "packed ws n = filter w_in_use ws @ replicate (n - wcount ws) zero_wentry"

lemma packed_lookup: "wild_lookup (packed ws n) = wild_lookup ws"
  unfolding wild_lookup_def packed_def find_append
  by (subst find_filter_used) (auto simp: wmatches_def fun_eq_iff split: option.split)

lemma packed_map: "wild_map (packed ws n) = wild_map ws"
  unfolding wild_map_def packed_def find_append
  by (subst find_filter_used) (auto simp: wholds_def fun_eq_iff split: option.split)

lemma wunique_Cons: "wunique (e # ws) \<longleftrightarrow> wunique ws \<and> (\<forall>k. wholds k e \<longrightarrow> wild_map ws k = None)"
proof
  assume u: "wunique (e # ws)"
  then have "wunique ws" unfolding wunique_def by (metis Suc_less_eq Suc_inject length_Cons nth_Cons_Suc)
  moreover have "wild_map ws k = None" if "wholds k e" for k
    unfolding wild_map_None
    using wuniqueD [OF u, of 0 "Suc i" k for i] that by (metis Suc_less_eq length_Cons nat.distinct(1) nth_Cons_0 nth_Cons_Suc zero_less_Suc)
  ultimately show "wunique ws \<and> (\<forall>k. wholds k e \<longrightarrow> wild_map ws k = None)" by blast
next
  assume r: "wunique ws \<and> (\<forall>k. wholds k e \<longrightarrow> wild_map ws k = None)"
  show "wunique (e # ws)"
    unfolding wunique_def
  proof (intro allI impI)
    fix i j k
    assume "i < length (e # ws)" "j < length (e # ws)" "wholds k ((e # ws) ! i)" "wholds k ((e # ws) ! j)"
    with r show "i = j"
      by (cases i; cases j) (auto simp: wild_map_None dest: wuniqueD)
  qed
qed

lemma wild_map_Cons: "wild_map (e # ws) k = (if wholds k e then Some (w_value e) else wild_map ws k)"
  by (simp add: wild_map_def)

lemma wild_map_append: "wild_map (xs @ ys) = wild_map ys ++ wild_map xs"
  by (auto simp: wild_map_def find_append map_add_def fun_eq_iff split: option.split)

lemma wunique_append:
  "wunique (xs @ ys) \<longleftrightarrow> wunique xs \<and> wunique ys \<and> dom (wild_map xs) \<inter> dom (wild_map ys) = {}"
proof (induction xs)
  case Nil
  show ?case by (auto simp: wunique_def wild_map_def)
next
  case (Cons e xs)
  have d: "dom (wild_map (e # xs)) = {k. wholds k e} \<union> dom (wild_map xs)"
    by (auto simp: wild_map_Cons split: if_splits)
  show ?case
    using Cons by (auto simp: wunique_Cons wild_map_append d map_add_def split: option.splits)
qed

lemma wild_map_filter: "wild_map (filter w_in_use ws) = wild_map ws"
  unfolding wild_map_def by (subst find_filter_used) (auto simp: wholds_def fun_eq_iff)

lemma wild_map_zero: "wild_map (replicate n zero_wentry) = Map.empty"
  by (simp add: wild_map_def fun_eq_iff)

lemma wunique_filter: "wunique ws \<Longrightarrow> wunique (filter w_in_use ws)"
  by (induction ws) (auto simp: wunique_Cons wild_map_filter)

lemma wunique_zero: "wunique (replicate n zero_wentry)"
  by (auto simp: wunique_def wholds_def)

lemma packed_wunique: "wunique ws \<Longrightarrow> wunique (packed ws n)"
  by (simp add: packed_def wunique_append wunique_filter wunique_zero wild_map_zero)

lemma packed_wents: "wents_ok ws \<Longrightarrow> wents_ok (packed ws n)"
  by (auto simp: packed_def wents_ok_def)

lemma packed_length: "wcount ws \<le> n \<Longrightarrow> length (packed ws n) = n"
  by (simp add: packed_def wcount_def)

lemma packed_filter: "filter w_in_use (packed ws n) = filter w_in_use ws"
  by (simp add: packed_def)

lemma takeWhile_packed: "\<forall>e\<in>set xs. w_in_use e \<Longrightarrow> 0 < m \<Longrightarrow>
    length (takeWhile w_in_use (xs @ replicate m zero_wentry)) = length xs"
  by (cases m) simp_all

text \<open>One pattern of the old array goes to the first free cell of the new one.\<close>

lemma wildcards_set_append:
  assumes "wildcards t = Ptr (xs @ replicate (Suc m) zero_wentry)" and "ws_size t = length xs + Suc m"
    and "\<forall>e\<in>set xs. w_in_use e" and "wents_ok xs" and "wild_map xs k = None"
    and "e = \<lparr>w_key = Ptr k, w_key_len = length k, w_value = v, w_in_use = True\<rparr>"
  shows "wildcards_set t (Ptr k) v =
    Some (True, t\<lparr>wildcards := Ptr ((xs @ [e]) @ replicate m zero_wentry), ws_used_count := ws_used_count t + 1\<rparr>)"
proof -
  let ?ws = "xs @ replicate (Suc m) zero_wentry"
  have arr: "warray t = ?ws" using assms(1) by (simp add: warray_def)
  have ok: "warray_ok t" using assms(1,2,4) by (auto simp: warray_ok_def arr wents_ok_def)
  have no: "wild_map ?ws k = None" using assms(5) by (simp add: wild_map_append wild_map_zero map_add_def del: replicate.simps)
  obtain q where q: "wildcards_find_entry t k True True = Some (q, snd (scan (wholds k) True ?ws None 0))"
    "case q of None \<Rightarrow> wild_map ?ws k = None | Some p \<Rightarrow> p < length ?ws \<and> wholds k (?ws ! p)"
    using wholds_scan [OF ok, of k True] unfolding arr by blast
  have "q = None" using q(2) no by (auto simp: wild_map_None simp del: replicate.simps split: option.splits)
  moreover have "\<not> (\<forall>e\<in>set ?ws. w_in_use e)" by simp
  then have "snd (scan (wholds k) True ?ws None 0) = Some (length xs)"
    using wild_free [OF no] takeWhile_packed [OF assms(3), of "Suc m"] by (simp del: replicate.simps)
  ultimately show ?thesis
    using q(1) assms(1,6) by (simp add: wildcards_set_def c_run list_update_append)
qed

lemma rewild_loop_ok:
  assumes "wildcards t = Ptr (xs @ replicate m zero_wentry)" and "ws_size t = length xs + m"
    and "\<forall>e\<in>set xs. w_in_use e" and "wents_ok xs" and "wunique (xs @ filter w_in_use old)"
    and "wents_ok old" and "wcount old \<le> m"
  shows "rewild_loop old t = Some (t\<lparr>wildcards := Ptr (xs @ filter w_in_use old @ replicate (m - wcount old) zero_wentry),
    ws_used_count := ws_used_count t + wcount old\<rparr>)"
  using assms
proof (induction old arbitrary: t xs m)
  case Nil
  then have "t\<lparr>wildcards := Ptr (xs @ replicate m zero_wentry), ws_used_count := ws_used_count t\<rparr> = t" by (cases t) simp
  then show ?case by (simp add: wcount_def)
next
  case (Cons e old)
  have ok: "wents_ok old" using Cons.prems(6) by (simp add: wents_ok_def)
  show ?case
  proof (cases "w_in_use e")
    case False
    with Cons ok show ?thesis by (simp add: wcount_def)
  next
    case True
    with Cons.prems(6) obtain k where k: "w_key e = Ptr k" "w_key_len e = length k" "is_pat k" by (auto simp: wents_ok_def)
    have e: "e = \<lparr>w_key = Ptr k, w_key_len = length k, w_value = w_value e, w_in_use = True\<rparr>"
      using k(1,2) True by (cases e) simp
    have "wholds k e" using k True by (simp add: wholds_def)
    then have "k \<in> dom (wild_map (filter w_in_use (e # old)))" using True by (simp add: wild_map_Cons domIff)
    then have no: "wild_map xs k = None" using Cons.prems(5) unfolding wunique_append by blast
    from Cons.prems(7) True obtain m' where m: "m = Suc m'" "wcount old \<le> m'" by (cases m) (auto simp: wcount_def)
    have size: "ws_size t = length xs + Suc m'" using Cons.prems(2) m by simp
    define t1 where "t1 = t\<lparr>wildcards := Ptr ((xs @ [e]) @ replicate m' zero_wentry), ws_used_count := ws_used_count t + 1\<rparr>"
    have t1: "wildcards_set t (Ptr k) (w_value e) = Some (True, t1)"
      unfolding t1_def by (rule wildcards_set_append [OF Cons.prems(1) [unfolded m(1)] size Cons.prems(3,4) no e])
    have "rewild_loop old t1 = Some (t1\<lparr>wildcards := Ptr ((xs @ [e]) @ filter w_in_use old @ replicate (m' - wcount old) zero_wentry),
        ws_used_count := ws_used_count t1 + wcount old\<rparr>)"
      by (rule Cons.IH) (use Cons.prems True m size ok k in \<open>auto simp: t1_def wents_ok_def\<close>)
    then show ?thesis using True k(1) t1 m(1) by (simp add: t1_def wcount_def)
  qed
qed

lemma wtable_resize_table_wf:
  assumes "wild_wf t" and "cache_inv (wcache t)"
    and "W_MIN_SIZE \<le> n" and "wcount (warray t) \<le> n"
  shows "\<exists>c. wtable_resize_table mem_ok t n = Some (True, t\<lparr>wildcards := Ptr (packed (warray t) n), ws_size := n,
      ws_used_count := wcount (warray t), wcache := c\<rparr>) \<and> cache_inv c \<and> cache_contents c \<subseteq> cache_contents (wcache t)"
proof -
  let ?ws = "warray t"
  define t0 where "t0 = t\<lparr>wildcards := Ptr (replicate n zero_wentry), ws_size := n, ws_used_count := 0\<rparr>"
  have arr: "wildcards t = Ptr ?ws" "ws_size t = length ?ws" "wents_ok ?ws" "wunique ?ws"
    using assms(1) by (simp_all add: wild_wf_def warray_ok_def)
  have "rewild_loop ?ws t0 = Some (t0\<lparr>wildcards := Ptr ([] @ filter w_in_use ?ws @ replicate (n - wcount ?ws) zero_wentry),
      ws_used_count := ws_used_count t0 + wcount ?ws\<rparr>)"
    by (rule rewild_loop_ok) (use assms(4) arr in \<open>simp_all add: t0_def wunique_filter wents_ok_def\<close>)
  then have loop: "rewild_loop ?ws t0 = Some (t\<lparr>wildcards := Ptr (packed ?ws n), ws_size := n, ws_used_count := wcount ?ws\<rparr>)"
    by (simp add: t0_def packed_def)
  obtain c where "cache_resize mem_ok (wcache t) n = Some (True, c)" "cache_inv c \<and> cache_contents c \<subseteq> cache_contents (wcache t)"
    using wcache.resize_law [OF assms(2)] by blast
  then show ?thesis
    using loop arr assms(3) by (auto simp: wtable_resize_table_def c_run t0_def intro!: exI [of _ c])
qed

lemma wtable_resize_table_ok:
  assumes "wild_wf t" and "wcache.coherent (wild_lookup (warray t)) (wcache t)"
    and "W_MIN_SIZE \<le> n" and "wcount (warray t) \<le> n"
  shows "\<exists>c. wtable_resize_table mem_ok t n = Some (True, t\<lparr>wildcards := Ptr (packed (warray t) n), ws_size := n,
      ws_used_count := wcount (warray t), wcache := c\<rparr>) \<and> wcache.coherent (wild_lookup (warray t)) c"
  using wtable_resize_table_wf [OF assms(1) _ assms(3,4)] assms(2) unfolding wcache.coherent_def by blast

subsection \<open>Storing and taking out\<close>

lemma packed_wild_wf:
  assumes "wild_wf t" and "W_MIN_SIZE \<le> n" and "wcount (warray t) \<le> n"
  shows "wild_wf (t\<lparr>wildcards := Ptr (packed (warray t) n), ws_size := n, ws_used_count := wcount (warray t), wcache := c\<rparr>)"
  using assms packed_length [OF assms(3)] packed_wents [of "warray t" n] packed_wunique [of "warray t" n]
  by (auto simp: wild_wf_def warray_ok_def warray_def wcount_def packed_filter)

definition wild_values :: "'v wtable \<Rightarrow> 'v ptr multiset" where
  "wild_values t = image_mset w_value (mset (filter w_in_use (warray t)))"

definition wtable_values :: "'v wtable \<Rightarrow> 'v ptr multiset" where
  "wtable_values t = hash_values (finals t) + wild_values t"

definition wtable_gone :: "'v wtable \<Rightarrow> 'v ptr multiset" where
  "wtable_gone t = mset (released (finals t)) + mset (w_released t)"

text \<open>What storing \<open>v\<close> under \<open>k\<close> does; the value that was there is released.\<close>

definition wtable_set_effect :: "'v wtable \<Rightarrow> string \<Rightarrow> 'v ptr \<Rightarrow> 'v wtable \<Rightarrow> bool" where
  "wtable_set_effect t k v t' \<longleftrightarrow> wtable_inv t' \<and> wtable_abs t' = (wtable_abs t)(k \<mapsto> v)
     \<and> w_destructor t' = w_destructor t
     \<and> (\<exists>d. w_destructor t = Ptr d \<and> wtable_gone t' = wtable_gone t
          + (case wtable_abs t k of None \<Rightarrow> {#} | Some old \<Rightarrow> mset (d old))
        \<and> newly_released t t' = (case wtable_abs t k of None \<Rightarrow> [] | Some old \<Rightarrow> d old))
     \<and> wtable_values t' + (case wtable_abs t k of None \<Rightarrow> {#} | Some old \<Rightarrow> {#old#}) = add_mset v (wtable_values t)"

lemma wtable_set_exact:
  assumes "wtable_inv t" and "k \<noteq> []" and "\<not> is_pat k"
  shows "\<exists>t'. wtable_set mem_ok t k v = Some (True, t') \<and> wtable_set_effect t k v t'"
proof -
  have fin: "hash_inv (finals t)" "w_destructor t = Ptr (destructor (finals t))"
    "\<forall>k \<in> dom (hash_abs (finals t)). \<not> is_pat k" using assms(1) by (simp_all add: wtable_inv_def finals_ok_def)
  obtain h where h: "hash_set mem_ok (finals t) k v = Some (True, h)" "hash_inv h" "set_effect (finals t) k v h"
    using hash_set_law [OF fin(1)] by blast
  have "wtable_inv (t\<lparr>finals := h\<rparr>)"
    using assms(1,3) h(2,3) fin(2,3)
    by (auto simp: wtable_inv_def finals_ok_def wild_wf_def warray_ok_def cache_coherent_def set_effect_def split: if_splits)
  moreover have "wtable_abs (t\<lparr>finals := h\<rparr>) = (wtable_abs t)(k \<mapsto> v)"
    using h(3) assms(3) by (auto simp: wtable_abs_def set_effect_def fun_eq_iff)
  moreover have "wtable_abs t k = hash_abs (finals t) k" using assms(3) by (simp add: wtable_abs_def)
  ultimately have "wtable_set_effect t k v (t\<lparr>finals := h\<rparr>)"
    using h(3) fin(2)
    by (auto simp: wtable_set_effect_def set_effect_def wtable_gone_def newly_released_def wtable_values_def wild_values_def split: option.splits)
  moreover have "wtable_set mem_ok t k v = Some (True, t\<lparr>finals := h\<rparr>)"
    using h(1) assms(2,3) by (simp add: wtable_set_def is_wildcard_length)
  ultimately show ?thesis by blast
qed

text \<open>Before a pattern is stored the array is made to have two free cells.\<close>

lemma wtable_room:
  assumes "wild_wf t" and "wcache.coherent (wild_lookup (warray t)) (wcache t)" and "ws_used_count t < ws_size t"
  shows "\<exists>ws n c. (if size_sub (ws_size t) (ws_used_count t) \<le> 1
        then wtable_resize_table mem_ok t (f64_grow (ws_size t)) else Some (True, t))
      = Some (True, t\<lparr>wildcards := Ptr ws, ws_size := n, ws_used_count := wcount ws, wcache := c\<rparr>)
    \<and> wild_wf (t\<lparr>wildcards := Ptr ws, ws_size := n, ws_used_count := wcount ws, wcache := c\<rparr>)
    \<and> wild_lookup ws = wild_lookup (warray t) \<and> wild_map ws = wild_map (warray t)
    \<and> filter w_in_use ws = filter w_in_use (warray t) \<and> wcount ws + 1 < n
    \<and> wcache.coherent (wild_lookup ws) c"
proof -
  let ?ws = "warray t"
  have arr: "wildcards t = Ptr ?ws" "ws_size t = length ?ws" "ws_used_count t = wcount ?ws" "W_MIN_SIZE \<le> ws_size t"
    using assms(1) by (simp_all add: wild_wf_def warray_ok_def)
  have count: "wcount ?ws < length ?ws" using assms(3) arr by simp
  show ?thesis
  proof (cases "size_sub (ws_size t) (ws_used_count t) \<le> 1")
    case True
    define n where "n = f64_grow (ws_size t)"
    have n: "W_MIN_SIZE \<le> n" "wcount ?ws + 1 < n" "wcount ?ws \<le> n"
      using f64_grow_ge [of "ws_size t"] arr count by (simp_all add: n_def)
    obtain c where "wtable_resize_table mem_ok t n = Some (True, t\<lparr>wildcards := Ptr (packed ?ws n), ws_size := n,
        ws_used_count := wcount ?ws, wcache := c\<rparr>)" "wcache.coherent (wild_lookup ?ws) c"
      using wtable_resize_table_ok [OF assms(1,2) n(1,3)] by blast
    then show ?thesis
      using True n packed_wild_wf [OF assms(1) n(1,3), of c]
      by (intro exI [of _ "packed ?ws n"] exI [of _ n] exI [of _ c])
        (simp add: n_def [symmetric] packed_lookup packed_map packed_filter wcount_def)
  next
    case False
    have same: "t\<lparr>wildcards := Ptr ?ws, ws_size := ws_size t, ws_used_count := wcount ?ws, wcache := wcache t\<rparr> = t"
      using arr by (cases t) simp
    from False arr count have "wcount ?ws + 1 < ws_size t" by (simp add: size_sub_le)
    with False same assms show ?thesis
      by (intro exI [of _ ?ws] exI [of _ "ws_size t"] exI [of _ "wcache t"]) simp
  qed
qed

lemma wtable_set_pat:
  assumes "wtable_inv t" and "is_pat k"
  shows "\<exists>t'. wtable_set mem_ok t k v = Some (True, t') \<and> wtable_set_effect t k v t'"
proof -
  have k: "k \<noteq> []" using assms(2) by (simp add: is_pat_def)
  have parts: "finals_ok t" "wild_wf t" "ws_used_count t < ws_size t" "wcache.coherent (wild_lookup (warray t)) (wcache t)"
    using assms(1) by (simp_all add: wtable_inv_def cache_coherent_def)
  obtain ws n c where room: "(if size_sub (ws_size t) (ws_used_count t) \<le> 1
        then wtable_resize_table mem_ok t (f64_grow (ws_size t)) else Some (True, t))
      = Some (True, t\<lparr>wildcards := Ptr ws, ws_size := n, ws_used_count := wcount ws, wcache := c\<rparr>)"
    "wild_wf (t\<lparr>wildcards := Ptr ws, ws_size := n, ws_used_count := wcount ws, wcache := c\<rparr>)"
    "wild_map ws = wild_map (warray t)" "filter w_in_use ws = filter w_in_use (warray t)" "wcount ws + 1 < n"
    "wcache.coherent (wild_lookup ws) c"
    using wtable_room [OF parts(2,4,3)] by blast
  from room(6) have "cache_inv c" by (simp add: wcache.coherent_def)
  obtain c0 where c0: "cache_invalidate c = Some (True, c0)" "cache_inv c0" "cache_contents c0 = {}"
    using wcache.invalidate_law [OF \<open>cache_inv c\<close>] by blast
  define t1 where "t1 = t\<lparr>wildcards := Ptr ws, ws_size := n, ws_used_count := wcount ws, wcache := c0\<rparr>"
  have arr1: "warray t1 = ws" by (simp add: t1_def warray_def)
  have wf1: "warray_ok t1" "wunique ws" "n = length ws" "W_MIN_SIZE \<le> n"
    using room(2) by (simp_all add: t1_def wild_wf_def warray_ok_def warray_def)
  obtain d where d: "w_destructor t = Ptr d" "d = destructor (finals t)" using parts(1) by (simp add: finals_ok_def)
  have "w_destructor t1 = Ptr d" "wcount (warray t1) < length (warray t1)" "wunique (warray t1)"
    using d wf1 room(5) arr1 by (simp_all add: t1_def)
  then obtain t2 where t2: "wildcards_set t1 (Ptr k) v = Some (True, t2)" "wset_effect t1 k v t2"
    using wildcards_set_ok [OF wf1(1) _ _ assms(2), of d v] by blast
  have run: "wtable_set mem_ok t k v = Some (True, t2)"
    using room(1) c0(1) t2(1) k assms(2) by (simp add: wtable_set_def is_wildcard_length c_run t1_def)
  have eff: "warray_ok t2" "wunique (warray t2)" "wild_map (warray t2) = (wild_map (warray t))(k \<mapsto> v)"
    "finals t2 = finals t" "wcache t2 = c0" "w_destructor t2 = w_destructor t" "ws_size t2 = n"
    "ws_used_count t2 = wcount (warray t2)" "wcount (warray t2) < n"
    "w_released t2 = w_released t @ (case wild_map (warray t) k of None \<Rightarrow> [] | Some old \<Rightarrow> d old)"
    "image_mset w_value (mset (filter w_in_use (warray t2))) + (case wild_map (warray t) k of None \<Rightarrow> {#} | Some old \<Rightarrow> {#old#})
        = add_mset v (image_mset w_value (mset (filter w_in_use (warray t))))"
    using t2(2) d room(3,4,5) by (auto simp: wset_effect_def arr1) (auto simp: t1_def)
  have "wcache.coherent (wild_lookup (warray t2)) (wcache t2)"
    using c0(2,3) eff(5) by (simp add: wcache.coherent_def)
  then have "wtable_inv t2"
    using eff parts(1) d wf1(4) by (simp add: wtable_inv_def finals_ok_def wild_wf_def cache_coherent_def)
  moreover have "wtable_abs t2 = (wtable_abs t)(k \<mapsto> v)"
    using eff(3,4) assms(2) by (auto simp: wtable_abs_def fun_eq_iff)
  moreover have "wtable_abs t k = wild_map (warray t) k" using assms(2) by (simp add: wtable_abs_def)
  ultimately have "wtable_set_effect t k v t2"
    using eff(4,6,10,11) d
    by (auto simp: wtable_set_effect_def wtable_gone_def newly_released_def wtable_values_def wild_values_def split: option.splits)
  with run show ?thesis by blast
qed

lemma wtable_set_law:
  assumes "wtable_inv t" and "k \<noteq> []"
  obtains t' where "wtable_set mem_ok t k v = Some (True, t')" and "wtable_set_effect t k v t'"
  using wtable_set_exact [OF assms] wtable_set_pat [OF assms(1)] by blast

text \<open>What taking \<open>k\<close> out does.\<close>

definition wtable_del_effect :: "'v wtable \<Rightarrow> string \<Rightarrow> 'v wtable \<Rightarrow> bool" where
  "wtable_del_effect t k t' \<longleftrightarrow> wtable_inv t' \<and> wtable_abs t' = (wtable_abs t)(k := None)
     \<and> w_destructor t' = w_destructor t
     \<and> (\<exists>d. w_destructor t = Ptr d \<and> wtable_gone t' = wtable_gone t
          + (case wtable_abs t k of None \<Rightarrow> {#} | Some old \<Rightarrow> mset (d old))
        \<and> newly_released t t' = (case wtable_abs t k of None \<Rightarrow> [] | Some old \<Rightarrow> d old))
     \<and> wtable_values t' + (case wtable_abs t k of None \<Rightarrow> {#} | Some old \<Rightarrow> {#old#}) = wtable_values t"

lemma wtable_del_exact:
  assumes "wtable_inv t" and "k \<noteq> []" and "\<not> is_pat k"
  shows "\<exists>t'. wtable_del mem_ok t k = Some (wtable_abs t k \<noteq> None, t') \<and> wtable_del_effect t k t'"
proof -
  have fin: "hash_inv (finals t)" "w_destructor t = Ptr (destructor (finals t))"
    "\<forall>k \<in> dom (hash_abs (finals t)). \<not> is_pat k" using assms(1) by (simp_all add: wtable_inv_def finals_ok_def)
  obtain h where h: "hash_del mem_ok (finals t) k = Some (hash_abs (finals t) k \<noteq> None, h)" "hash_inv h"
    "case hash_abs (finals t) k of None \<Rightarrow> h = finals t | Some v \<Rightarrow> del_effect (finals t) k v h"
    using hash_del_law [OF fin(1)] by blast
  have h': "hash_abs h = (hash_abs (finals t))(k := None)" "destructor h = destructor (finals t)"
    using h(3) by (auto simp: del_effect_def split: option.splits)
  have "wtable_inv (t\<lparr>finals := h\<rparr>)"
    using assms(1,3) h(2) h' fin(2,3)
    by (auto simp: wtable_inv_def finals_ok_def wild_wf_def warray_ok_def cache_coherent_def split: if_splits)
  moreover have "wtable_abs (t\<lparr>finals := h\<rparr>) = (wtable_abs t)(k := None)"
    using h'(1) assms(3) by (auto simp: wtable_abs_def fun_eq_iff)
  moreover have abs: "wtable_abs t k = hash_abs (finals t) k" using assms(3) by (simp add: wtable_abs_def)
  ultimately have "wtable_del_effect t k (t\<lparr>finals := h\<rparr>)"
    using h(3) fin(2)
    by (auto simp: wtable_del_effect_def del_effect_def wtable_gone_def newly_released_def wtable_values_def wild_values_def split: option.splits)
  moreover have "wtable_del mem_ok t k = Some (wtable_abs t k \<noteq> None, t\<lparr>finals := h\<rparr>)"
    using h(1) assms(2,3) abs by (simp add: wtable_del_def is_wildcard_length)
  ultimately show ?thesis by blast
qed

text \<open>After a pattern was taken out the array may shrink.\<close>

lemma wtable_shrink:
  assumes "wild_wf t" and "cache_inv (wcache t)" and "ws_used_count t < ws_size t"
  shows "\<exists>ws n c. (if W_MIN_SIZE < ws_size t \<and> f32_ratio (ws_used_count t) (ws_size t) < d_0_6
        then wtable_resize_table mem_ok t (ws_used_count t + 3) else Some (True, t))
      = Some (True, t\<lparr>wildcards := Ptr ws, ws_size := n, ws_used_count := wcount ws, wcache := c\<rparr>)
    \<and> wild_wf (t\<lparr>wildcards := Ptr ws, ws_size := n, ws_used_count := wcount ws, wcache := c\<rparr>)
    \<and> wild_map ws = wild_map (warray t)
    \<and> filter w_in_use ws = filter w_in_use (warray t) \<and> wcount ws < n \<and> cache_inv c"
proof -
  let ?ws = "warray t"
  have arr: "wildcards t = Ptr ?ws" "ws_size t = length ?ws" "ws_used_count t = wcount ?ws"
    using assms(1) by (simp_all add: wild_wf_def warray_ok_def)
  define n where "n = ws_used_count t + 3"
  define small where "small \<longleftrightarrow> W_MIN_SIZE < ws_size t \<and> f32_ratio (ws_used_count t) (ws_size t) < d_0_6"
  have same: "t\<lparr>wildcards := Ptr ?ws, ws_size := length ?ws, ws_used_count := wcount ?ws\<rparr> = t"
    using arr by (cases t) simp
  show ?thesis
  proof (cases "small \<and> W_MIN_SIZE \<le> n")
    case True
    have n: "W_MIN_SIZE \<le> n" "wcount ?ws < n" "wcount ?ws \<le> n" using True arr by (simp_all add: n_def)
    obtain c where "wtable_resize_table mem_ok t n = Some (True, t\<lparr>wildcards := Ptr (packed ?ws n), ws_size := n,
        ws_used_count := wcount ?ws, wcache := c\<rparr>)" "cache_inv c"
      using wtable_resize_table_wf [OF assms(1,2) n(1,3)] by blast
    then show ?thesis
      using True n packed_wild_wf [OF assms(1) n(1,3), of c]
      by (intro exI [of _ "packed ?ws n"] exI [of _ n] exI [of _ c])
        (simp add: n_def [symmetric] small_def [symmetric] packed_map packed_filter wcount_def)
  next
    case False
    then have "(if small then wtable_resize_table mem_ok t n else Some (True, t)) = Some (True, t)"
      by (auto simp: wtable_resize_table_def)
    moreover have e: "t\<lparr>wildcards := Ptr ?ws, ws_size := ws_size t, ws_used_count := wcount ?ws, wcache := wcache t\<rparr> = t"
      using same arr(2) by simp
    moreover have "wcount ?ws < ws_size t" using assms(3) arr(3) by simp
    ultimately show ?thesis using assms(1,2) unfolding small_def n_def
      by (intro exI [of _ ?ws] exI [of _ "ws_size t"] exI [of _ "wcache t"]) (unfold e, blast)
  qed
qed

lemma wtable_del_pat:
  assumes "wtable_inv t" and "is_pat k"
  shows "\<exists>t'. wtable_del mem_ok t k = Some (wtable_abs t k \<noteq> None, t') \<and> wtable_del_effect t k t'"
proof -
  let ?ws = "warray t"
  have k: "k \<noteq> []" using assms(2) by (simp add: is_pat_def)
  have parts: "finals_ok t" "wild_wf t" "ws_used_count t < ws_size t" "cache_inv (wcache t)"
    using assms(1) by (simp_all add: wtable_inv_def cache_coherent_def wcache.coherent_def)
  have arr: "wildcards t = Ptr ?ws" "ws_size t = length ?ws" "ws_used_count t = wcount ?ws" "warray_ok t"
    "wents_ok ?ws" "wunique ?ws" "W_MIN_SIZE \<le> ws_size t" using parts(2) by (simp_all add: wild_wf_def warray_ok_def)
  have abs: "wtable_abs t k = wild_map ?ws k" using assms(2) by (simp add: wtable_abs_def)
  obtain d where d: "w_destructor t = Ptr d" using parts(1) by (simp add: finals_ok_def)
  obtain q where q: "wildcards_find_entry t k True False = Some (q, None)"
    "case q of None \<Rightarrow> wild_map ?ws k = None | Some p \<Rightarrow> p < length ?ws \<and> wholds k (?ws ! p)"
    using wholds_scan [OF arr(4), of k False] by (auto simp: scan_free_none)
  show ?thesis
  proof (cases q)
    case None
    then have "wtable_abs t k = None" using q(2) abs by simp
    moreover from this have "wtable_del_effect t k t"
      using assms(1) d by (auto simp: wtable_del_effect_def newly_released_def fun_eq_iff)
    moreover have "wtable_del mem_ok t k = Some (False, t)"
      using q(1) None k assms(2) by (simp add: wtable_del_def is_wildcard_length)
    ultimately show ?thesis by simp
  next
    case (Some p)
    with q(2) have p: "p < length ?ws" "wholds k (?ws ! p)" by simp_all
    define v where "v = w_value (?ws ! p)"
    have old: "wild_map ?ws k = Some v" using wild_map_at [OF arr(6) p] by (simp add: v_def)
    have used: "w_in_use (?ws ! p)" using p(2) by (simp add: wholds_def)
    define ws1 where "ws1 = ?ws[p := zero_wentry]"
    define t1 where "t1 = t\<lparr>w_released := w_released t @ d v, wildcards := Ptr ws1, ws_used_count := wcount ws1\<rparr>"
    have arr1: "warray t1 = ws1" by (simp add: t1_def warray_def)
    have clear: "wunique ws1" "wild_map ws1 = (wild_map ?ws)(k := None)"
      using wild_map_clear [OF arr(6) p, of zero_wentry] by (simp_all add: ws1_def)
    have count: "wcount ws1 + 1 = wcount ?ws" using wcount_update [OF p(1), of zero_wentry] used by (simp add: ws1_def)
    have vals: "add_mset v (image_mset w_value (mset (filter w_in_use ws1))) = image_mset w_value (mset (filter w_in_use ?ws))"
      using image_mset_update [OF p(1), of zero_wentry] used by (simp add: ws1_def v_def)
    have "wents_ok ws1" unfolding ws1_def by (rule wents_ok_update [OF arr(5)]) simp
    then have wf1: "wild_wf t1" "cache_inv (wcache t1)" "ws_used_count t1 < ws_size t1"
      using clear(1) arr count parts(3,4) d
      by (simp_all add: wild_wf_def warray_ok_def arr1) (simp_all add: t1_def ws1_def)
    obtain ws2 n c where sh: "(if W_MIN_SIZE < ws_size t1 \<and> f32_ratio (ws_used_count t1) (ws_size t1) < d_0_6
        then wtable_resize_table mem_ok t1 (ws_used_count t1 + 3) else Some (True, t1))
      = Some (True, t1\<lparr>wildcards := Ptr ws2, ws_size := n, ws_used_count := wcount ws2, wcache := c\<rparr>)"
      "wild_wf (t1\<lparr>wildcards := Ptr ws2, ws_size := n, ws_used_count := wcount ws2, wcache := c\<rparr>)"
      "wild_map ws2 = wild_map ws1" "filter w_in_use ws2 = filter w_in_use ws1" "wcount ws2 < n" "cache_inv c"
      using wtable_shrink [OF wf1] unfolding arr1 by blast
    obtain c0 where c0: "cache_invalidate c = Some (True, c0)" "cache_inv c0" "cache_contents c0 = {}"
      using wcache.invalidate_law [OF sh(6)] by blast
    define t2 where "t2 = t1\<lparr>wildcards := Ptr ws2, ws_size := n, ws_used_count := wcount ws2, wcache := c0\<rparr>"
    have arr2: "warray t2 = ws2" by (simp add: t2_def warray_def)
    have t1': "t\<lparr>w_released := w_released t @ d v, wildcards := Ptr ws1, ws_used_count := size_sub (wcount ?ws) 1\<rparr> = t1"
      using count by (simp add: t1_def size_sub_le)
    have t1s: "ws_size t1 = length ?ws" "ws_used_count t1 = size_sub (wcount ?ws) 1"
      using arr(2) count by (simp_all add: t1_def size_sub_le)
    have run: "wtable_del mem_ok t k = Some (True, t2)"
      using t1s q(1) Some k assms(2) p(1) arr d sh(1) c0(1) t1'
      by (simp add: wtable_del_def is_wildcard_length c_run w_destroy_def v_def [symmetric] zero_wentry_def [symmetric]
          ws1_def [symmetric] t2_def Let_def cong: if_cong split del: if_split)
    have "wtable_inv t2"
      using parts(1) sh(2,5) c0(2,3) unfolding wtable_inv_def
      by (simp add: t2_def t1_def finals_ok_def wild_wf_def warray_ok_def warray_def cache_coherent_def wcache.coherent_def)
    moreover have "wtable_abs t2 = (wtable_abs t)(k := None)"
      using clear(2) sh(3) assms(2) by (auto simp: wtable_abs_def arr2 fun_eq_iff) (simp add: t2_def t1_def)
    moreover have "wtable_abs t k = Some v" using abs old by simp
    ultimately have "wtable_del_effect t k t2"
      using d vals sh(4)
      by (simp add: wtable_del_effect_def wtable_gone_def newly_released_def wtable_values_def wild_values_def arr2)
        (simp add: t2_def t1_def)
    with run \<open>wtable_abs t k = Some v\<close> show ?thesis by auto
  qed
qed

lemma wtable_del_law:
  assumes "wtable_inv t" and "k \<noteq> []"
  obtains t' where "wtable_del mem_ok t k = Some (wtable_abs t k \<noteq> None, t')" and "wtable_del_effect t k t'"
  using wtable_del_exact [OF assms] wtable_del_pat [OF assms(1)] by blast

subsection \<open>The table provides the interfaces\<close>

lemma wtable_set_effectD:
  "wtable_set_effect t k v t' \<Longrightarrow> wtable_inv t' \<and> wtable_abs t' = (wtable_abs t)(k \<mapsto> v)"
  by (simp add: wtable_set_effect_def)

lemma wtable_del_effectD:
  "wtable_del_effect t k t' \<Longrightarrow> wtable_inv t' \<and> wtable_abs t' = (wtable_abs t)(k := None)"
  by (simp add: wtable_del_effect_def)

interpretation wild_table: pattern_table "\<lambda>k. k \<noteq> []" "wtable_set mem_ok" "wtable_del mem_ok" wtable_inv wtable_abs
  "wtable_get mem_ok"
proof
  fix t :: "'a wtable" and k :: string and v :: "'a ptr"
  assume inv: "wtable_inv t"
  show "\<exists>t'. wtable_set mem_ok t k v = Some (True, t') \<and> wtable_inv t' \<and> wtable_abs t' = (wtable_abs t)(k \<mapsto> v)"
    if k: "k \<noteq> []"
    using wtable_set_law [OF inv k] wtable_set_effectD by metis
  show "\<exists>t'. wtable_del mem_ok t k = Some (wtable_abs t k \<noteq> None, t') \<and> wtable_inv t' \<and> wtable_abs t' = (wtable_abs t)(k := None)"
    if k: "k \<noteq> []"
    using wtable_del_law [OF inv k] wtable_del_effectD by metis
  show "\<exists>r t'. wtable_get mem_ok t k = Some (r, t') \<and> wtable_inv t' \<and> wtable_abs t' = wtable_abs t
      \<and> pattern_answer (wtable_abs t) k r"
    using wtable_get_ok [OF inv, of k] wtable_inv_cache [OF inv] wtable_answer_pattern [OF inv] by fastforce
qed

definition wtable_owns :: "'v wtable \<Rightarrow> bool" where
  "wtable_owns t \<longleftrightarrow> wtable_inv t \<and> w_destructor t = Ptr plain_destructor"

interpretation wild_owner: owning_table "\<lambda>k. k \<noteq> []" "wtable_set mem_ok" "wtable_del mem_ok" wtable_owns wtable_abs
  wtable_values wtable_gone
proof
  fix t t' :: "'a wtable" and k :: string and v :: "'a ptr" and r
  assume owns: "wtable_owns t" and k: "k \<noteq> []"
  then have inv: "wtable_inv t" by (simp add: wtable_owns_def)
  obtain t1 where t1: "wtable_set mem_ok t k v = Some (True, t1)" "wtable_set_effect t k v t1"
    by (rule wtable_set_law [OF inv k])
  then show "\<exists>t'. wtable_set mem_ok t k v = Some (True, t') \<and> wtable_owns t' \<and> wtable_abs t' = (wtable_abs t)(k \<mapsto> v)"
    using owns by (auto simp: wtable_set_effect_def wtable_owns_def)
  obtain t2 where t2: "wtable_del mem_ok t k = Some (wtable_abs t k \<noteq> None, t2)" "wtable_del_effect t k t2"
    by (rule wtable_del_law [OF inv k])
  then show "\<exists>t'. wtable_del mem_ok t k = Some (wtable_abs t k \<noteq> None, t') \<and> wtable_owns t' \<and> wtable_abs t' = (wtable_abs t)(k := None)"
    using owns by (auto simp: wtable_del_effect_def wtable_owns_def)
  show "wtable_values t' + wtable_gone t' = add_mset v (wtable_values t + wtable_gone t)"
    if "wtable_set mem_ok t k v = Some (True, t')"
    using that t1 owns
    by (auto simp: wtable_set_effect_def wtable_owns_def plain_destructor_def split: option.splits)
  show "wtable_values t' + wtable_gone t' = wtable_values t + wtable_gone t"
    if "wtable_del mem_ok t k = Some (r, t')"
    using that t2 owns
    by (auto simp: wtable_del_effect_def wtable_owns_def plain_destructor_def split: option.splits)
qed

subsection \<open>Creating and releasing\<close>

lemma wtable_create_inv:
  assumes "wtable_create True True True True True True True junk (Ptr d) = Ptr t"
  shows "wtable_inv t" and "wtable_abs t = Map.empty" and "w_destructor t = Ptr d"
    and "wtable_values t = {#}" and "wtable_gone t = {#}"
proof -
  obtain f where f: "hash_create True True (Ptr d) = Ptr f" by (simp add: hash_create_def)
  obtain c :: "'a cache" where c: "cache_create True True True junk = Ptr c" by (simp add: cache_create_def hash_create_def)
  have t: "t = \<lparr>finals = f, wildcards = Ptr (replicate W_MIN_SIZE zero_wentry), ws_size = W_MIN_SIZE,
      ws_used_count = 0, wcache = c, w_destructor = Ptr d, w_released = []\<rparr>"
    using assms f c by (simp add: wtable_create_def)
  have fd: "destructor f = d" using f by (auto simp: hash_create_def)
  have w: "warray t = replicate W_MIN_SIZE zero_wentry" by (simp add: t warray_def)
  note fi = hash_create_inv [OF f] and ci = cache_create_inv [OF c]
  show "wtable_inv t"
    using fi ci fd w
    by (simp add: wtable_inv_def finals_ok_def wild_wf_def warray_ok_def wunique_zero wcount_def cache_coherent_def
        wcache.coherent_def) (simp add: t wents_ok_def W_MIN_SIZE_def)
  show "wtable_abs t = Map.empty" using fi(2) by (simp add: fun_eq_iff wtable_abs_def w wild_map_zero) (simp add: t)
  show "wtable_values t = {#}" "wtable_gone t = {#}"
    using fi by (simp_all add: wtable_values_def wild_values_def w wtable_gone_def) (simp_all add: t)
  show "w_destructor t = Ptr d" by (simp add: t)
qed

lemma wfree_loop_ok:
  "w_destructor t = Ptr d \<Longrightarrow> wfree_loop es t =
    Some (t\<lparr>w_released := w_released t @ concat (map (d \<circ> w_value) (filter w_in_use es))\<rparr>)"
  by (induction es arbitrary: t) (auto simp: w_destroy_def)

text \<open>When the table is released, every value it still holds is released, once.\<close>

lemma wtable_free_ok:
  assumes "wtable_owns t"
  shows "\<exists>rs. wtable_free t = Some rs \<and> mset rs = wtable_values t + wtable_gone t"
proof -
  have parts: "hash_wf (finals t)" "cache_inv (wcache t)" "w_destructor t = Ptr plain_destructor"
    "destructor (finals t) = plain_destructor" "wildcards t = Ptr (warray t)" "ws_size t = length (warray t)"
    using assms by (auto simp: wtable_owns_def wtable_inv_def finals_ok_def hash_inv_def wild_wf_def warray_ok_def
        cache_coherent_def wcache.coherent_def)
  obtain vs where vs: "hash_free (finals t) = Some (released (finals t) @ concat (map plain_destructor vs))"
    "mset vs = hash_values (finals t)"
    using hash_free_wf [OF parts(1)] parts(4) by auto
  have single: "concat (map (plain_destructor \<circ> f) xs) = map f xs" for f and xs :: "'a wentry list"
    by (induction xs) (auto simp: plain_destructor_def)
  have single': "concat (map plain_destructor vs) = vs"
    by (induction vs) (auto simp: plain_destructor_def)
  have "cache_free (wcache t) \<noteq> None"
    using cache_invD [OF parts(2)] by (simp add: cache_free_def hash_free_def c_run)
  then show ?thesis
    using vs parts(3,5,6)
    by (auto simp: wtable_free_def c_run wfree_loop_ok single single' wtable_values_def wild_values_def wtable_gone_def
        mset_map)
qed

subsection \<open>Properties\<close>

lemma new_wtable:
  obtains t :: "'v wtable" where "wtable_create True True True True True True True junk (Ptr d) = Ptr t"
  by (auto simp: wtable_create_def hash_create_def cache_create_def)

text \<open>Property C2: Functional correctness of the wildcard table: on a new table, every sequence of \<open>wtable_set\<close> and
  \<open>wtable_del\<close> calls with non-empty keys, names and patterns mixed, has the results of the same sequence on a map, and a
  \<open>wtable_get\<close> after it answers as that map of patterns says: the value of the exact name if
  it is there, else the value of some pattern of the map that matches, else NULL. A lookup leaves the map as it is.\<close>

theorem wtable_refines_patterns:
  assumes "wtable_create True True True True True True True junk (Ptr d) = Ptr t"
    and "\<forall>x\<in>set ops. op_key x \<noteq> []"
  shows "\<exists>t1 r t2. run_ops (wtable_set mem_ok) (wtable_del mem_ok) ops t = Some (fst (map_ops ops Map.empty), t1)
    \<and> wtable_get mem_ok t1 k = Some (r, t2) \<and> pattern_answer (snd (map_ops ops Map.empty)) k r
    \<and> wtable_abs t1 = snd (map_ops ops Map.empty) \<and> wtable_abs t2 = wtable_abs t1"
  using wild_table.find_after_ops [OF wtable_create_inv(1) [OF assms(1)] assms(2), of k] wtable_create_inv(2) [OF assms(1)]
    wild_table.run_ops_refines [OF wtable_create_inv(1) [OF assms(1)] assms(2)] by fastforce

theorem wtable_refines_patterns_witness:
  "\<exists>(t :: nat wtable) t1 r t2. wtable_create True True True True True True True 0 (Ptr plain_destructor) = Ptr t \<and>
     run_ops (wtable_set mem_ok) (wtable_del mem_ok)
       [SetOp ''posix/*'' (Ptr 1), SetOp ''libc/mm/malloc'' (Ptr 2), DelOp ''libc/mm/malloc''] t = Some ([True, True, True], t1)
     \<and> wtable_get mem_ok t1 ''posix/io/rw/read'' = Some (Ptr 1, t2)"
proof -
  obtain t :: "nat wtable" where t: "wtable_create True True True True True True True 0 (Ptr plain_destructor) = Ptr t"
    by (rule new_wtable)
  let ?ops = "[SetOp ''posix/*'' (Ptr 1), SetOp ''libc/mm/malloc'' (Ptr 2), DelOp ''libc/mm/malloc''] :: nat table_op list"
  have m: "snd (map_ops ?ops Map.empty) = [''posix/*'' \<mapsto> Ptr 1]" by (auto simp: fun_eq_iff)
  have p: "pat_matches ''posix/*'' ''posix/io/rw/read''" by (simp add: pat_matches_def is_pat_def)
  have "pattern_answer [''posix/*'' \<mapsto> Ptr 1] ''posix/io/rw/read'' r \<Longrightarrow> r = Ptr (1 :: nat)" for r
    using p by (auto simp: pattern_answer_def split: if_splits)
  then show ?thesis
    using wtable_refines_patterns [OF t, of ?ops "''posix/io/rw/read''"] t unfolding m by fastforce
qed

lemma wtable_answer_cache [simp]: "wtable_answer (t\<lparr>wcache := c\<rparr>) = wtable_answer t"
  by (auto simp: wtable_answer_def fun_eq_iff split: option.split ptr.split)

text \<open>Lookups one after the other.\<close>

fun wtable_gets :: "mem \<Rightarrow> 'v wtable \<Rightarrow> string list \<Rightarrow> ('v ptr list \<times> 'v wtable) option" where
  "wtable_gets mem t [] = Some ([], t)"
| "wtable_gets mem t (k # ks) = do {
     (r, t1) \<leftarrow> wtable_get mem t k;
     (rs, t2) \<leftarrow> wtable_gets mem t1 ks;
     Some (r # rs, t2) }"

text \<open>Property C3: The cache of the wildcard table is transparent: in every reachable state, and after any number of
  lookups of any names, a lookup answers what a walk of the hash table and of the whole array would answer at that moment
  (an exact name first, then the first cell of the array whose pattern matches),
  although most answers are never recomputed; lookups change nothing but the cache.\<close>

theorem wtable_cache_transparent:
  assumes "wtable_inv t"
  shows "\<exists>t'. wtable_gets mem_ok t ks = Some (map (wtable_answer t) ks, t') \<and> finals t' = finals t
    \<and> wildcards t' = wildcards t \<and> (\<forall>k. wtable_answer t' k = wtable_answer t k)"
proof -
  have "\<exists>c. wtable_gets mem_ok t ks = Some (map (wtable_answer t) ks, t\<lparr>wcache := c\<rparr>)"
    using assms
  proof (induction ks arbitrary: t)
    case Nil
    show ?case by (simp add: exI [of _ "wcache t"])
  next
    case (Cons k ks)
    obtain c where c: "wtable_get mem_ok t k = Some (wtable_answer t k, t\<lparr>wcache := c\<rparr>)"
      "wcache.coherent (wild_lookup (warray t)) c" using wtable_get_ok [OF Cons.prems] by blast
    then show ?case using Cons.IH [OF wtable_inv_cache [OF Cons.prems c(2)]] c(1)
      by (auto simp del: mem_ok_site)
  qed
  then show ?thesis by auto
qed

theorem wtable_cache_transparent_witness:
  "\<exists>(t :: nat wtable) t'. wtable_create True True True True True True True 0 (Ptr plain_destructor) = Ptr t \<and>
     wtable_gets mem_ok t [''a'', ''b'', ''a''] = Some (map (wtable_answer t) [''a'', ''b'', ''a''], t')
     \<and> wildcards t' = wildcards t"
proof -
  obtain t :: "nat wtable" where t: "wtable_create True True True True True True True 0 (Ptr plain_destructor) = Ptr t"
    by (rule new_wtable)
  show ?thesis using wtable_cache_transparent [OF wtable_create_inv(1) [OF t], of "[''a'', ''b'', ''a'']"] t by blast
qed

text \<open>Property C4: Ownership in the wildcard table: after any sequence of operations on a new table and then
  \<open>wtable_free\<close>, the destructor has run for every value that was ever stored exactly as many times as it
  was stored, whether the value was in the hash table, in the array, or moved while the
  array was resized; the cache releases nothing.\<close>

theorem wtable_releases_once:
  assumes "wtable_create True True True True True True True junk (Ptr plain_destructor) = Ptr t"
    and "\<forall>x\<in>set ops. op_key x \<noteq> []"
  shows "\<exists>rs t' freed. run_ops (wtable_set mem_ok) (wtable_del mem_ok) ops t = Some (rs, t')
    \<and> wtable_free t' = Some freed \<and> mset freed = values_set ops"
proof -
  have owns: "wtable_owns t" using wtable_create_inv(1,3) [OF assms(1)] by (simp add: wtable_owns_def)
  obtain t' where t': "run_ops (wtable_set mem_ok) (wtable_del mem_ok) ops t = Some (fst (map_ops ops (wtable_abs t)), t')"
    "wtable_owns t'" using wild_owner.run_ops_refines [OF owns assms(2)] by blast
  have "wtable_values t' + wtable_gone t' = values_set ops"
    using wild_owner.run_ops_owned [OF owns assms(2) t'(1)] wtable_create_inv(4,5) [OF assms(1)] by simp
  with t' wtable_free_ok [OF t'(2)] show ?thesis by fastforce
qed

theorem wtable_releases_once_witness:
  "\<exists>t rs t' freed. wtable_create True True True True True True True 0 (Ptr plain_destructor) = Ptr t \<and>
     run_ops (wtable_set mem_ok) (wtable_del mem_ok) [SetOp ''a*'' (Ptr 1), SetOp ''a*'' (Ptr 2), SetOp ''b'' (Ptr 3)] t = Some (rs, t')
     \<and> wtable_free t' = Some freed \<and> mset freed = {#Ptr (1 :: nat), Ptr 2, Ptr 3#}"
proof -
  obtain t :: "nat wtable" where t: "wtable_create True True True True True True True 0 (Ptr plain_destructor) = Ptr t"
    by (rule new_wtable)
  show ?thesis using wtable_releases_once [OF t, of "[SetOp ''a*'' (Ptr 1), SetOp ''a*'' (Ptr 2), SetOp ''b'' (Ptr 3)]"] t
    by (auto simp: add_mset_commute)
qed

text \<open>Storing a pattern decides the names it alone matches: after \<open>wtable_set\<close> of a pattern, every name
  that it matches, that no other pattern of the table matches and that has no entry of its own, is
  answered with the new value, although the cache may have held an older answer for that name.\<close>

theorem wtable_set_pattern_answers:
  assumes "wtable_inv t" and "is_pat p" and "pat_matches p k"
    and "\<forall>q. q \<noteq> p \<longrightarrow> pat_matches q k \<longrightarrow> wtable_abs t q = None" and "is_pat k \<or> wtable_abs t k = None"
  shows "\<exists>t1 t2. wtable_set mem_ok t p v = Some (True, t1) \<and> wtable_get mem_ok t1 k = Some (v, t2)"
proof -
  have "p \<noteq> []" using assms(2) by (simp add: is_pat_def)
  then obtain t1 where t1: "wtable_set mem_ok t p v = Some (True, t1)" "wtable_inv t1" "wtable_abs t1 = (wtable_abs t)(p \<mapsto> v)"
    using wild_table.set_law [OF assms(1)] by blast
  obtain r t2 where r: "wtable_get mem_ok t1 k = Some (r, t2)" "pattern_answer (wtable_abs t1) k r"
    using wild_table.find_law [OF t1(2)] by blast
  have none: "is_pat k \<or> wtable_abs t1 k = None" using assms(2,5) by (auto simp: t1(3))
  have "\<exists>q\<in>dom (wtable_abs t1). pat_matches q k" using assms(3) by (auto simp: t1(3))
  with r(2) none obtain q where "pat_matches q k" "wtable_abs t1 q = Some r"
    by (auto simp: pattern_answer_def split: if_splits)
  with assms(4) have "r = v" by (auto simp: t1(3) split: if_splits)
  with t1(1) r(1) show ?thesis by blast
qed

theorem wtable_set_pattern_answers_witness:
  "\<exists>(t :: nat wtable) t1 t2. wtable_create True True True True True True True 0 (Ptr plain_destructor) = Ptr t \<and>
     wtable_set mem_ok t ''posix/*'' (Ptr 5) = Some (True, t1) \<and> wtable_get mem_ok t1 ''posix/io'' = Some (Ptr 5, t2)"
proof -
  obtain t :: "nat wtable" where t: "wtable_create True True True True True True True 0 (Ptr plain_destructor) = Ptr t"
    by (rule new_wtable)
  show ?thesis
    using wtable_set_pattern_answers [OF wtable_create_inv(1) [OF t], of "''posix/*''" "''posix/io''" "Ptr 5"] t
      wtable_create_inv(2) [OF t] by (auto simp: is_pat_def pat_matches_def)
qed

end
