(* ===== verification/Prng.thy ===== *)
theory Prng
  imports CFloat "HOL-Library.Word"
begin

text \<open>
  The pseudorandom number generator of libfiu/fiu.c, which decides for the points of failure
  that fail with a probability: a linear congruential generator on \<open>unsigned int\<close>. The theory shows
  that its period is all of the \<open>2 ^ 32\<close> states, and with it how often a point of failure fails.
\<close>

record prng =
  randd_xn :: "32 word"
  randd_xn_manual :: bool

definition prng_init :: prng where
  "prng_init = \<lparr>randd_xn = 0xA673F42D, randd_xn_manual = False\<rparr>"

text \<open>\<open>usec\<close> is what \<open>gettimeofday\<close> stores in \<open>tv_usec\<close>.\<close>

definition prng_seed :: "int \<Rightarrow> prng \<Rightarrow> prng" where
  "prng_seed usec g = (if randd_xn_manual g then g else g\<lparr>randd_xn := word_of_int usec\<rparr>)"

definition fiu_set_prng_seed :: "32 word \<Rightarrow> prng \<Rightarrow> prng" where
  "fiu_set_prng_seed seed g = g\<lparr>randd_xn := seed, randd_xn_manual := True\<rparr>"

definition atfork_child :: "int \<Rightarrow> prng \<Rightarrow> prng" where
  "atfork_child usec g = prng_seed usec g"

definition randd_next :: "32 word \<Rightarrow> 32 word" where
  "randd_next x = 1103515245 * x + 12345"

text \<open>\<open>(double) randd_xn / UINT_MAX\<close>: both operands are exact as a \<open>double\<close>, the quotient is rounded.\<close>

definition randd_value :: "32 word \<Rightarrow> rat" where
  "randd_value x = f64 (of_nat (unat x) / of_nat (2 ^ 32 - 1))"

definition randd :: "prng \<Rightarrow> rat \<times> prng" where
  "randd g = (let x = randd_next (randd_xn g) in (randd_value x, g\<lparr>randd_xn := x\<rparr>))"

subsection \<open>The period\<close>

fun geo :: "nat \<Rightarrow> nat \<Rightarrow> nat" where
  "geo a 0 = 0"
| "geo a (Suc n) = geo a n + a ^ n"

lemma geo_add: "geo a (m + n) = geo a m + a ^ m * geo a n"
  by (induction n) (simp_all add: power_add algebra_simps)

lemma geo_double: "geo a (2 * m) = geo a m * (1 + a ^ m)"
  unfolding mult_2 geo_add by (simp add: algebra_simps)

lemma power_mod4: "a mod 4 = 1 \<Longrightarrow> a ^ m mod 4 = (1 :: nat)"
  using power_mod [of a 4 m] by simp

lemma geo_even: "odd a \<Longrightarrow> even (geo a n) \<longleftrightarrow> even n"
  by (induction n) auto

lemma pow2_dvd_mult_odd: "odd (u :: nat) \<Longrightarrow> 2 ^ k dvd g * u \<longleftrightarrow> 2 ^ k dvd g"
  by (metis coprime_commute coprime_dvd_mult_left_iff coprime_power_left_iff coprime_left_2_iff_odd)

lemma geo_dvd:
  assumes "a mod 4 = 1"
  shows "2 ^ k dvd geo a n \<longleftrightarrow> 2 ^ k dvd n"
proof (induction k arbitrary: n)
  case (Suc k)
  have odd: "odd a" using assms by presburger
  show ?case
  proof (cases "even n")
    case False
    then have "odd (geo a n)" using geo_even [OF odd] by simp
    with False show ?thesis by (metis dvd_mult_left even_numeral power_Suc dvd_trans)
  next
    case True
    then obtain m where n: "n = 2 * m" by blast
    have "(1 + a ^ m) mod 4 = 2" using power_mod4 [OF assms, of m] by presburger
    then have "even (1 + a ^ m)" "odd ((1 + a ^ m) div 2)" by presburger+
    then obtain u where u: "1 + a ^ m = 2 * u" "odd u" by (metis dvd_mult_div_cancel)
    have "geo a n = 2 * (geo a m * u)" by (simp only: n geo_double u(1) mult.left_commute)
    then have "2 ^ Suc k dvd geo a n \<longleftrightarrow> 2 ^ k dvd geo a m * u" by (simp only: power_Suc nat_mult_dvd_cancel_disj) simp
    also have "\<dots> \<longleftrightarrow> 2 ^ k dvd geo a m"
      by (rule pow2_dvd_mult_odd [OF u(2)])
    also have "\<dots> \<longleftrightarrow> 2 ^ Suc k dvd n" using Suc.IH by (simp add: n)
    finally show ?thesis .
  qed
qed simp

definition step_diff :: "32 word \<Rightarrow> 32 word" where
  "step_diff x = 1103515244 * x + 12345"

lemma geo_power: "int a ^ n = 1 + (int a - 1) * int (geo a n)"
proof (induction n)
  case (Suc n)
  have "1 + (int a - 1) * int (geo a (Suc n)) = (1 + (int a - 1) * int (geo a n)) + (int a - 1) * int a ^ n"
    by (simp add: algebra_simps)
  also have "\<dots> = int a ^ Suc n" unfolding Suc.IH [symmetric] by (simp add: algebra_simps)
  finally show ?case ..
qed simp

lemma geo_power_word: "(1103515245 :: 32 word) ^ n = 1 + 1103515244 * of_nat (geo 1103515245 n)"
  using arg_cong [OF geo_power [of 1103515245 n], of "of_int :: int \<Rightarrow> 32 word"] by simp

lemma randd_iterate: "(randd_next ^^ n) x = x + of_nat (geo 1103515245 n) * step_diff x"
proof (induction n)
  case (Suc n)
  define g where "g = (of_nat (geo 1103515245 n) :: 32 word)"
  have p: "of_nat (geo 1103515245 (Suc n)) = g + (1 + 1103515244 * g)"
    using geo_power_word [of n] by (simp add: g_def)
  have "(randd_next ^^ Suc n) x = 1103515245 * (x + g * step_diff x) + 12345"
    unfolding funpow.simps o_apply Suc.IH g_def randd_next_def ..
  also have "\<dots> = x + (g + (1 + 1103515244 * g)) * step_diff x" by (simp add: step_diff_def algebra_simps)
  finally show ?case using p by simp
qed simp

lemma step_diff_odd: "odd (unat (step_diff x))"
proof -
  have "odd (step_diff x)" by (simp add: step_diff_def)
  then have "bit (step_diff x) 0" by (rule iffD2 [OF bit_0])
  then have "bit (unat (step_diff x)) 0"
    unfolding bit_unsigned_iff by (intro conjI) (simp_all only: possible_bit_nat simp_thms)
  then show ?thesis by (rule iffD1 [OF bit_0])
qed

lemma randd_period: "(randd_next ^^ n) x = x \<longleftrightarrow> 2 ^ 32 dvd n"
proof -
  let ?g = "geo 1103515245 n"
  have "(randd_next ^^ n) x = x \<longleftrightarrow> (of_nat (?g * unat (step_diff x)) :: 32 word) = 0"
    by (simp add: randd_iterate)
  also have "\<dots> \<longleftrightarrow> 2 ^ 32 dvd ?g * unat (step_diff x)" by (subst word_of_nat_eq_0_iff) simp
  also have "\<dots> \<longleftrightarrow> 2 ^ 32 dvd ?g"
    by (rule pow2_dvd_mult_odd [OF step_diff_odd])
  also have "\<dots> \<longleftrightarrow> 2 ^ 32 dvd n" by (rule geo_dvd) simp
  finally show ?thesis .
qed

lemma randd_iterate_inj: "inj_on (\<lambda>n. (randd_next ^^ n) x) {..<2 ^ 32}"
proof -
  have False if "i < j" "j < 2 ^ 32" "(randd_next ^^ i) x = (randd_next ^^ j) x" for i j
  proof -
    have "(randd_next ^^ (j - i)) ((randd_next ^^ i) x) = (randd_next ^^ i) x"
      using that(1,3) by (metis funpow_add le_add_diff_inverse2 less_imp_le o_apply)
    then have d: "2 ^ 32 dvd j - i" by (simp only: randd_period)
    have "0 < j - i" using that(1) by simp
    from dvd_imp_le [OF d this] that(2) show False by linarith
  qed
  then show ?thesis by (intro inj_onI) (metis lessThan_iff nat_neq_iff)
qed

lemma card_word32: "card (UNIV :: 32 word set) = 2 ^ 32"
  by (simp add: card_word)

lemma randd_iterate_bij: "bij_betw (\<lambda>n. (randd_next ^^ n) x) {..<2 ^ 32} UNIV"
proof -
  have "(\<lambda>n. (randd_next ^^ n) x) ` {..<2 ^ 32} = UNIV"
    by (rule card_subset_eq) (simp_all only: finite subset_UNIV card_image [OF randd_iterate_inj] card_lessThan card_word32)
  with randd_iterate_inj show ?thesis by (simp only: bij_betw_def simp_thms)
qed

subsection \<open>How often a point of failure fails\<close>

fun randd_draws :: "nat \<Rightarrow> prng \<Rightarrow> rat list" where
  "randd_draws 0 g = []"
| "randd_draws (Suc n) g = (let (v, g') = randd g in v # randd_draws n g')"

lemma randd_draws_map: "randd_draws n g = map (\<lambda>i. randd_value ((randd_next ^^ i) (randd_next (randd_xn g)))) [0..<n]"
proof (induction n arbitrary: g)
  case (Suc n)
  have "[0..<Suc n] = 0 # map Suc [0..<n]" by (metis map_Suc_upt upt_conv_Cons zero_less_Suc)
  then show ?case using Suc by (simp add: randd_def Let_def funpow_Suc_right del: funpow.simps upt_Suc)
qed simp

definition fires :: "rat \<Rightarrow> nat set" where
  "fires p = {m. m < 2 ^ 32 \<and> f64 (of_nat m / of_nat (2 ^ 32 - 1)) < p}"

lemma draws_below:
  "length (filter (\<lambda>v. v < p) (randd_draws (2 ^ 32) g)) = card (fires p)"
proof -
  define x where "x = randd_next (randd_xn g)"
  define it where "it = (\<lambda>n. (randd_next ^^ n) x)"
  have bij: "bij_betw it {..<2 ^ 32} UNIV" using randd_iterate_bij [of x] by (simp only: it_def)
  have "length (filter (\<lambda>v. v < p) (randd_draws (2 ^ 32) g)) = length (filter (\<lambda>i. randd_value (it i) < p) [0..<2 ^ 32])"
    by (simp only: randd_draws_map x_def [symmetric] it_def filter_map length_map o_def)
  also have "\<dots> = card {i. i < 2 ^ 32 \<and> randd_value (it i) < p}"
    by (simp only: length_filter_conv_card length_upt minus_nat.diff_0 nth_upt add_0 cong: conj_cong)
  also have "\<dots> = card (it ` {i. i < 2 ^ 32 \<and> randd_value (it i) < p})"
    by (rule card_image [symmetric], rule inj_on_subset [OF bij_betw_imp_inj_on [OF bij]]) auto
  also have "it ` {i. i < 2 ^ 32 \<and> randd_value (it i) < p} = {w. randd_value w < p}"
    using bij_betw_imp_surj_on [OF bij] by (auto simp: image_iff)
  also have "card \<dots> = card (unat ` {w :: 32 word. randd_value w < p})"
    by (rule card_image [symmetric]) (auto intro!: inj_onI simp: word_unat_eq_iff)
  also have "unat ` {w :: 32 word. randd_value w < p} = fires p"
  proof
    show "unat ` {w :: 32 word. randd_value w < p} \<subseteq> fires p"
    proof (rule image_subsetI)
      fix w :: "32 word"
      have "unat w < 2 ^ LENGTH(32)" by (rule unsigned_less)
      then show "unat w \<in> fires p" if "w \<in> {w. randd_value w < p}"
        using that by (simp add: fires_def randd_value_def)
    qed
    show "fires p \<subseteq> unat ` {w :: 32 word. randd_value w < p}"
    proof
      fix m assume m: "m \<in> fires p"
      then have "unat (of_nat m :: 32 word) = m" by (simp add: fires_def unat_of_nat)
      with m show "m \<in> unat ` {w :: 32 word. randd_value w < p}"
        by (intro image_eqI [of _ _ "of_nat m"]) (simp_all add: fires_def randd_value_def del: of_nat_unat)
    qed
  qed
  finally show ?thesis .
qed

lemma fires_bounds:
  assumes "0 \<le> p" and "p \<le> 1"
  shows "p * 2 ^ 32 - 2 \<le> of_nat (card (fires p))" and "of_nat (card (fires p)) \<le> p * 2 ^ 32 + 2"
proof -
  define N :: rat where "N = of_nat (2 ^ 32 - 1)"
  define e :: rat where "e = 1 / 2 ^ 53"
  have N: "0 < N" "N = 2 ^ 32 - 1" by (simp_all add: N_def)
  have e: "0 < e" "e < 1" "e * 2 ^ 53 = 1" by (simp_all add: e_def)
  have q: "of_nat m / N * (1 - e) \<le> f64 (of_nat m / N)" "f64 (of_nat m / N) \<le> of_nat m / N * (1 + e)" for m :: nat
    using rnd_bounds [of "of_nat m / N" 53] N(1) unfolding e_def by simp_all
  have fin: "finite (fires p)" by (simp add: fires_def)
  show "of_nat (card (fires p)) \<le> p * 2 ^ 32 + 2"
  proof -
    define r where "r = p * N / (1 - e)"
    have "m < nat \<lceil>r\<rceil>" if "m \<in> fires p" for m
    proof -
      have "of_nat m / N * (1 - e) < p" using that q(1) [of m] by (simp add: fires_def N_def)
      then have "of_nat m < r" using N(1) e(2) by (simp add: r_def field_simps)
      then show ?thesis by linarith
    qed
    then have "fires p \<subseteq> {..<nat \<lceil>r\<rceil>}" by blast
    then have "card (fires p) \<le> nat \<lceil>r\<rceil>" using card_mono [of "{..<nat \<lceil>r\<rceil>}" "fires p"] by simp
    moreover have "0 \<le> r" using assms(1) N(1) e(2) by (simp add: r_def)
    ultimately have "of_nat (card (fires p)) \<le> r + 1" by linarith
    moreover have "r \<le> p * N + 1"
    proof -
      have "p * N * e \<le> 1 - e" using assms N e by (simp add: e_def N) 
      then show ?thesis using e(2) by (simp add: r_def field_simps)
    qed
    ultimately show ?thesis using assms N(2) by (simp add: algebra_simps)
  qed
  show "p * 2 ^ 32 - 2 \<le> of_nat (card (fires p))"
  proof -
    define r where "r = p * N / (1 + e)"
    have "m \<in> fires p" if "of_nat m < r" for m
    proof -
      have a: "of_nat m * (1 + e) < p * N" using that e(1) by (simp add: r_def field_simps)
      then have "of_nat m / N * (1 + e) < p" using N(1) by (simp add: field_simps)
      then have "f64 (of_nat m / N) < p" using q(2) [of m] by linarith
      moreover have "of_nat m < N"
      proof -
        have "of_nat m * 1 \<le> of_nat m * (1 + e)" using e(1) by (intro mult_left_mono) simp_all
        then have "of_nat m \<le> of_nat m * (1 + e)" by simp
        also have "\<dots> < p * N" by (rule a)
        also have "\<dots> \<le> N" using assms(2) N(1) by simp
        finally show ?thesis .
      qed
      then have "m < 2 ^ 32" unfolding N_def of_nat_less_iff by simp
      ultimately show ?thesis by (simp add: fires_def N_def)
    qed
    moreover have "of_nat m < r" if "m < nat \<lceil>r\<rceil>" for m using that by linarith
    ultimately have "{..<nat \<lceil>r\<rceil>} \<subseteq> fires p" by blast
    from card_mono [OF fin this] have "nat \<lceil>r\<rceil> \<le> card (fires p)" by simp
    then have "r \<le> of_nat (card (fires p))" by linarith
    moreover have "p * N - 1 \<le> r"
    proof -
      have "p * N * e \<le> 1 + e" using assms N e by (simp add: e_def N)
      then show ?thesis using e(1) by (simp add: r_def field_simps)
    qed
    ultimately show ?thesis using assms N(2) by (simp add: algebra_simps)
  qed
qed

subsection \<open>Properties\<close>

text \<open>Property C31: The rate of a probability: whatever the seed, of any \<open>2 ^ 32\<close> consecutive draws of the generator the test
  \<open>probability > randd ()\<close> of \<open>fiu_fail\<close> holds for \<open>probability * 2 ^ 32\<close>, up to an error of 2 draws, rounding included.\<close>

theorem randd_rate:
  assumes "0 \<le> p" and "p \<le> 1"
  shows "\<bar>of_nat (length (filter (\<lambda>v. v < p) (randd_draws (2 ^ 32) g))) - p * 2 ^ 32\<bar> \<le> 2"
  using fires_bounds [OF assms] unfolding draws_below by linarith

theorem randd_rate_witness:
  "\<bar>of_nat (length (filter (\<lambda>v. v < 1 / 4) (randd_draws (2 ^ 32) prng_init))) - 1 / 4 * 2 ^ 32\<bar> \<le> (2 :: rat)"
  by (rule randd_rate) simp_all

text \<open>The generator has the full period: from any state, running it \<open>n\<close> times returns to that state exactly if
  \<open>2 ^ 32\<close> divides \<open>n\<close>, so every seed visits all states, and no two seeds are on different cycles.\<close>

theorem randd_full_period:
  "(randd_next ^^ n) x = x \<longleftrightarrow> 2 ^ 32 dvd n"
  by (rule randd_period)

text \<open>The seed can be fixed: after \<open>fiu_set_prng_seed\<close> neither \<open>prng_seed\<close> nor the handler that runs
  in the child after a fork changes the generator, so the sequence of draws depends on the seed only.\<close>

theorem prng_manual_seed:
  "randd_draws n (atfork_child u (prng_seed v (fiu_set_prng_seed seed g)))
     = randd_draws n (fiu_set_prng_seed seed prng_init)"
  by (simp add: randd_draws_map atfork_child_def prng_seed_def fiu_set_prng_seed_def)

lemma randd_value_one: "randd_value x < 1 \<longleftrightarrow> x \<noteq> - 1"
proof (cases "x = - 1")
  case True
  have "randd_value (- 1) = f64 (of_nat 1)" by (simp add: randd_value_def unsigned_minus_1_eq_mask mask_eq_exp_minus_1)
  also have "\<dots> = 1" by (subst rnd_of_nat) simp_all
  finally have "randd_value (- 1) = 1" .
  with True show ?thesis by simp
next
  case False
  have "unat x < 2 ^ LENGTH(32)" by (rule unsigned_less)
  moreover have "unat x \<noteq> 2 ^ 32 - 1"
  proof
    assume "unat x = 2 ^ 32 - 1"
    then have "unat x = unat (- 1 :: 32 word)" by (simp add: unsigned_minus_1_eq_mask mask_eq_exp_minus_1)
    with False show False by (simp only: word_unat_eq_iff simp_thms)
  qed
  ultimately have le: "unat x \<le> 4294967294" by simp
  define m :: rat where "m = of_nat (unat x)"
  have "m \<le> 4294967294" unfolding m_def using of_nat_mono [OF le, where 'a = rat] by simp
  then have "m / 4294967295 * (1 + 1 / 2 ^ 53) < 1" by (simp add: field_simps)
  moreover have "0 \<le> m / 4294967295" by (simp add: m_def del: of_nat_unat)
  ultimately have "f64 (m / 4294967295) < 1" using rnd_bounds(2) [of "m / 4294967295" 53] by linarith
  moreover have "randd_value x = f64 (m / 4294967295)" by (simp add: randd_value_def m_def)
  ultimately show ?thesis using False by simp
qed

text \<open>The special probabilities: 0 never fails, and -1, which the documentation of \<open>fiu_enable_random\<close> gives as
  always failing, never fails either; 1 fails on every draw but the one for the largest state, where
  the value drawn is exactly 1.\<close>

theorem randd_special_probabilities:
  "\<not> fst (randd g) < 0 \<and> \<not> fst (randd g) < - 1 \<and> (fst (randd g) < 1 \<longleftrightarrow> randd_next (randd_xn g) \<noteq> - 1)"
proof -
  have "0 \<le> fst (randd g)" by (simp add: randd_def Let_def randd_value_def rnd_nonneg)
  moreover have "fst (randd g) < 1 \<longleftrightarrow> randd_next (randd_xn g) \<noteq> - 1"
    by (simp add: randd_def Let_def randd_value_one)
  ultimately show ?thesis by linarith
qed

end
