(* ===== verification/Backtrace.thy ===== *)
theory Backtrace
  imports Prelude
begin

text \<open>
  The backtrace functions of libfiu/backtrace.c. What the dynamic linker and the stack unwinder know of
  the process is a parameter, the record \<open>platform\<close>; its fields are the results of the calls of
  \<open>backtrace\<close>, \<open>dladdr\<close>, \<open>dladdr1\<close> and \<open>dlsym\<close>. An address is a 64-bit word, the address 0 is NULL.
\<close>

type_synonym addr = "64 word"

text \<open>\<open>p_frames\<close> are the return addresses on the stack, innermost first; \<open>p_dladdr\<close> gives the field
  \<open>dli_saddr\<close> unless the call returns 0, \<open>p_dladdr1\<close> also the size in the symbol table entry, if there is an entry.\<close>

record platform =
  p_frames :: "addr list"
  p_dladdr :: "addr \<Rightarrow> addr option"
  p_dladdr1 :: "addr \<Rightarrow> (addr \<times> addr option) option"
  p_dlsym :: "string \<Rightarrow> addr"

subsection \<open>The functions on platforms with a backtrace\<close>

text \<open>\<open>backtrace (buffer, size)\<close> stores at most \<open>size\<close> addresses; the result is what is in the buffer.\<close>

definition get_backtrace :: "platform \<Rightarrow> nat \<Rightarrow> addr list" where
  "get_backtrace pl n = take n (p_frames pl)"

definition get_func_start :: "platform \<Rightarrow> addr \<Rightarrow> addr" where
  "get_func_start pl pc = (case p_dladdr pl pc of None \<Rightarrow> 0 | Some saddr \<Rightarrow> saddr)"

definition get_func_end :: "platform \<Rightarrow> addr \<Rightarrow> addr" where
  "get_func_end pl func =
     (case p_dladdr1 pl func of
        None \<Rightarrow> 0
      | Some (saddr, elf_info) \<Rightarrow>
          (case elf_info of
             None \<Rightarrow> 0
           | Some st_size \<Rightarrow> if saddr = 0 then 0 else func + st_size))"

definition get_func_addr :: "platform \<Rightarrow> string \<Rightarrow> addr" where
  "get_func_addr pl func_name = p_dlsym pl func_name"

subsection \<open>The dummy versions\<close>

definition get_backtrace_dummy :: "nat \<Rightarrow> addr list" where
  "get_backtrace_dummy n = []"

definition get_func_end_dummy :: "addr \<Rightarrow> addr" where
  "get_func_end_dummy pc = 0"

definition get_func_start_dummy :: "addr \<Rightarrow> addr" where
  "get_func_start_dummy pc = 0"

definition get_func_addr_dummy :: "string \<Rightarrow> addr" where
  "get_func_addr_dummy func_name = 0"

text \<open>The platform on which the functions above do what the dummy versions do, so that what is
  proved for any platform covers a build with \<open>DUMMY_BACKTRACE\<close>.\<close>

definition dummy_platform :: platform where
  "dummy_platform = \<lparr>p_frames = [], p_dladdr = (\<lambda>_. None), p_dladdr1 = (\<lambda>_. None), p_dlsym = (\<lambda>_. 0)\<rparr>"

lemma dummy_platform_functions [simp]:
  "get_backtrace dummy_platform = get_backtrace_dummy"
  "get_func_end dummy_platform = get_func_end_dummy"
  "get_func_start dummy_platform = get_func_start_dummy"
  "get_func_addr dummy_platform = get_func_addr_dummy"
  by (simp_all add: fun_eq_iff dummy_platform_def get_backtrace_def get_backtrace_dummy_def get_func_end_def
      get_func_end_dummy_def get_func_start_def get_func_start_dummy_def get_func_addr_def get_func_addr_dummy_def)

subsection \<open>Does it work?\<close>

text \<open>The loop of \<open>backtrace_works\<close> over the buffer.\<close>

fun works_loop :: "platform \<Rightarrow> addr \<Rightarrow> addr \<Rightarrow> addr list \<Rightarrow> int" where
  "works_loop pl start fend [] = 0"
| "works_loop pl start fend (pc # buffer) =
     (if fend \<noteq> 0 then
        (if start \<le> pc \<and> pc \<le> fend then 1 else works_loop pl start fend buffer)
      else
        (if get_func_start pl pc = start then 1 else works_loop pl start fend buffer))"

text \<open>\<open>works\<close> is the static variable, -1 until the first call has decided. The result is what the call
  returns, which is also the new value of the variable.\<close>

definition backtrace_works :: "platform \<Rightarrow> addr \<Rightarrow> int \<Rightarrow> int" where
  "backtrace_works pl caller works =
     (if 0 \<le> works then works
      else
        let buffer = get_backtrace pl 100
        in if buffer = [] then 0
           else
             let start = get_func_start pl caller; fend = get_func_end pl caller
             in if start = 0 \<and> fend = 0 then 0 else works_loop pl start fend buffer)"

lemma works_loop_iff:
  "works_loop pl start fend buffer =
    (if \<exists>pc\<in>set buffer. if fend \<noteq> 0 then start \<le> pc \<and> pc \<le> fend else get_func_start pl pc = start then 1 else 0)"
  by (induction buffer) auto

lemma backtrace_works_range: "backtrace_works pl caller works \<in> {0, 1} \<union> {works}"
  by (simp add: backtrace_works_def Let_def works_loop_iff)

lemma backtrace_works_memo: "backtrace_works pl' caller' (backtrace_works pl caller (- 1)) = backtrace_works pl caller (- 1)"
  by (simp add: backtrace_works_def Let_def works_loop_iff)

lemma backtrace_works_dummy: "backtrace_works dummy_platform caller (- 1) = 0"
  by (simp add: backtrace_works_def get_backtrace_dummy_def)

subsection \<open>Properties\<close>

text \<open>Calls one after the other, with the answers.\<close>

fun works_calls :: "(platform \<times> addr) list \<Rightarrow> int \<Rightarrow> int list" where
  "works_calls [] works = []"
| "works_calls ((pl, caller) # cs) works = (let r = backtrace_works pl caller works in r # works_calls cs r)"

lemma works_calls_known: "0 \<le> works \<Longrightarrow> works_calls cs works = replicate (length cs) works"
  by (induction cs) (auto simp: backtrace_works_def Let_def)

text \<open>A platform for the example: one return address is on the stack, and the only function starts at 64, the size of its code unknown.\<close>

definition known_platform :: platform where
  "known_platform = \<lparr>p_frames = [70], p_dladdr = (\<lambda>_. Some 64), p_dladdr1 = (\<lambda>_. None), p_dlsym = (\<lambda>_. 64)\<rparr>"

text \<open>\<open>backtrace_works\<close> decides once: the first call answers 1 exactly if one of the first 100 return addresses
  lies in the function that called it (between its ends, both included, or, where the end is unknown, in a
  function with the same start), provided some end of the function is known, and all later calls repeat
  that answer, whatever the caller and the stack are by then.\<close>

theorem backtrace_works_decides:
  "works_calls ((pl, caller) # cs) (- 1) = replicate (Suc (length cs))
     (if \<not> (get_func_start pl caller = 0 \<and> get_func_end pl caller = 0) \<and>
         (\<exists>pc \<in> set (get_backtrace pl 100).
            if get_func_end pl caller \<noteq> 0 then get_func_start pl caller \<le> pc \<and> pc \<le> get_func_end pl caller
            else get_func_start pl pc = get_func_start pl caller)
      then 1 else 0)"
proof -
  have "0 \<le> backtrace_works pl caller (- 1)"
    by (simp add: backtrace_works_def Let_def works_loop_iff)
  then have "works_calls ((pl, caller) # cs) (- 1) = replicate (Suc (length cs)) (backtrace_works pl caller (- 1))"
    by (simp add: Let_def works_calls_known)
  then show ?thesis by (auto simp: backtrace_works_def Let_def works_loop_iff)
qed

theorem backtrace_works_decides_witness:
  "works_calls [(known_platform, 70), (dummy_platform, 0)] (- 1) = [1, 1]"
proof -
  have s: "get_func_start known_platform pc = 64" "get_func_end known_platform pc = 0" "get_backtrace known_platform 100 = [70]" for pc
    by (simp_all add: known_platform_def get_backtrace_def get_func_start_def get_func_end_def)
  have "\<not> (64 :: addr) = 0" by simp
  with backtrace_works_decides [of known_platform 70 "[(dummy_platform, 0)]"] show ?thesis
    by (simp add: s del: works_calls.simps)
qed

end
