(* ===== verification/Cstring.thy ===== *)
theory Cstring
  imports Prelude CFloat
begin

text \<open>
  The functions of the C library on strings that the program parses its input with: \<open>atoi\<close>,
  \<open>strtoul\<close> and \<open>strtod\<close> in base 10, \<open>strncpy\<close> into a buffer that is zero to begin with, \<open>strtok_r\<close> and
  \<open>getsubopt\<close>. A string is the characters before the terminating zero byte.
\<close>

definition is_space :: "char \<Rightarrow> bool" where
  "is_space c \<longleftrightarrow> c \<in> {CHR '' '', CHR 0x09, CHR 0x0A, CHR 0x0B, CHR 0x0C, CHR 0x0D}"

definition digit_val :: "char \<Rightarrow> nat option" where
  "digit_val c = (let n = of_char c :: nat in if 48 \<le> n \<and> n \<le> 57 then Some (n - 48) else None)"

text \<open>The number that the longest prefix of digits spells, after \<open>acc\<close>, and what follows it.\<close>

fun digits :: "nat \<Rightarrow> string \<Rightarrow> nat \<times> string" where
  "digits acc [] = (acc, [])"
| "digits acc (c # cs) = (case digit_val c of None \<Rightarrow> (acc, c # cs) | Some d \<Rightarrow> digits (10 * acc + d) cs)"

text \<open>White space and a sign; the result is whether the number is negative, and the rest.\<close>

definition sign_part :: "string \<Rightarrow> bool \<times> string" where
  "sign_part s = (case dropWhile is_space s of
       [] \<Rightarrow> (False, [])
     | c # cs \<Rightarrow> if c = CHR ''-'' then (True, cs) else if c = CHR ''+'' then (False, cs) else (False, c # cs))"

definition strtol_value :: "string \<Rightarrow> int" where
  "strtol_value s = (let (neg, t) = sign_part s; n = int (fst (digits 0 t)) in if neg then - n else n)"

text \<open>\<open>atoi\<close> of a NULL pointer, or of a number that is no \<open>int\<close>, has no defined result.\<close>

definition atoi :: "string ptr \<Rightarrow> int option" where
  "atoi p = do {
     s \<leftarrow> deref p;
     if - (2 ^ 31) \<le> strtol_value s \<and> strtol_value s < 2 ^ 31 then Some (strtol_value s) else None }"

text \<open>\<open>strtoul (p, NULL, 10)\<close>: a minus sign negates the value modulo \<open>2 ^ 64\<close>, a value that is too
  large gives \<open>ULONG_MAX\<close>.\<close>

definition strtoul :: "string ptr \<Rightarrow> 64 word option" where
  "strtoul p = do {
     s \<leftarrow> deref p;
     let (neg, t) = sign_part s;
     let n = fst (digits 0 t);
     Some (if 2 ^ 64 \<le> n then - 1 else if neg then - of_nat n else of_nat n) }"

text \<open>\<open>strtod (p, NULL)\<close> of a decimal number: digits, a fraction, an exponent, each optional. Of
  hexadecimal numbers, infinities and NaNs, which are no rational numbers, the model says nothing: those
  begin with one of the characters \<open>x\<close>, \<open>i\<close>, \<open>n\<close> where a digit is expected.\<close>

definition fraction_part :: "string \<Rightarrow> nat \<times> nat \<times> string" where
  "fraction_part t = (case t of
       [] \<Rightarrow> (0, 0, [])
     | c # cs \<Rightarrow> if c = CHR ''.'' then (let (n, r) = digits 0 cs in (n, length cs - length r, r)) else (0, 0, t))"

definition exponent_part :: "string \<Rightarrow> int" where
  "exponent_part t = (case t of
       [] \<Rightarrow> 0
     | c # cs \<Rightarrow> if c = CHR ''e'' \<or> c = CHR ''E'' then
           (case cs of [] \<Rightarrow> 0
            | d # ds \<Rightarrow> if d = CHR ''-'' then - int (fst (digits 0 ds))
                       else if d = CHR ''+'' then int (fst (digits 0 ds)) else int (fst (digits 0 cs)))
         else 0)"

definition strtod :: "string ptr \<Rightarrow> rat option" where
  "strtod p = do {
     s \<leftarrow> deref p;
     let (neg, t) = sign_part s;
     if (case t of c # _ \<Rightarrow> c \<in> {CHR ''i'', CHR ''I'', CHR ''n'', CHR ''N''} | [] \<Rightarrow> False) \<or> take 2 t \<in> {''0x'', ''0X''} then None
     else do {
       let (whole, t1) = digits 0 t;
       let (frac, k, t2) = fraction_part t1;
       let v = (of_nat whole + of_nat frac / 10 ^ k) * 10 powi exponent_part t2;
       Some (if neg then - f64 v else f64 v) } }"

text \<open>The conversion of a \<open>double\<close> to a \<open>float\<close>.\<close>

definition to_float :: "rat \<Rightarrow> rat" where
  "to_float x = (if x < 0 then - f32 (- x) else f32 x)"

text \<open>\<open>strncpy (buf, s, n)\<close> into a zeroed buffer with more than \<open>n\<close> characters.\<close>

definition strncpy :: "nat \<Rightarrow> string \<Rightarrow> string" where
  "strncpy n s = take n s"

text \<open>\<open>strtok_r\<close>: the next token and what is left after the delimiter that ends it.\<close>

definition strtok :: "string \<Rightarrow> string \<Rightarrow> (string \<times> string) option" where
  "strtok delim s = (let t = dropWhile (\<lambda>c. c \<in> set delim) s in
     if t = [] then None
     else Some (takeWhile (\<lambda>c. c \<notin> set delim) t, drop 1 (dropWhile (\<lambda>c. c \<notin> set delim) t)))"

text \<open>\<open>getsubopt\<close>: the suboption up to the next comma is split at the first equality sign; the result is which
  token its name is, if any, its value (NULL if there is no equality sign) and what follows the comma.\<close>

definition getsubopt :: "string list \<Rightarrow> string \<Rightarrow> nat option \<times> string ptr \<times> string" where
  "getsubopt tokens opts =
     (let sub = takeWhile (\<lambda>c. c \<noteq> CHR '','') opts;
          rest = drop 1 (dropWhile (\<lambda>c. c \<noteq> CHR '','') opts);
          name = takeWhile (\<lambda>c. c \<noteq> CHR ''='') sub;
          value = (if CHR ''='' \<in> set sub then Ptr (drop 1 (dropWhile (\<lambda>c. c \<noteq> CHR ''='') sub)) else NULL);
          i = length (takeWhile (\<lambda>t. t \<noteq> name) tokens)
      in (if i < length tokens then Some i else None, value, rest))"

text \<open>\<open>%d\<close> of \<open>snprintf\<close>.\<close>

fun dec_nat :: "nat \<Rightarrow> string" where
  "dec_nat n = (if n < 10 then [char_of (48 + n)] else dec_nat (n div 10) @ [char_of (48 + n mod 10)])"

declare dec_nat.simps [simp del]

definition dec_int :: "int \<Rightarrow> string" where
  "dec_int n = (if n < 0 then CHR ''-'' # dec_nat (nat (- n)) else dec_nat (nat n))"

lemma digit_val_char: "d < 10 \<Longrightarrow> digit_val (char_of (48 + d)) = Some d"
  by (simp add: digit_val_def)

text \<open>No decimal number begins with something that ends a prefix of digits.\<close>

definition no_digit :: "string \<Rightarrow> bool" where
  "no_digit s \<longleftrightarrow> s = [] \<or> digit_val (hd s) = None"

lemma digits_no_digit: "no_digit r \<Longrightarrow> digits acc r = (acc, r)"
  by (cases r) (auto simp: no_digit_def)

lemma digits_dec_nat: "\<exists>k. \<forall>acc r. digits acc (dec_nat n @ r) = digits (acc * 10 ^ k + n) r"
proof (induction n rule: dec_nat.induct)
  case (1 n)
  show ?case
  proof (cases "n < 10")
    case True
    have "digits acc (dec_nat n @ r) = digits (acc * 10 ^ 1 + n) r" for acc r
      using True by (simp add: dec_nat.simps digit_val_char mult.commute)
    then show ?thesis by blast
  next
    case False
    from 1 [OF False] obtain k where k: "\<And>acc r. digits acc (dec_nat (n div 10) @ r) = digits (acc * 10 ^ k + n div 10) r" by blast
    have "digits acc (dec_nat n @ r) = digits (acc * 10 ^ Suc k + n) r" for acc r
    proof -
      have "dec_nat n @ r = dec_nat (n div 10) @ char_of (48 + n mod 10) # r" using False by (subst dec_nat.simps) simp
      then have "digits acc (dec_nat n @ r) = digits (acc * 10 ^ k + n div 10) (char_of (48 + n mod 10) # r)" using k by simp
      also have "\<dots> = digits (10 * (acc * 10 ^ k + n div 10) + n mod 10) r"
        by (simp add: digit_val_char)
      also have "10 * (acc * 10 ^ k + n div 10) + n mod 10 = acc * 10 ^ Suc k + n" by (simp add: algebra_simps)
      finally show ?thesis .
    qed
    then show ?thesis by blast
  qed
qed

lemma digits_dec: "no_digit r \<Longrightarrow> digits 0 (dec_nat n @ r) = (n, r)"
  using digits_dec_nat [of n] digits_no_digit by fastforce

lemma dec_nat_chars: "c \<in> set (dec_nat n) \<Longrightarrow> digit_val c \<noteq> None"
proof (induction n rule: dec_nat.induct)
  case (1 n)
  then show ?case by (subst (asm) (2) dec_nat.simps) (auto simp: digit_val_char split: if_splits)
qed

lemma dec_nat_nonempty [simp]: "dec_nat n \<noteq> []"
  by (subst dec_nat.simps) simp

lemma digit_not_special:
  assumes "digit_val c \<noteq> None"
  shows "c \<noteq> CHR ''-''" "c \<noteq> CHR ''+''" "\<not> is_space c" "c \<noteq> CHR '',''" "c \<noteq> CHR 0x00"
proof -
  have neq: "c \<noteq> d" if "digit_val d = None" for d using assms that by auto
  show "c \<noteq> CHR ''-''" "c \<noteq> CHR ''+''" "c \<noteq> CHR '',''" "c \<noteq> CHR 0x00"
    by (rule neq, simp add: digit_val_def)+
  show "\<not> is_space c" using neq by (auto simp: is_space_def digit_val_def)
qed

lemma sign_part_digit:
  assumes "s \<noteq> []" and "digit_val (hd s) \<noteq> None"
  shows "sign_part s = (False, s)"
  using assms digit_not_special [OF assms(2)] by (cases s) (auto simp: sign_part_def)

lemma dec_nat_hd: "digit_val (hd (dec_nat n @ r)) \<noteq> None"
  using dec_nat_chars [of "hd (dec_nat n)" n] by simp

text \<open>Printing and reading a number.\<close>

lemma strtol_dec: "no_digit r \<Longrightarrow> strtol_value (dec_int n @ r) = n"
proof (cases "n < 0")
  case True
  assume "no_digit r"
  have "sign_part (CHR ''-'' # dec_nat (nat (- n)) @ r) = (True, dec_nat (nat (- n)) @ r)"
    by (simp add: sign_part_def is_space_def)
  with True digits_dec [OF \<open>no_digit r\<close>, of "nat (- n)"] show ?thesis by (simp add: strtol_value_def dec_int_def)
next
  case False
  assume "no_digit r"
  have "sign_part (dec_nat (nat n) @ r) = (False, dec_nat (nat n) @ r)"
    by (rule sign_part_digit) (simp, rule dec_nat_hd)
  with False digits_dec [OF \<open>no_digit r\<close>, of "nat n"] show ?thesis by (simp add: strtol_value_def dec_int_def)
qed

lemma atoi_dec: "- (2 ^ 31) \<le> n \<Longrightarrow> n < 2 ^ 31 \<Longrightarrow> atoi (Ptr (dec_int n)) = Some n"
  using strtol_dec [of "[]" n] by (simp add: atoi_def no_digit_def)

lemma strtoul_dec: "strtoul (Ptr (dec_nat (unat w))) = Some w" for w :: "64 word"
proof -
  have "sign_part (dec_nat (unat w)) = (False, dec_nat (unat w))"
    using sign_part_digit [of "dec_nat (unat w)"] dec_nat_hd [of "unat w" "[]"] by simp
  moreover have "unat w < 2 ^ LENGTH(64)" by (rule unsigned_less)
  ultimately show ?thesis using digits_dec [of "[]" "unat w"] by (simp add: strtoul_def no_digit_def Let_def)
qed

lemma strtok_shorter: "strtok delim s = Some (t, rest) \<Longrightarrow> length rest < length s"
proof -
  assume a: "strtok delim s = Some (t, rest)"
  let ?u = "dropWhile (\<lambda>c. c \<in> set delim) s"
  from a have u: "?u \<noteq> []" "rest = drop 1 (dropWhile (\<lambda>c. c \<notin> set delim) ?u)"
    by (auto simp: strtok_def Let_def split: if_splits)
  have "hd ?u \<notin> set delim" using hd_dropWhile [OF u(1)] by simp
  then obtain c cs where c: "?u = c # cs" "c \<notin> set delim" using u(1) by (cases ?u) auto
  have "length rest \<le> length (dropWhile (\<lambda>c. c \<notin> set delim) cs)" using u(2) c by simp
  also have "\<dots> \<le> length cs" by (rule length_dropWhile_le)
  also have "length cs < length s" using c(1) length_dropWhile_le [of "\<lambda>c. c \<in> set delim" s] by simp
  finally show ?thesis .
qed

lemma getsubopt_shorter: "opts \<noteq> [] \<Longrightarrow> length (snd (snd (getsubopt tokens opts))) < length opts"
  using length_dropWhile_le [of "\<lambda>c. c \<noteq> CHR '',''" opts]
  by (cases opts) (auto simp: getsubopt_def Let_def intro: le_less_trans [OF diff_le_self] order_le_less_trans [OF length_dropWhile_le])

end
