(* ===== verification/Fiu.thy ===== *)
theory Fiu
  imports Wtable_Correct Prng Backtrace Cstring
begin

text \<open>
  The library proper, libfiu/fiu.c: points of failure, \<open>fiu_init\<close>, \<open>fiu_fail\<close> and the control API. The state holds
  the static variables of the file, the thread-local variables of the calling thread and the blocks that
  \<open>pf_create\<close> has allocated and \<open>pf_free\<close> has not released: a use of a released block, a second release of it,
  a use of a lock that POSIX leaves undefined and a wait for a lock that the thread itself holds have no defined result.
\<close>

subsection \<open>State\<close>

definition FIU_ONETIME :: "32 word" where "FIU_ONETIME = 1"

datatype pf_method = PF_ALWAYS | PF_PROB | PF_EXTERNAL | PF_STACK

text \<open>The union \<open>minfo\<close>, with the member that was stored last.\<close>

datatype minfo = M_unset | M_probability rat | M_external_cb addr
  | M_stack (func_start: addr) (func_end: addr) (func_pos_in_stack: int)

record pf_info =
  pf_name :: string
  pf_namelen :: "32 word"
  pf_failnum :: int
  pf_failinfo :: addr
  pf_flags :: "32 word"
  pf_locked :: bool
  pf_failed_once :: bool
  pf_method :: pf_method
  pf_minfo :: minfo

datatype rwlock = Unlocked | Read_locked | Write_locked

text \<open>\<open>pfs\<close> are the allocated points of failure by their address, a number; an address is never
  reused, so a pointer that was released stays recognizable. \<open>bt_works\<close> is the static variable of
  \<open>backtrace_works\<close>, \<open>key_created\<close> says whether \<open>last_failinfo_key\<close> is a key.\<close>

record fiu =
  enabled_fails :: "nat wtable ptr"
  enabled_fails_lock :: rwlock
  pfs :: "nat \<rightharpoonup> pf_info"
  next_pf :: nat
  rec_count :: int
  key_created :: bool
  last_failinfo :: addr
  gen :: prng
  bt_works :: int
  initialized :: bool

text \<open>The state when the program starts.\<close>

definition fiu_start :: fiu where
  "fiu_start = \<lparr>enabled_fails = NULL, enabled_fails_lock = Unlocked, pfs = Map.empty, next_pf = 0, rec_count = 0,
     key_created = False, last_failinfo = 0, gen = prng_init, bt_works = -1, initialized = False\<rparr>"

text \<open>What a call finds outside the library: the allocator, the platform, the addresses of the two functions that
  pass their own address to \<open>backtrace_works\<close>, what a callback returns and stores through its pointers,
  the clock, the variable \<open>FIU_PRNG_SEED\<close>, the allocations of \<open>wtable_create\<close> (with the
  uninitialised field of the cache) and the result of \<open>pthread_atfork\<close>.\<close>

record env =
  e_mem :: mem
  e_plat :: platform
  e_self_stack :: addr
  e_self_stack_by_name :: addr
  e_callback :: "addr \<Rightarrow> string \<Rightarrow> int \<Rightarrow> addr \<Rightarrow> 32 word \<Rightarrow> int \<times> int \<times> addr \<times> 32 word"
  e_usec :: int
  e_seed :: "string ptr"
  e_create :: "nat \<Rightarrow> bool"
  e_junk :: nat
  e_atfork :: int

subsection \<open>Points of failure\<close>

definition rec_inc :: "fiu \<Rightarrow> fiu" where
  "rec_inc s = s\<lparr>rec_count := rec_count s + 1\<rparr>"

definition rec_dec :: "fiu \<Rightarrow> fiu" where
  "rec_dec s = s\<lparr>rec_count := rec_count s - 1\<rparr>"

definition pf_create :: "env \<Rightarrow> string \<Rightarrow> int \<Rightarrow> addr \<Rightarrow> 32 word \<Rightarrow> pf_method \<Rightarrow> fiu \<Rightarrow> nat ptr \<times> fiu" where
  "pf_create env name failnum failinfo flags method s =
     (let s1 = rec_inc s
      in if \<not> e_mem env A_pf then (NULL, rec_dec s1)
         else case strdup (e_mem env) A_pf_name name of
           NULL \<Rightarrow> (NULL, rec_dec s1)
         | Ptr n \<Rightarrow>
             let pf = \<lparr>pf_name = n, pf_namelen = of_nat (length name), pf_failnum = failnum, pf_failinfo = failinfo,
                       pf_flags = flags, pf_locked = False, pf_failed_once = False, pf_method = method, pf_minfo = M_unset\<rparr>
             in (Ptr (next_pf s1), rec_dec (s1\<lparr>pfs := (pfs s1)(next_pf s1 \<mapsto> pf), next_pf := next_pf s1 + 1\<rparr>)))"

text \<open>A locked mutex may not be destroyed.\<close>

fun pf_free :: "nat ptr \<Rightarrow> fiu \<Rightarrow> fiu option" where
  "pf_free NULL s = None"
| "pf_free (Ptr p) s = do {
     pf \<leftarrow> pfs s p;
     if pf_locked pf then None else Some (s\<lparr>pfs := (pfs s)(p := None)\<rparr>) }"

fun pf_free_all :: "nat ptr list \<Rightarrow> fiu \<Rightarrow> fiu option" where
  "pf_free_all [] s = Some s"
| "pf_free_all (p # ps) s = do { s' \<leftarrow> pf_free p s; pf_free_all ps s' }"

definition set_pf :: "nat \<Rightarrow> pf_info \<Rightarrow> fiu \<Rightarrow> fiu" where
  "set_pf p pf s = s\<lparr>pfs := (pfs s)(p \<mapsto> pf)\<rparr>"

subsection \<open>Locks\<close>

definition ef_rlock :: "fiu \<Rightarrow> fiu option" where
  "ef_rlock s = (if enabled_fails_lock s = Unlocked then Some (s\<lparr>enabled_fails_lock := Read_locked\<rparr>) else None)"

definition ef_wlock :: "fiu \<Rightarrow> fiu option" where
  "ef_wlock s = (if enabled_fails_lock s = Unlocked then Some (s\<lparr>enabled_fails_lock := Write_locked\<rparr>) else None)"

definition ef_unlock :: "fiu \<Rightarrow> fiu option" where
  "ef_unlock s = (if enabled_fails_lock s \<noteq> Unlocked then Some (s\<lparr>enabled_fails_lock := Unlocked\<rparr>) else None)"

definition pf_lock :: "nat \<Rightarrow> fiu \<Rightarrow> fiu option" where
  "pf_lock p s = do { pf \<leftarrow> pfs s p; if pf_locked pf then None else Some (set_pf p (pf\<lparr>pf_locked := True\<rparr>) s) }"

definition pf_unlock :: "nat \<Rightarrow> fiu \<Rightarrow> fiu option" where
  "pf_unlock p s = do { pf \<leftarrow> pfs s p; if pf_locked pf then Some (set_pf p (pf\<lparr>pf_locked := False\<rparr>) s) else None }"

definition onetime :: "pf_info \<Rightarrow> bool" where
  "onetime pf \<longleftrightarrow> pf_flags pf AND FIU_ONETIME \<noteq> 0"

subsection \<open>Whether to fail\<close>

definition pc_in_func :: "platform \<Rightarrow> minfo \<Rightarrow> addr \<Rightarrow> bool" where
  "pc_in_func pl m pc =
     (if func_end m \<noteq> 0 then func_start m \<le> pc \<and> pc \<le> func_end m
      else func_start m = get_func_start pl pc)"

fun stack_loop :: "platform \<Rightarrow> minfo \<Rightarrow> int \<Rightarrow> addr list \<Rightarrow> bool" where
  "stack_loop pl m i [] = False"
| "stack_loop pl m i (pc # buffer) =
     (if pc_in_func pl m pc \<and> (func_pos_in_stack m = -1 \<or> i = func_pos_in_stack m) then True
      else stack_loop pl m (i + 1) buffer)"

definition should_stack_fail :: "platform \<Rightarrow> minfo \<Rightarrow> bool" where
  "should_stack_fail pl m = stack_loop pl m 0 (get_backtrace pl 100)"

text \<open>The \<open>switch\<close> of \<open>fiu_fail\<close>.\<close>

definition pf_decide :: "env \<Rightarrow> nat \<Rightarrow> fiu \<Rightarrow> (bool \<times> fiu) option" where
  "pf_decide env p s = do {
     pf \<leftarrow> pfs s p;
     case pf_method pf of
       PF_ALWAYS \<Rightarrow> Some (True, s)
     | PF_PROB \<Rightarrow> (case pf_minfo pf of
           M_probability probability \<Rightarrow> (let (v, g) = randd (gen s) in Some (v < probability, s\<lparr>gen := g\<rparr>))
         | _ \<Rightarrow> None)
     | PF_EXTERNAL \<Rightarrow> (case pf_minfo pf of
           M_external_cb cb \<Rightarrow>
             (let (r, failnum, failinfo, flags) = e_callback env cb (pf_name pf) (pf_failnum pf) (pf_failinfo pf) (pf_flags pf)
              in Some (r \<noteq> 0, set_pf p (pf\<lparr>pf_failnum := failnum, pf_failinfo := failinfo, pf_flags := flags\<rparr>) s))
         | _ \<Rightarrow> None)
     | PF_STACK \<Rightarrow> (case pf_minfo pf of
           M_stack _ _ _ \<Rightarrow> Some (should_stack_fail (e_plat env) (pf_minfo pf), s)
         | _ \<Rightarrow> None) }"

text \<open>From the lookup to the label \<open>exit\<close> or \<open>exit_fail\<close>: \<open>None\<close> is \<open>exit\<close>. The flags are read again after the
  decision, which may have changed them.\<close>

definition fail_point :: "env \<Rightarrow> nat \<Rightarrow> fiu \<Rightarrow> (nat option \<times> fiu) option" where
  "fail_point env p s = do {
     pf \<leftarrow> pfs s p;
     (skip, s1) \<leftarrow> (if onetime pf then do {
           s1 \<leftarrow> pf_lock p s;
           pf1 \<leftarrow> pfs s1 p;
           if pf_failed_once pf1 then do { s2 \<leftarrow> pf_unlock p s1; Some (True, s2) } else Some (False, s1) }
         else Some (False, s));
     if skip then Some (None, s1)
     else do {
       (fails, s2) \<leftarrow> pf_decide env p s1;
       if fails then Some (Some p, s2)
       else do {
         pf2 \<leftarrow> pfs s2 p;
         s3 \<leftarrow> (if onetime pf2 then pf_unlock p s2 else Some s2);
         Some (None, s3) } } }"

definition fail_exit :: "fiu \<Rightarrow> (int \<times> fiu) option" where
  "fail_exit s = do { s1 \<leftarrow> ef_unlock s; Some (0, rec_dec s1) }"

definition fail_exit_fail :: "nat \<Rightarrow> fiu \<Rightarrow> (int \<times> fiu) option" where
  "fail_exit_fail p s = do {
     pf \<leftarrow> pfs s p;
     let s1 = s\<lparr>last_failinfo := pf_failinfo pf\<rparr>;
     let failnum = pf_failnum pf;
     s2 \<leftarrow> (if onetime pf then pf_unlock p (set_pf p (pf\<lparr>pf_failed_once := True\<rparr>) s1) else Some s1);
     s3 \<leftarrow> ef_unlock s2;
     Some (failnum, rec_dec s3) }"

definition fiu_fail :: "env \<Rightarrow> string \<Rightarrow> fiu \<Rightarrow> (int \<times> fiu) option" where
  "fiu_fail env name s = do {
     let s1 = rec_inc s;
     if rec_count s1 > 1 then Some (0, rec_dec s1)
     else do {
       s2 \<leftarrow> ef_rlock s1;
       case enabled_fails s2 of
         NULL \<Rightarrow> fail_exit s2
       | Ptr t \<Rightarrow> do {
           (pf, t') \<leftarrow> wtable_get (e_mem env) t name;
           let s3 = s2\<lparr>enabled_fails := Ptr t'\<rparr>;
           case pf of
             NULL \<Rightarrow> fail_exit s3
           | Ptr p \<Rightarrow> do {
               (fails, s4) \<leftarrow> fail_point env p s3;
               case fails of None \<Rightarrow> fail_exit s4 | Some p \<Rightarrow> fail_exit_fail p s4 } } } }"

definition fiu_failinfo :: "fiu \<Rightarrow> addr option" where
  "fiu_failinfo s = (if key_created s then Some (last_failinfo s) else None)"

subsection \<open>Initialization\<close>

text \<open>The key is created: the result of \<open>pthread_key_create\<close> is ignored in the code, and its failure is not modelled.\<close>

definition fiu_init :: "env \<Rightarrow> fiu \<Rightarrow> (int \<times> fiu) option" where
  "fiu_init env s = do {
     s1 \<leftarrow> ef_wlock (rec_inc s);
     if initialized s1 then do { s2 \<leftarrow> ef_unlock s1; Some (0, rec_dec s2) }
     else do {
       let s2 = s1\<lparr>key_created := True, last_failinfo := 0\<rparr>;
       let c = e_create env;
       let s3 = s2\<lparr>enabled_fails := wtable_create (c 0) (c 1) (c 2) (c 3) (c 4) (c 5) (c 6) (e_junk env) (Ptr plain_destructor)\<rparr>;
       if e_atfork env \<noteq> 0 then do { s4 \<leftarrow> ef_unlock s3; Some (-1, rec_dec s4) }
       else do {
         g \<leftarrow> (case e_seed env of
                 NULL \<Rightarrow> Some (gen s3)
               | Ptr e \<Rightarrow> do { n \<leftarrow> atoi (Ptr e); Some (fiu_set_prng_seed (word_of_int n) (gen s3)) });
         let s4 = s3\<lparr>gen := prng_seed (e_usec env) g, initialized := True\<rparr>;
         s5 \<leftarrow> ef_unlock s4;
         Some (0, rec_dec s5) } } }"

subsection \<open>The control API\<close>

definition insert_pf :: "env \<Rightarrow> nat \<Rightarrow> fiu \<Rightarrow> (int \<times> fiu) option" where
  "insert_pf env p s = do {
     s1 \<leftarrow> ef_wlock (rec_inc s);
     t \<leftarrow> deref (enabled_fails s1);
     pf \<leftarrow> pfs s1 p;
     (success, t') \<leftarrow> wtable_set (e_mem env) t (pf_name pf) (Ptr p);
     s2 \<leftarrow> pf_free_all (newly_released t t') (s1\<lparr>enabled_fails := Ptr t'\<rparr>);
     s3 \<leftarrow> ef_unlock s2;
     Some (if success then 0 else -1, rec_dec s3) }"

text \<open>What the \<open>fiu_enable\<close> functions do after their checks: \<open>pf_create\<close>, the store into the
  union (if there is one), \<open>insert_pf\<close>.\<close>

definition create_and_insert :: "env \<Rightarrow> string \<Rightarrow> int \<Rightarrow> addr \<Rightarrow> 32 word \<Rightarrow> pf_method \<Rightarrow> minfo \<Rightarrow> fiu \<Rightarrow> (int \<times> fiu) option" where
  "create_and_insert env name failnum failinfo flags method m s =
     (case pf_create env name failnum failinfo flags method s of
        (NULL, s1) \<Rightarrow> Some (-1, s1)
      | (Ptr p, s1) \<Rightarrow> do { pf \<leftarrow> pfs s1 p; insert_pf env p (set_pf p (pf\<lparr>pf_minfo := m\<rparr>) s1) })"

definition fiu_enable :: "env \<Rightarrow> string \<Rightarrow> int \<Rightarrow> addr \<Rightarrow> 32 word \<Rightarrow> fiu \<Rightarrow> (int \<times> fiu) option" where
  "fiu_enable env name failnum failinfo flags s =
     create_and_insert env name failnum failinfo flags PF_ALWAYS M_unset s"

definition fiu_enable_random :: "env \<Rightarrow> string \<Rightarrow> int \<Rightarrow> addr \<Rightarrow> 32 word \<Rightarrow> rat \<Rightarrow> fiu \<Rightarrow> (int \<times> fiu) option" where
  "fiu_enable_random env name failnum failinfo flags probability s =
     create_and_insert env name failnum failinfo flags PF_PROB (M_probability probability) s"

definition fiu_enable_external :: "env \<Rightarrow> string \<Rightarrow> int \<Rightarrow> addr \<Rightarrow> 32 word \<Rightarrow> addr \<Rightarrow> fiu \<Rightarrow> (int \<times> fiu) option" where
  "fiu_enable_external env name failnum failinfo flags external_cb s =
     create_and_insert env name failnum failinfo flags PF_EXTERNAL (M_external_cb external_cb) s"

definition fiu_enable_stack :: "env \<Rightarrow> string \<Rightarrow> int \<Rightarrow> addr \<Rightarrow> 32 word \<Rightarrow> addr \<Rightarrow> int \<Rightarrow> fiu \<Rightarrow> (int \<times> fiu) option" where
  "fiu_enable_stack env name failnum failinfo flags func pos s =
     (let pl = e_plat env in
      if pos \<noteq> -1 then Some (-1, s)
      else let s1 = s\<lparr>bt_works := backtrace_works pl (e_self_stack env) (bt_works s)\<rparr> in
        if bt_works s1 = 0 then Some (-1, s1)
        else if get_func_end pl func = 0 \<and> get_func_start pl func = 0 then Some (-1, s1)
        else create_and_insert env name failnum failinfo flags PF_STACK (M_stack func (get_func_end pl func) pos) s1)"

definition fiu_enable_stack_by_name ::
  "env \<Rightarrow> string \<Rightarrow> int \<Rightarrow> addr \<Rightarrow> 32 word \<Rightarrow> string \<Rightarrow> int \<Rightarrow> fiu \<Rightarrow> (int \<times> fiu) option" where
  "fiu_enable_stack_by_name env name failnum failinfo flags func_name pos s =
     (let pl = e_plat env;
          s1 = s\<lparr>bt_works := backtrace_works pl (e_self_stack_by_name env) (bt_works s)\<rparr>
      in if bt_works s1 = 0 then Some (-1, s1)
         else let fp = get_func_addr pl func_name in
           if fp = 0 then Some (-1, s1)
           else fiu_enable_stack env name failnum failinfo flags fp pos s1)"

definition fiu_disable :: "env \<Rightarrow> string \<Rightarrow> fiu \<Rightarrow> (int \<times> fiu) option" where
  "fiu_disable env name s = do {
     s1 \<leftarrow> ef_wlock (rec_inc s);
     t \<leftarrow> deref (enabled_fails s1);
     (success, t') \<leftarrow> wtable_del (e_mem env) t name;
     s2 \<leftarrow> pf_free_all (newly_released t t') (s1\<lparr>enabled_fails := Ptr t'\<rparr>);
     s3 \<leftarrow> ef_unlock s2;
     Some (if success then 0 else -1, rec_dec s3) }"

end
