(* ===== verification/Control_Spec.thy ===== *)
theory Control_Spec
  imports Table_Spec
begin

text \<open>
  The interface of the library that its clients (the remote control, the preloaders) rely on: a set of points
  of failure, as a map from names, that is changed by enabling and disabling names, and
  asked by name. Every operation gets an environment of its own (\<open>'e\<close>: the allocator, the platform and so
  on, as they are at that moment).
\<close>

datatype 'a ctl = CtlEnable string 'a | CtlDisable string

fun ctl_map :: "(string \<Rightarrow> 'a \<Rightarrow> 'p) \<Rightarrow> 'a ctl \<Rightarrow> (string \<rightharpoonup> 'p) \<Rightarrow> (string \<rightharpoonup> 'p)" where
  "ctl_map mk (CtlEnable name a) m = m(name \<mapsto> mk name a)"
| "ctl_map mk (CtlDisable name) m = m(name := None)"

fun ctl_result :: "'a ctl \<Rightarrow> (string \<rightharpoonup> 'p) \<Rightarrow> int" where
  "ctl_result (CtlEnable name a) m = 0"
| "ctl_result (CtlDisable name) m = (if m name = None then -1 else 0)"

fun ctl_ok :: "('a \<Rightarrow> bool) \<Rightarrow> 'a ctl \<Rightarrow> bool" where
  "ctl_ok valid (CtlEnable name a) \<longleftrightarrow> name \<noteq> [] \<and> valid a"
| "ctl_ok valid (CtlDisable name) \<longleftrightarrow> name \<noteq> []"

fun ctl_step :: "('e \<Rightarrow> string \<Rightarrow> 'a \<Rightarrow> 's \<Rightarrow> (int \<times> 's) option) \<Rightarrow> ('e \<Rightarrow> string \<Rightarrow> 's \<Rightarrow> (int \<times> 's) option)
    \<Rightarrow> 'e \<Rightarrow> 'a ctl \<Rightarrow> 's \<Rightarrow> (int \<times> 's) option" where
  "ctl_step add del e (CtlEnable name a) s = add e name a s"
| "ctl_step add del e (CtlDisable name) s = del e name s"

fun ctl_run :: "('e \<Rightarrow> 'a ctl \<Rightarrow> 's \<Rightarrow> (int \<times> 's) option) \<Rightarrow> ('e \<times> 'a ctl) list \<Rightarrow> 's \<Rightarrow> (int list \<times> 's) option" where
  "ctl_run step [] s = Some ([], s)"
| "ctl_run step ((e, c) # cs) s = do {
     (r, s1) \<leftarrow> step e c s;
     (rs, s2) \<leftarrow> ctl_run step cs s1;
     Some (r # rs, s2) }"

fun ctl_maps :: "(string \<Rightarrow> 'a \<Rightarrow> 'p) \<Rightarrow> 'a ctl list \<Rightarrow> (string \<rightharpoonup> 'p) \<Rightarrow> int list \<times> (string \<rightharpoonup> 'p)" where
  "ctl_maps mk [] m = ([], m)"
| "ctl_maps mk (c # cs) m = (case ctl_maps mk cs (ctl_map mk c m) of (rs, m') \<Rightarrow> (ctl_result c m # rs, m'))"

locale fault_control =
  fixes env_ok :: "'e \<Rightarrow> bool"
    and valid :: "'a \<Rightarrow> bool"
    and ok :: "'s \<Rightarrow> bool"
    and pts :: "'s \<Rightarrow> string \<rightharpoonup> 'p"
    and mk :: "string \<Rightarrow> 'a \<Rightarrow> 'p"
    and add :: "'e \<Rightarrow> string \<Rightarrow> 'a \<Rightarrow> 's \<Rightarrow> (int \<times> 's) option"
    and del :: "'e \<Rightarrow> string \<Rightarrow> 's \<Rightarrow> (int \<times> 's) option"
  assumes add_law: "env_ok e \<Longrightarrow> ok s \<Longrightarrow> name \<noteq> [] \<Longrightarrow> valid a \<Longrightarrow>
      \<exists>s'. add e name a s = Some (0, s') \<and> ok s' \<and> pts s' = (pts s)(name \<mapsto> mk name a)"
    and del_law: "env_ok e \<Longrightarrow> ok s \<Longrightarrow> name \<noteq> [] \<Longrightarrow>
      \<exists>s'. del e name s = Some (if pts s name = None then -1 else 0, s') \<and> ok s' \<and> pts s' = (pts s)(name := None)"
begin

lemma step_law:
  assumes "env_ok e" and "ok s" and "ctl_ok valid c"
  shows "\<exists>s'. ctl_step add del e c s = Some (ctl_result c (pts s), s') \<and> ok s' \<and> pts s' = ctl_map mk c (pts s)"
  using assms add_law del_law by (cases c) auto

text \<open>A sequence of commands has the results and the effect of the same sequence on the map.\<close>

lemma run_refines:
  assumes "ok s" and "\<forall>(e, c)\<in>set cs. env_ok e \<and> ctl_ok valid c"
  shows "\<exists>s'. ctl_run (ctl_step add del) cs s = Some (fst (ctl_maps mk (map snd cs) (pts s)), s') \<and> ok s'
    \<and> pts s' = snd (ctl_maps mk (map snd cs) (pts s))"
  using assms
proof (induction cs arbitrary: s)
  case (Cons ec cs)
  obtain e c where ec: "ec = (e, c)" by (cases ec)
  with Cons.prems(2) have "env_ok e" "ctl_ok valid c" by simp_all
  from step_law [OF this(1) Cons.prems(1) this(2)] obtain s1 where
    s1: "ctl_step add del e c s = Some (ctl_result c (pts s), s1)" "ok s1" "pts s1 = ctl_map mk c (pts s)" by blast
  with Cons.IH [OF s1(2)] Cons.prems(2) ec show ?case by (auto split: prod.splits)
qed simp

end

end
