(* ===== verification/Fiu_Correct.thy ===== *)
theory Fiu_Correct
  imports Fiu Control_Spec
begin

text \<open>
  Correctness of the library. The invariant \<open>fiu_inv\<close> relates the table to the allocated points of failure; every
  call keeps it and has a defined result. \<open>pf_step\<close> says, without locks and pointers, what one
  call of \<open>fiu_fail\<close> does with the point of failure that answers for the name.
\<close>

subsection \<open>What a point of failure does when it is asked\<close>

definition pf_typed :: "pf_info \<Rightarrow> bool" where
  "pf_typed pf \<longleftrightarrow> (case pf_method pf of
       PF_ALWAYS \<Rightarrow> True
     | PF_PROB \<Rightarrow> (case pf_minfo pf of M_probability _ \<Rightarrow> True | _ \<Rightarrow> False)
     | PF_EXTERNAL \<Rightarrow> (case pf_minfo pf of M_external_cb _ \<Rightarrow> True | _ \<Rightarrow> False)
     | PF_STACK \<Rightarrow> (case pf_minfo pf of M_stack _ _ _ \<Rightarrow> True | _ \<Rightarrow> False))"

definition pf_ok :: "pf_info \<Rightarrow> bool" where
  "pf_ok pf \<longleftrightarrow> \<not> pf_locked pf \<and> pf_typed pf"

text \<open>Callbacks may change what the point of failure reports, but not whether it fails only once.\<close>

definition callbacks_keep_onetime :: "env \<Rightarrow> bool" where
  "callbacks_keep_onetime env \<longleftrightarrow> (\<forall>cb name failnum failinfo flags.
     snd (snd (snd (e_callback env cb name failnum failinfo flags))) AND FIU_ONETIME = flags AND FIU_ONETIME)"

definition pf_decision :: "env \<Rightarrow> pf_info \<Rightarrow> prng \<Rightarrow> bool \<times> pf_info \<times> prng" where
  "pf_decision env pf g = (case pf_method pf of
       PF_ALWAYS \<Rightarrow> (True, pf, g)
     | PF_PROB \<Rightarrow> (case pf_minfo pf of
           M_probability probability \<Rightarrow> (fst (randd g) < probability, pf, snd (randd g)) | _ \<Rightarrow> (False, pf, g))
     | PF_EXTERNAL \<Rightarrow> (case pf_minfo pf of
           M_external_cb cb \<Rightarrow>
             (case e_callback env cb (pf_name pf) (pf_failnum pf) (pf_failinfo pf) (pf_flags pf) of
                (r, failnum, failinfo, flags) \<Rightarrow>
                  (r \<noteq> 0, pf\<lparr>pf_failnum := failnum, pf_failinfo := failinfo, pf_flags := flags\<rparr>, g))
         | _ \<Rightarrow> (False, pf, g))
     | PF_STACK \<Rightarrow> (should_stack_fail (e_plat env) (pf_minfo pf), pf, g))"

definition pf_step :: "env \<Rightarrow> pf_info \<Rightarrow> prng \<Rightarrow> bool \<times> pf_info \<times> prng" where
  "pf_step env pf g =
     (if onetime pf \<and> pf_failed_once pf then (False, pf, g)
      else case pf_decision env pf g of (fails, pf', g') \<Rightarrow>
        (fails, if fails \<and> onetime pf then pf'\<lparr>pf_failed_once := True\<rparr> else pf', g'))"

lemma pf_typed_cong: "pf_method pf' = pf_method pf \<Longrightarrow> pf_minfo pf' = pf_minfo pf \<Longrightarrow> pf_typed pf' = pf_typed pf"
  by (simp only: pf_typed_def)

lemma pf_typed_update [simp]:
  "pf_typed (pf\<lparr>pf_locked := x\<rparr>) = pf_typed pf" "pf_typed (pf\<lparr>pf_failed_once := x\<rparr>) = pf_typed pf"
  by (rule pf_typed_cong; simp)+

lemma pf_decision_fields:
  assumes "pf_decision env pf g = (b, pf', g')"
  shows "pf_locked pf' = pf_locked pf" "pf_name pf' = pf_name pf" "pf_method pf' = pf_method pf" "pf_minfo pf' = pf_minfo pf"
    "pf_failed_once pf' = pf_failed_once pf"
  using assms by (auto simp: pf_decision_def split: pf_method.splits minfo.splits prod.splits)

lemma pf_decision_onetime:
  assumes "pf_decision env pf g = (b, pf', g')" and "callbacks_keep_onetime env"
  shows "onetime pf' = onetime pf"
proof (cases "\<exists>cb. pf_method pf = PF_EXTERNAL \<and> pf_minfo pf = M_external_cb cb")
  case True
  then obtain cb where cb: "pf_method pf = PF_EXTERNAL" "pf_minfo pf = M_external_cb cb" by blast
  obtain r n i f where c: "e_callback env cb (pf_name pf) (pf_failnum pf) (pf_failinfo pf) (pf_flags pf) = (r, n, i, f)"
    by (metis prod.exhaust)
  have "f AND FIU_ONETIME = pf_flags pf AND FIU_ONETIME"
    using assms(2) c unfolding callbacks_keep_onetime_def by (metis snd_conv)
  with assms(1) cb c show ?thesis by (auto simp: pf_decision_def onetime_def)
next
  case False
  with assms(1) have "pf' = pf" by (auto simp: pf_decision_def split: pf_method.splits minfo.splits)
  then show ?thesis by simp
qed

lemma pf_step_ok:
  assumes "pf_step env pf g = (b, pf', g')" and "pf_ok pf"
  shows "pf_ok pf'" "pf_name pf' = pf_name pf"
proof -
  obtain pf1 g1 b1 where d: "pf_decision env pf g = (b1, pf1, g1)" by (metis prod.exhaust)
  note f = pf_decision_fields [OF d]
  have "pf_ok pf1" using assms(2) f pf_typed_cong [OF f(3,4)] by (simp add: pf_ok_def)
  moreover have "pf_ok (x\<lparr>pf_failed_once := True\<rparr>) = pf_ok x" for x by (simp add: pf_ok_def)
  ultimately show "pf_ok pf'" using assms d by (auto simp: pf_step_def split: if_splits)
  show "pf_name pf' = pf_name pf" using assms(1) d f(2) by (auto simp: pf_step_def split: if_splits)
qed

lemma fiu_same [simp]:
  "pfs s p = Some pf \<Longrightarrow> s\<lparr>pfs := (pfs s)(p \<mapsto> pf), gen := g\<rparr> = s\<lparr>gen := g\<rparr>"
  by (cases s) (simp add: fun_upd_idem)

lemma pf_decide_decision:
  assumes "pfs s p = Some pf" and "pf_typed pf"
  shows "pf_decide env p s =
    (case pf_decision env pf (gen s) of (b, pf', g') \<Rightarrow> Some (b, s\<lparr>pfs := (pfs s)(p \<mapsto> pf'), gen := g'\<rparr>))"
proof (cases "pf_method pf")
  case PF_ALWAYS
  then show ?thesis using assms by (simp add: pf_decide_def pf_decision_def)
next
  case PF_PROB
  then obtain pr where "pf_minfo pf = M_probability pr"
    using assms(2) by (auto simp: pf_typed_def split: minfo.splits)
  with PF_PROB show ?thesis using assms(1)
    by (simp add: pf_decide_def pf_decision_def randd_def Let_def)
next
  case PF_EXTERNAL
  then obtain cb where cb: "pf_minfo pf = M_external_cb cb"
    using assms(2) by (auto simp: pf_typed_def split: minfo.splits)
  obtain r n i f where c: "e_callback env cb (pf_name pf) (pf_failnum pf) (pf_failinfo pf) (pf_flags pf) = (r, n, i, f)"
    by (metis prod.exhaust)
  have "s\<lparr>pfs := m, gen := gen s\<rparr> = s\<lparr>pfs := m\<rparr>" for m by (cases s) simp
  with PF_EXTERNAL cb c show ?thesis using assms(1)
    by (simp add: pf_decide_def pf_decision_def set_pf_def)
next
  case PF_STACK
  then obtain a b c where "pf_minfo pf = M_stack a b c"
    using assms(2) by (auto simp: pf_typed_def split: minfo.splits)
  with PF_STACK show ?thesis using assms(1)
    by (simp add: pf_decide_def pf_decision_def)
qed

text \<open>\<open>fail_point\<close> followed by its exit does what \<open>pf_step\<close> says and leaves the mutex of the point of failure unlocked.\<close>

lemma fail_point_step:
  assumes "pfs s p = Some pf" and "pf_ok pf" and "callbacks_keep_onetime env"
    and "pf_step env pf (gen s) = (b, pf', g')" and "enabled_fails_lock s = Read_locked"
  shows "(fail_point env p s \<bind> (\<lambda>(fails, s4). case fails of None \<Rightarrow> fail_exit s4 | Some p \<Rightarrow> fail_exit_fail p s4)) =
    Some (if b then pf_failnum pf' else 0,
      s\<lparr>pfs := (pfs s)(p \<mapsto> pf'), gen := g', enabled_fails_lock := Unlocked, rec_count := rec_count s - 1,
        last_failinfo := if b then pf_failinfo pf' else last_failinfo s\<rparr>)"
proof (cases "onetime pf")
  case False
  obtain pf1 g1 b1 where d: "pf_decision env pf (gen s) = (b1, pf1, g1)" by (metis prod.exhaust)
  have one: "\<not> onetime pf1" using pf_decision_onetime [OF d assms(3)] False by simp
  have step: "b = b1" "pf' = pf1" "g' = g1" using assms(4) False d by (simp_all add: pf_step_def)
  have dec: "pf_decide env p s = Some (b1, s\<lparr>pfs := (pfs s)(p \<mapsto> pf1), gen := g1\<rparr>)"
    using pf_decide_decision [OF assms(1), of env] assms(2) d by (simp add: pf_ok_def)
  show ?thesis
    using assms(1,5) False one dec step
    by (cases b1) (simp_all add: fail_point_def fail_exit_def fail_exit_fail_def ef_unlock_def rec_dec_def Let_def)
next
  case True
  note one = this
  have unl: "\<not> pf_locked pf" using assms(2) by (simp add: pf_ok_def)
  have self: "pf\<lparr>pf_locked := False\<rparr> = pf" using unl by (cases pf) simp
  have same: "s\<lparr>pfs := (pfs s)(p \<mapsto> pf)\<rparr> = s" using assms(1) by (cases s) (simp add: fun_upd_idem)
  define pfl where "pfl = pf\<lparr>pf_locked := True\<rparr>"
  define sl where "sl = s\<lparr>pfs := (pfs s)(p \<mapsto> pfl)\<rparr>"
  have lock: "pf_lock p s = Some sl" using assms(1) unl by (simp add: pf_lock_def set_pf_def sl_def pfl_def)
  have sl: "pfs sl p = Some pfl" "gen sl = gen s" "pf_failed_once pfl = pf_failed_once pf" "pf_locked pfl" "onetime pfl"
    using one by (simp_all add: sl_def pfl_def onetime_def)
  show ?thesis
  proof (cases "pf_failed_once pf")
    case True
    then have "b = False" "pf' = pf" "g' = gen s" using assms(4) one by (simp_all add: pf_step_def)
    moreover have "pf_unlock p sl = Some s"
      using sl(1,4) self same by (simp add: pf_unlock_def set_pf_def sl_def pfl_def)
    moreover have "s\<lparr>pfs := (pfs s)(p \<mapsto> pf), gen := gen s\<rparr> = s" using same by (cases s) simp
    ultimately show ?thesis
      using assms(1,5) one lock sl True same
      by (simp add: fail_point_def fail_exit_def ef_unlock_def rec_dec_def)
  next
    case False
    obtain pf1 g1 b1 where d: "pf_decision env pf (gen s) = (b1, pf1, g1)" by (metis prod.exhaust)
    have dl: "pf_decision env pfl (gen s) = (b1, pf1\<lparr>pf_locked := True\<rparr>, g1)"
      using d by (auto simp: pf_decision_def pfl_def split: pf_method.splits minfo.splits prod.splits)
    have f1: "\<not> pf_locked pf1" "pf_failed_once pf1 = False" "onetime pf1"
      using pf_decision_fields [OF d] pf_decision_onetime [OF d assms(3)] unl False one by simp_all
    have self1: "pf1\<lparr>pf_locked := False\<rparr> = pf1" using f1(1) by (cases pf1) simp
    have typed: "pf_typed pfl" using assms(2) by (simp add: pf_ok_def pfl_def)
    have step: "b = b1" "pf' = (if b1 then pf1\<lparr>pf_failed_once := True\<rparr> else pf1)" "g' = g1"
      using assms(4) False one d by (auto simp: pf_step_def f1(3))
    have dec: "pf_decide env p sl = Some (b1, s\<lparr>pfs := (pfs s)(p \<mapsto> pf1\<lparr>pf_locked := True\<rparr>), gen := g1\<rparr>)"
      using pf_decide_decision [OF sl(1) typed, of env] dl sl(2) by (simp add: sl_def)
    have onel: "onetime (pf1\<lparr>pf_locked := x\<rparr>)" "onetime (pf1\<lparr>pf_locked := x, pf_failed_once := y\<rparr>)" for x y
      using f1(3) by (simp_all add: onetime_def)
    have self2: "pf1\<lparr>pf_failed_once := True, pf_locked := False\<rparr> = pf1\<lparr>pf_failed_once := True\<rparr>"
      using f1(1) by (cases pf1) simp
    have comm: "s\<lparr>gen := g1, last_failinfo := i, pfs := m, enabled_fails_lock := Unlocked, rec_count := r\<rparr>
        = s\<lparr>pfs := m, gen := g1, enabled_fails_lock := Unlocked, rec_count := r, last_failinfo := i\<rparr>" for i m r
      by (cases s) simp
    show ?thesis
      using assms(1,5) one False dec step lock sl(1,3) onel self1 self2 comm
      by (cases b1) (simp_all add: fail_point_def fail_exit_def fail_exit_fail_def ef_unlock_def pf_unlock_def set_pf_def
          rec_dec_def Let_def)
  qed
qed

subsection \<open>The invariant\<close>

text \<open>The points of failure that are enabled, by name.\<close>

definition points :: "fiu \<Rightarrow> string \<rightharpoonup> pf_info" where
  "points s name = (case enabled_fails s of NULL \<Rightarrow> None
     | Ptr t \<Rightarrow> (case wtable_abs t name of Some (Ptr p) \<Rightarrow> pfs s p | _ \<Rightarrow> None))"

text \<open>Every value of the table is an allocated point of failure that carries the name it is stored under; every
  allocated point of failure is in the table (none leaks), its mutex is not held, and its union holds what its method reads.\<close>

definition table_pfs :: "nat wtable \<Rightarrow> (nat \<rightharpoonup> pf_info) \<Rightarrow> bool" where
  "table_pfs t m \<longleftrightarrow> wtable_owns t
     \<and> (\<forall>k v. wtable_abs t k = Some v \<longrightarrow> (\<exists>p pf. v = Ptr p \<and> m p = Some pf \<and> pf_name pf = k))
     \<and> (\<forall>p pf. m p = Some pf \<longrightarrow> wtable_abs t (pf_name pf) = Some (Ptr p) \<and> pf_ok pf)"

definition fiu_at :: "int \<Rightarrow> fiu \<Rightarrow> bool" where
  "fiu_at n s \<longleftrightarrow> enabled_fails_lock s = Unlocked \<and> rec_count s = n \<and> (\<forall>p \<in> dom (pfs s). p < next_pf s)
     \<and> (case enabled_fails s of NULL \<Rightarrow> pfs s = Map.empty | Ptr t \<Rightarrow> key_created s \<and> table_pfs t (pfs s))"

text \<open>\<open>n\<close> is the recursion count of the calling thread: 0 in the threads of the program, 1 in the thread of the
  remote control.\<close>

abbreviation fiu_inv :: "fiu \<Rightarrow> bool" where
  "fiu_inv \<equiv> fiu_at 0"

lemma table_pfs_live:
  "table_pfs t m \<Longrightarrow> wtable_abs t k = Some v \<Longrightarrow> \<exists>p pf. v = Ptr p \<and> m p = Some pf \<and> pf_name pf = k \<and> pf_ok pf"
  unfolding table_pfs_def by metis

lemma table_pfs_answer:
  assumes "table_pfs t m" and "wtable_answer t name = Ptr p"
  shows "\<exists>pf. m p = Some pf \<and> pf_ok pf"
proof -
  have "wtable_inv t" using assms(1) by (simp add: table_pfs_def wtable_owns_def)
  from wtable_answer_pattern [OF this, of name] assms(2) obtain k where "wtable_abs t k = Some (Ptr p)"
    by (auto simp: pattern_answer_def split: if_splits)
  with table_pfs_live [OF assms(1)] show ?thesis by blast
qed

lemma table_pfs_update:
  assumes "table_pfs t m" and "m p = Some pf" and "pf_ok pf'" and "pf_name pf' = pf_name pf"
  shows "table_pfs t (m(p \<mapsto> pf'))"
  unfolding table_pfs_def
proof (intro conjI allI impI)
  show "wtable_owns t" using assms(1) by (simp add: table_pfs_def)
next
  fix k v assume "wtable_abs t k = Some v"
  then obtain q qf where q: "v = Ptr q" "m q = Some qf" "pf_name qf = k" using table_pfs_live [OF assms(1)] by blast
  then show "\<exists>p' pf. v = Ptr p' \<and> (m(p \<mapsto> pf')) p' = Some pf \<and> pf_name pf = k"
    using assms(2,4) by (cases "q = p") auto
next
  fix q qf assume q: "(m(p \<mapsto> pf')) q = Some qf"
  have all: "wtable_abs t (pf_name x) = Some (Ptr r)" "pf_ok x" if "m r = Some x" for r x
    using assms(1) that by (simp_all add: table_pfs_def)
  show "wtable_abs t (pf_name qf) = Some (Ptr q)" "pf_ok qf"
    using q assms(2-4) all by (cases "q = p"; auto)+
qed

lemma table_pfs_cache:
  assumes "table_pfs t m" and "wcache.coherent (wild_lookup (warray t)) c"
  shows "table_pfs (t\<lparr>wcache := c\<rparr>) m"
proof -
  have "wtable_owns (t\<lparr>wcache := c\<rparr>)"
    using assms wtable_inv_cache [of t c] by (simp add: table_pfs_def wtable_owns_def)
  with assms(1) show ?thesis by (simp add: table_pfs_def)
qed

subsection \<open>\<open>fiu_fail\<close>\<close>

text \<open>What a call does once the point of failure \<open>p\<close> has answered.\<close>

definition after_step :: "env \<Rightarrow> nat \<Rightarrow> nat wtable \<Rightarrow> fiu \<Rightarrow> int \<times> fiu" where
  "after_step env p t' s = (case pf_step env (the (pfs s p)) (gen s) of (b, pf', g') \<Rightarrow>
     (if b then pf_failnum pf' else 0,
      s\<lparr>enabled_fails := Ptr t', pfs := (pfs s)(p \<mapsto> pf'), gen := g',
        last_failinfo := if b then pf_failinfo pf' else last_failinfo s\<rparr>))"

lemma fiu_fail_run:
  assumes inv: "fiu_inv s" and t: "enabled_fails s = Ptr t" and cb: "callbacks_keep_onetime env" and m: "e_mem env = mem_ok"
  shows "\<exists>c. wcache.coherent (wild_lookup (warray t)) c \<and> fiu_fail env name s = Some (case wtable_answer t name of
      NULL \<Rightarrow> (0, s\<lparr>enabled_fails := Ptr (t\<lparr>wcache := c\<rparr>)\<rparr>)
    | Ptr p \<Rightarrow> after_step env p (t\<lparr>wcache := c\<rparr>) s)"
proof -
  have parts: "enabled_fails_lock s = Unlocked" "rec_count s = 0" "table_pfs t (pfs s)"
    using inv t by (simp_all add: fiu_at_def)
  then have "wtable_inv t" by (simp add: table_pfs_def wtable_owns_def)
  from wtable_get_ok [OF this, of name] obtain c where c: "wtable_get mem_ok t name = Some (wtable_answer t name, t\<lparr>wcache := c\<rparr>)"
    "wcache.coherent (wild_lookup (warray t)) c" by blast
  let ?t = "t\<lparr>wcache := c\<rparr>"
  define s3 where "s3 = s\<lparr>rec_count := 1, enabled_fails_lock := Read_locked, enabled_fails := Ptr ?t\<rparr>"
  have run: "fiu_fail env name s = (case wtable_answer t name of NULL \<Rightarrow> fail_exit s3
      | Ptr p \<Rightarrow> fail_point env p s3 \<bind> (\<lambda>(fails, s4). case fails of None \<Rightarrow> fail_exit s4 | Some p \<Rightarrow> fail_exit_fail p s4))"
    unfolding s3_def using parts(1,2) t c(1) m by (simp add: fiu_fail_def rec_inc_def ef_rlock_def Let_def)
  show ?thesis
  proof (cases "wtable_answer t name")
    case NULL
    have "fail_exit s3 = Some (0, s\<lparr>enabled_fails := Ptr ?t\<rparr>)"
      using parts(1,2) by (cases s) (simp add: fail_exit_def ef_unlock_def rec_dec_def s3_def)
    with NULL run c(2) show ?thesis by auto
  next
    case (Ptr p)
    obtain pf where pf: "pfs s p = Some pf" "pf_ok pf" using table_pfs_answer [OF parts(3) Ptr] by blast
    obtain b pf' g' where st: "pf_step env pf (gen s) = (b, pf', g')" by (metis prod.exhaust)
    have "fiu_fail env name s = Some (if b then pf_failnum pf' else 0,
      s3\<lparr>pfs := (pfs s3)(p \<mapsto> pf'), gen := g', enabled_fails_lock := Unlocked, rec_count := rec_count s3 - 1,
        last_failinfo := if b then pf_failinfo pf' else last_failinfo s3\<rparr>)"
      unfolding run using Ptr fail_point_step [of s3 p pf env b pf' g'] pf st cb by (simp add: s3_def)
    also have "\<dots> = Some (after_step env p ?t s)"
      using st pf(1) parts(1,2) by (cases s) (simp add: after_step_def s3_def)
    finally show ?thesis using Ptr c(2) by auto
  qed
qed

lemma fiu_inv_after_step:
  assumes "fiu_inv s" and "enabled_fails s = Ptr t" and "wtable_answer t name = Ptr p"
    and "wcache.coherent (wild_lookup (warray t)) c"
  shows "fiu_inv (snd (after_step env p (t\<lparr>wcache := c\<rparr>) s))"
proof -
  have t: "table_pfs t (pfs s)" using assms(1,2) by (simp add: fiu_at_def)
  obtain pf where pf: "pfs s p = Some pf" "pf_ok pf" using table_pfs_answer [OF t assms(3)] by blast
  obtain b pf' g' where st: "pf_step env pf (gen s) = (b, pf', g')" by (metis prod.exhaust)
  have "table_pfs (t\<lparr>wcache := c\<rparr>) ((pfs s)(p \<mapsto> pf'))"
    using table_pfs_update [OF table_pfs_cache [OF t assms(4)] pf(1)] pf_step_ok [OF st pf(2)] by blast
  with assms(1,2) pf(1) st show ?thesis by (auto simp: fiu_at_def after_step_def)
qed

lemma fiu_fail_inv:
  assumes inv: "fiu_inv s" and cb: "callbacks_keep_onetime env" and m: "e_mem env = mem_ok"
  shows "\<exists>r s'. fiu_fail env name s = Some (r, s') \<and> fiu_inv s' \<and> key_created s' = key_created s
    \<and> initialized s' = initialized s"
proof (cases "enabled_fails s")
  case NULL
  with inv have "fiu_fail env name s = Some (0, s)"
    by (cases s) (simp add: fiu_at_def fiu_fail_def rec_inc_def ef_rlock_def fail_exit_def ef_unlock_def rec_dec_def)
  with inv show ?thesis by simp
next
  case (Ptr t)
  obtain c where c: "wcache.coherent (wild_lookup (warray t)) c" "fiu_fail env name s = Some (case wtable_answer t name of
      NULL \<Rightarrow> (0, s\<lparr>enabled_fails := Ptr (t\<lparr>wcache := c\<rparr>)\<rparr>) | Ptr p \<Rightarrow> after_step env p (t\<lparr>wcache := c\<rparr>) s)"
    using fiu_fail_run [OF inv Ptr cb m] by blast
  show ?thesis
  proof (cases "wtable_answer t name")
    case NULL
    have "fiu_inv (s\<lparr>enabled_fails := Ptr (t\<lparr>wcache := c\<rparr>)\<rparr>)"
      using inv Ptr table_pfs_cache [OF _ c(1)] by (simp add: fiu_at_def)
    with NULL c(2) show ?thesis by simp
  next
    case (Ptr p)
    with fiu_inv_after_step [OF inv \<open>enabled_fails s = Ptr t\<close> Ptr c(1), of env] c(2) show ?thesis
      by (auto simp: after_step_def split: prod.splits)
  qed
qed

subsection \<open>Enabling and disabling\<close>

definition new_pf :: "string \<Rightarrow> int \<Rightarrow> addr \<Rightarrow> 32 word \<Rightarrow> pf_method \<Rightarrow> minfo \<Rightarrow> pf_info" where
  "new_pf name failnum failinfo flags method m =
     \<lparr>pf_name = name, pf_namelen = of_nat (length name), pf_failnum = failnum, pf_failinfo = failinfo, pf_flags = flags,
      pf_locked = False, pf_failed_once = False, pf_method = method, pf_minfo = m\<rparr>"

text \<open>The effect of storing the point of failure \<open>p\<close> under a name, or of removing a name, on the blocks.\<close>

definition drop_old :: "nat wtable \<Rightarrow> string \<Rightarrow> (nat \<rightharpoonup> pf_info) \<Rightarrow> (nat \<rightharpoonup> pf_info)" where
  "drop_old t name m = (case wtable_abs t name of Some (Ptr q) \<Rightarrow> m(q := None) | _ \<Rightarrow> m)"

lemma table_pfs_unique: "table_pfs t m \<Longrightarrow> m q = Some qf \<Longrightarrow> wtable_abs t k = Some (Ptr q) \<Longrightarrow> pf_name qf = k"
  using table_pfs_live [of t m k "Ptr q"] by auto

lemma table_pfs_put:
  assumes t: "table_pfs t m" and p: "m p = None" and set_eff: "wtable_set_effect t name (Ptr p) t'"
    and pf: "pf_ok pf" "pf_name pf = name"
  shows "table_pfs t' ((drop_old t name m)(p \<mapsto> pf))"
  unfolding table_pfs_def
proof (intro conjI allI impI)
  have eff: "wtable_inv t'" "wtable_abs t' = (wtable_abs t)(name \<mapsto> Ptr p)" "w_destructor t' = w_destructor t"
    using set_eff by (simp_all add: wtable_set_effect_def)
  then show "wtable_owns t'" using t by (simp add: table_pfs_def wtable_owns_def)
  have other: "drop_old t name m q = m q" if "m q = Some qf" "pf_name qf \<noteq> name" for q qf
    using table_pfs_unique [OF t that(1), of name] that(2)
    by (auto simp: drop_old_def split: option.splits ptr.splits)
  show "\<exists>q qf. v = Ptr q \<and> ((drop_old t name m)(p \<mapsto> pf)) q = Some qf \<and> pf_name qf = k" if "wtable_abs t' k = Some v" for k v
  proof (cases "k = name")
    case True
    with that eff(2) pf(2) show ?thesis by auto
  next
    case False
    with that eff(2) have "wtable_abs t k = Some v" by simp
    then obtain q qf where q: "v = Ptr q" "m q = Some qf" "pf_name qf = k" using table_pfs_live [OF t] by blast
    then show ?thesis using other [OF q(2)] False p by auto
  qed
  fix q qf assume q: "((drop_old t name m)(p \<mapsto> pf)) q = Some qf"
  have all: "wtable_abs t (pf_name x) = Some (Ptr r)" "pf_ok x" if "m r = Some x" for r x
    using t that by (simp_all add: table_pfs_def)
  have drop: "m q = Some qf \<and> wtable_abs t name \<noteq> Some (Ptr q)" if "q \<noteq> p"
    using q that by (auto simp: drop_old_def split: option.splits ptr.splits if_splits)
  show "wtable_abs t' (pf_name qf) = Some (Ptr q)"
  proof (cases "q = p")
    case True
    with q pf(2) eff(2) show ?thesis by simp
  next
    case False
    with drop all(1) [of q qf] eff(2) show ?thesis by auto
  qed
  show "pf_ok qf" using q pf(1) drop all(2) [of q qf] by (cases "q = p") auto
qed

lemma table_pfs_remove:
  assumes t: "table_pfs t m" and del_eff: "wtable_del_effect t name t'"
  shows "table_pfs t' (drop_old t name m)"
  unfolding table_pfs_def
proof (intro conjI allI impI)
  have eff: "wtable_inv t'" "wtable_abs t' = (wtable_abs t)(name := None)" "w_destructor t' = w_destructor t"
    using del_eff by (simp_all add: wtable_del_effect_def)
  then show "wtable_owns t'" using t by (simp add: table_pfs_def wtable_owns_def)
  show "\<exists>q qf. v = Ptr q \<and> drop_old t name m q = Some qf \<and> pf_name qf = k" if "wtable_abs t' k = Some v" for k v
  proof -
    from that eff(2) have k: "k \<noteq> name" "wtable_abs t k = Some v" by (simp_all split: if_splits)
    then obtain q qf where q: "v = Ptr q" "m q = Some qf" "pf_name qf = k" using table_pfs_live [OF t] by blast
    have "drop_old t name m q = m q"
      using table_pfs_unique [OF t q(2), of name] q(3) k(1) by (auto simp: drop_old_def split: option.splits ptr.splits)
    with q show ?thesis by auto
  qed
  fix q qf assume "drop_old t name m q = Some qf"
  then have drop: "m q = Some qf" "wtable_abs t name \<noteq> Some (Ptr q)"
    by (auto simp: drop_old_def split: option.splits ptr.splits if_splits)
  have all: "wtable_abs t (pf_name qf) = Some (Ptr q)" "pf_ok qf" using t drop(1) by (simp_all add: table_pfs_def)
  then show "wtable_abs t' (pf_name qf) = Some (Ptr q)" "pf_ok qf" using eff(2) drop(2) by auto
qed

text \<open>The destructor is called for the old point of failure of the name, which is allocated and not locked.\<close>

lemma pf_free_old:
  assumes "table_pfs t m" and "newly_released t t' = (case wtable_abs t name of None \<Rightarrow> [] | Some old \<Rightarrow> plain_destructor old)"
    and "\<And>q. m q \<noteq> None \<Longrightarrow> pfs s q = m q"
  shows "pf_free_all (newly_released t t') s = Some (s\<lparr>pfs := drop_old t name (pfs s)\<rparr>)"
proof (cases "wtable_abs t name")
  case None
  then show ?thesis using assms(2) by (simp add: drop_old_def)
next
  case (Some v)
  then obtain q qf where q: "v = Ptr q" "m q = Some qf" "pf_ok qf" using table_pfs_live [OF assms(1)] by blast
  with assms(3) [of q] have "pfs s q = Some qf" by simp
  with Some q assms(2) show ?thesis by (simp add: plain_destructor_def drop_old_def pf_ok_def)
qed

lemma create_and_insert_run:
  assumes inv: "fiu_at n s" and t: "enabled_fails s = Ptr t" and name: "name \<noteq> []" and m: "e_mem env = mem_ok"
    and pf: "pf = new_pf name failnum failinfo flags method mi" and typed: "pf_typed pf"
  shows "\<exists>t'. create_and_insert env name failnum failinfo flags method mi s = Some (0,
      s\<lparr>enabled_fails := Ptr t', pfs := (drop_old t name (pfs s))(next_pf s \<mapsto> pf), next_pf := next_pf s + 1\<rparr>)
    \<and> table_pfs t' ((drop_old t name (pfs s))(next_pf s \<mapsto> pf)) \<and> wtable_abs t' = (wtable_abs t)(name \<mapsto> Ptr (next_pf s))"
proof -
  let ?p = "next_pf s"
  have parts: "enabled_fails_lock s = Unlocked" "rec_count s = n" "table_pfs t (pfs s)" "\<forall>p \<in> dom (pfs s). p < ?p"
    using inv t by (simp_all add: fiu_at_def)
  have fresh: "pfs s ?p = None" using parts(4) by (metis domIff less_irrefl)
  have ok: "pf_ok pf" "pf_name pf = name" using typed pf by (simp_all add: pf_ok_def new_pf_def)
  have owns: "wtable_inv t" "w_destructor t = Ptr plain_destructor" using parts(3) by (simp_all add: table_pfs_def wtable_owns_def)
  obtain t' where t': "wtable_set mem_ok t name (Ptr ?p) = Some (True, t')" "wtable_set_effect t name (Ptr ?p) t'"
    by (rule wtable_set_law [OF owns(1) name])
  have newly: "newly_released t t' = (case wtable_abs t name of None \<Rightarrow> [] | Some old \<Rightarrow> plain_destructor old)"
    using t'(2) owns(2) by (auto simp: wtable_set_effect_def)
  define s2 where "s2 = s\<lparr>rec_count := n + 1, enabled_fails_lock := Write_locked, enabled_fails := Ptr t',
      pfs := (pfs s)(?p \<mapsto> pf), next_pf := ?p + 1\<rparr>"
  have free: "pf_free_all (newly_released t t') s2 = Some (s2\<lparr>pfs := drop_old t name (pfs s2)\<rparr>)"
    by (rule pf_free_old [OF parts(3) newly]) (use fresh in \<open>auto simp: s2_def\<close>)
  have comm: "drop_old t name ((pfs s)(?p \<mapsto> pf)) = (drop_old t name (pfs s))(?p \<mapsto> pf)"
    using table_pfs_live [OF parts(3), of name] fresh
    by (fastforce simp: drop_old_def fun_upd_twist split: option.splits ptr.splits)
  have create: "pf_create env name failnum failinfo flags method s =
      (Ptr ?p, s\<lparr>pfs := (pfs s)(?p \<mapsto> pf\<lparr>pf_minfo := M_unset\<rparr>), next_pf := ?p + 1\<rparr>)"
    using m pf by (cases s) (simp add: pf_create_def rec_inc_def rec_dec_def c_run new_pf_def Let_def)
  have "ef_wlock (rec_inc (set_pf ?p pf (s\<lparr>pfs := (pfs s)(?p \<mapsto> pf\<lparr>pf_minfo := M_unset\<rparr>), next_pf := ?p + 1\<rparr>)))
      = Some (s2\<lparr>enabled_fails := Ptr t\<rparr>)"
    using parts(1,2) t by (cases s) (simp add: ef_wlock_def rec_inc_def set_pf_def s2_def)
  moreover have "s2\<lparr>enabled_fails := Ptr t'\<rparr> = s2" by (simp add: s2_def)
  moreover have "pf\<lparr>pf_minfo := mi\<rparr> = pf" using pf by (simp add: new_pf_def)
  moreover have "pfs (s2\<lparr>enabled_fails := Ptr t\<rparr>) ?p = Some pf" by (simp add: s2_def)
  ultimately have "create_and_insert env name failnum failinfo flags method mi s =
      do { s3 \<leftarrow> ef_unlock (s2\<lparr>pfs := drop_old t name (pfs s2)\<rparr>); Some (0, rec_dec s3) }"
    using create t'(1) m ok(2) free by (simp add: create_and_insert_def insert_pf_def)
  also have "\<dots> = Some (0, s\<lparr>enabled_fails := Ptr t', pfs := (drop_old t name (pfs s))(?p \<mapsto> pf), next_pf := ?p + 1\<rparr>)"
    using parts(1,2) comm by (cases s) (simp add: ef_unlock_def rec_dec_def s2_def)
  finally show ?thesis
    using table_pfs_put [OF parts(3) fresh t'(2) ok] t'(2) by (auto simp: wtable_set_effect_def)
qed

lemma fiu_disable_run:
  assumes inv: "fiu_at n s" and t: "enabled_fails s = Ptr t" and name: "name \<noteq> []" and m: "e_mem env = mem_ok"
  shows "\<exists>t'. fiu_disable env name s = Some (if wtable_abs t name = None then -1 else 0,
      s\<lparr>enabled_fails := Ptr t', pfs := drop_old t name (pfs s)\<rparr>)
    \<and> table_pfs t' (drop_old t name (pfs s)) \<and> wtable_abs t' = (wtable_abs t)(name := None)"
proof -
  have parts: "enabled_fails_lock s = Unlocked" "rec_count s = n" "table_pfs t (pfs s)"
    using inv t by (simp_all add: fiu_at_def)
  have owns: "wtable_inv t" "w_destructor t = Ptr plain_destructor" using parts(3) by (simp_all add: table_pfs_def wtable_owns_def)
  obtain t' where t': "wtable_del mem_ok t name = Some (wtable_abs t name \<noteq> None, t')" "wtable_del_effect t name t'"
    by (rule wtable_del_law [OF owns(1) name])
  have newly: "newly_released t t' = (case wtable_abs t name of None \<Rightarrow> [] | Some old \<Rightarrow> plain_destructor old)"
    using t'(2) owns(2) by (auto simp: wtable_del_effect_def)
  define s2 where "s2 = s\<lparr>rec_count := n + 1, enabled_fails_lock := Write_locked, enabled_fails := Ptr t'\<rparr>"
  have free: "pf_free_all (newly_released t t') s2 = Some (s2\<lparr>pfs := drop_old t name (pfs s2)\<rparr>)"
    by (rule pf_free_old [OF parts(3) newly]) (simp add: s2_def)
  have "ef_wlock (rec_inc s) = Some (s2\<lparr>enabled_fails := Ptr t\<rparr>)"
    using parts(1,2) t by (cases s) (simp add: ef_wlock_def rec_inc_def s2_def)
  moreover have "s2\<lparr>enabled_fails := Ptr t'\<rparr> = s2" by (simp add: s2_def)
  ultimately have "fiu_disable env name s = do { s3 \<leftarrow> ef_unlock (s2\<lparr>pfs := drop_old t name (pfs s2)\<rparr>);
      Some (if wtable_abs t name = None then -1 else 0, rec_dec s3) }"
    using t'(1) m free by (simp add: fiu_disable_def)
  also have "\<dots> = Some (if wtable_abs t name = None then -1 else 0, s\<lparr>enabled_fails := Ptr t', pfs := drop_old t name (pfs s)\<rparr>)"
    using parts(1,2) by (cases s) (simp add: ef_unlock_def rec_dec_def s2_def)
  finally show ?thesis
    using table_pfs_remove [OF parts(3) t'(2)] t'(2) by (auto simp: wtable_del_effect_def)
qed

subsection \<open>The enabled points of failure as a map\<close>

lemma points_iff:
  assumes "fiu_at n s"
  shows "points s k = Some pf \<longleftrightarrow> (\<exists>p. pfs s p = Some pf \<and> pf_name pf = k)"
proof (cases "enabled_fails s")
  case NULL
  with assms show ?thesis by (simp add: points_def fiu_at_def)
next
  case (Ptr t)
  with assms have t: "table_pfs t (pfs s)" by (simp add: fiu_at_def)
  show ?thesis
  proof
    assume "points s k = Some pf"
    with Ptr obtain p where "wtable_abs t k = Some (Ptr p)" "pfs s p = Some pf"
      by (auto simp: points_def split: option.splits ptr.splits)
    with table_pfs_unique [OF t] show "\<exists>p. pfs s p = Some pf \<and> pf_name pf = k" by blast
  next
    assume "\<exists>p. pfs s p = Some pf \<and> pf_name pf = k"
    then obtain p where p: "pfs s p = Some pf" "pf_name pf = k" by blast
    with t have "wtable_abs t k = Some (Ptr p)" by (auto simp: table_pfs_def)
    with Ptr p show "points s k = Some pf" by (simp add: points_def)
  qed
qed

lemma points_eqI:
  assumes "\<And>k pf. f k = Some pf \<longleftrightarrow> g k = Some (pf :: 'b)"
  shows "f = g"
  using assms by (metis not_None_eq ext)

lemma points_in: "enabled_fails s = Ptr t \<Longrightarrow> fiu_at n s \<Longrightarrow> wtable_abs t k = None \<longleftrightarrow> points s k = None"
  using table_pfs_live [of t "pfs s" k] by (fastforce simp: points_def fiu_at_def split: option.splits ptr.splits)

lemma drop_old_iff:
  assumes "table_pfs t m"
  shows "drop_old t name m q = Some qf \<longleftrightarrow> m q = Some qf \<and> pf_name qf \<noteq> name"
proof -
  have "m q = Some qf \<and> pf_name qf = name \<Longrightarrow> drop_old t name m q = None"
    using assms by (auto simp: table_pfs_def drop_old_def)
  moreover have "drop_old t name m q = m q" if "m q = Some qf" "pf_name qf \<noteq> name"
    using table_pfs_unique [OF assms that(1), of name] that(2)
    by (auto simp: drop_old_def split: option.splits ptr.splits)
  moreover have "drop_old t name m q = Some qf \<Longrightarrow> m q = Some qf"
    by (auto simp: drop_old_def split: option.splits ptr.splits if_splits)
  ultimately show ?thesis by (metis option.distinct(1))
qed

lemma create_and_insert_ok:
  assumes inv: "fiu_at n s" and t: "enabled_fails s \<noteq> NULL" and name: "name \<noteq> []" and m: "e_mem env = mem_ok"
    and typed: "pf_typed (new_pf name failnum failinfo flags method mi)"
  shows "\<exists>s'. create_and_insert env name failnum failinfo flags method mi s = Some (0, s') \<and> fiu_at n s'
    \<and> enabled_fails s' \<noteq> NULL \<and> points s' = (points s)(name \<mapsto> new_pf name failnum failinfo flags method mi)
    \<and> gen s' = gen s \<and> last_failinfo s' = last_failinfo s \<and> bt_works s' = bt_works s \<and> initialized s' = initialized s"
proof -
  define pf where "pf = new_pf name failnum failinfo flags method mi"
  obtain t where t: "enabled_fails s = Ptr t" using t by (cases "enabled_fails s") auto
  obtain t' where run: "create_and_insert env name failnum failinfo flags method mi s = Some (0,
      s\<lparr>enabled_fails := Ptr t', pfs := (drop_old t name (pfs s))(next_pf s \<mapsto> pf), next_pf := next_pf s + 1\<rparr>)"
    "table_pfs t' ((drop_old t name (pfs s))(next_pf s \<mapsto> pf))" "wtable_abs t' = (wtable_abs t)(name \<mapsto> Ptr (next_pf s))"
    using create_and_insert_run [OF inv t name m pf_def] typed by (auto simp: pf_def)
  define s' where "s' = s\<lparr>enabled_fails := Ptr t', pfs := (drop_old t name (pfs s))(next_pf s \<mapsto> pf), next_pf := next_pf s + 1\<rparr>"
  have parts: "table_pfs t (pfs s)" "\<forall>p \<in> dom (pfs s). p < next_pf s" "enabled_fails_lock s = Unlocked" "rec_count s = n" "key_created s"
    using inv t by (simp_all add: fiu_at_def)
  have d: "drop_old t name (pfs s) p = Some x \<longleftrightarrow> pfs s p = Some x \<and> pf_name x \<noteq> name" for p x
    by (rule drop_old_iff [OF parts(1)])
  have "\<forall>p \<in> dom (pfs s'). p < next_pf s'"
    using parts(2) d by (auto simp: s'_def less_Suc_eq)
  then have inv': "fiu_at n s'" using run(2) parts by (simp add: fiu_at_def s'_def)
  have fresh: "pfs s (next_pf s) = None" using parts(2) by (metis domIff less_irrefl)
  have e: "pfs s' p = Some x \<longleftrightarrow> (p = next_pf s \<and> x = pf) \<or> (pfs s p = Some x \<and> pf_name x \<noteq> name)" for p x
    using d [of p x] fresh by (auto simp: s'_def)
  have "points s' = (points s)(name \<mapsto> pf)"
  proof (rule points_eqI)
    fix k x
    have "pf_name pf = name" by (simp add: pf_def new_pf_def)
    then show "points s' k = Some x \<longleftrightarrow> ((points s)(name \<mapsto> pf)) k = Some x"
      unfolding points_iff [OF inv'] e using points_iff [OF inv]
      by (cases "k = name") auto
  qed
  with run(1) inv' show ?thesis by (auto simp: s'_def pf_def)
qed

lemma fiu_disable_ok:
  assumes inv: "fiu_at n s" and t: "enabled_fails s \<noteq> NULL" and name: "name \<noteq> []" and m: "e_mem env = mem_ok"
  shows "\<exists>s'. fiu_disable env name s = Some (if points s name = None then -1 else 0, s') \<and> fiu_at n s'
    \<and> enabled_fails s' \<noteq> NULL \<and> points s' = (points s)(name := None)
    \<and> gen s' = gen s \<and> last_failinfo s' = last_failinfo s \<and> bt_works s' = bt_works s \<and> initialized s' = initialized s"
proof -
  obtain t where t: "enabled_fails s = Ptr t" using t by (cases "enabled_fails s") auto
  obtain t' where run: "fiu_disable env name s = Some (if wtable_abs t name = None then -1 else 0,
      s\<lparr>enabled_fails := Ptr t', pfs := drop_old t name (pfs s)\<rparr>)"
    "table_pfs t' (drop_old t name (pfs s))" using fiu_disable_run [OF inv t name m] by blast
  define s' where "s' = s\<lparr>enabled_fails := Ptr t', pfs := drop_old t name (pfs s)\<rparr>"
  have parts: "table_pfs t (pfs s)" "\<forall>p \<in> dom (pfs s). p < next_pf s" "enabled_fails_lock s = Unlocked" "rec_count s = n" "key_created s"
    using inv t by (simp_all add: fiu_at_def)
  have d: "drop_old t name (pfs s) p = Some x \<longleftrightarrow> pfs s p = Some x \<and> pf_name x \<noteq> name" for p x
    by (rule drop_old_iff [OF parts(1)])
  have "\<forall>p \<in> dom (pfs s'). p < next_pf s'" using parts(2) d by (auto simp: s'_def)
  then have inv': "fiu_at n s'" using run(2) parts by (simp add: fiu_at_def s'_def)
  have "points s' = (points s)(name := None)"
  proof (rule points_eqI)
    fix k x
    show "points s' k = Some x \<longleftrightarrow> ((points s)(name := None)) k = Some x"
      unfolding points_iff [OF inv'] using d points_iff [OF inv]
      by (cases "k = name") (auto simp: s'_def)
  qed
  with run(1) inv' points_in [OF t inv] show ?thesis by (auto simp: s'_def)
qed

subsection \<open>Which point of failure answers\<close>

text \<open>\<open>a\<close> may answer for \<open>name\<close>: the point of failure of that very name, else one whose pattern matches, else none.\<close>

definition answers :: "(string \<rightharpoonup> pf_info) \<Rightarrow> string \<Rightarrow> pf_info option \<Rightarrow> bool" where
  "answers pts name a \<longleftrightarrow>
     (if \<not> is_pat name \<and> pts name \<noteq> None then a = pts name
      else if \<exists>p \<in> dom pts. pat_matches p name then \<exists>p. pat_matches p name \<and> pts p = a \<and> a \<noteq> None
      else a = None)"

definition answer_pf :: "fiu \<Rightarrow> string \<Rightarrow> pf_info option" where
  "answer_pf s name = (case enabled_fails s of NULL \<Rightarrow> None
     | Ptr t \<Rightarrow> (case wtable_answer t name of NULL \<Rightarrow> None | Ptr p \<Rightarrow> pfs s p))"

lemma answer_pf_answers:
  assumes "fiu_at n s"
  shows "answers (points s) name (answer_pf s name)"
proof (cases "enabled_fails s")
  case NULL
  then show ?thesis by (auto simp: answers_def answer_pf_def points_def)
next
  case (Ptr t)
  with assms have t: "table_pfs t (pfs s)" by (simp add: fiu_at_def)
  then have "wtable_inv t" by (simp add: table_pfs_def wtable_owns_def)
  note pa = wtable_answer_pattern [OF this, of name]
  have val: "\<exists>p pf. wtable_abs t k = Some (Ptr p) \<and> pfs s p = Some pf \<and> points s k = Some pf" if "wtable_abs t k \<noteq> None" for k
    using that table_pfs_live [OF t, of k] Ptr by (auto simp: points_def)
  have none: "points s k = None" if "wtable_abs t k = None" for k using that Ptr by (simp add: points_def)
  have dom: "points s k = None \<longleftrightarrow> wtable_abs t k = None" for k using val none by (metis option.distinct(1))
  show ?thesis
  proof (cases "\<not> is_pat name \<and> points s name \<noteq> None")
    case True
    then obtain p pf where p: "wtable_abs t name = Some (Ptr p)" "pfs s p = Some pf" "points s name = Some pf"
      using val [of name] dom [of name] by auto
    with pa True have "wtable_answer t name = Ptr p" by (simp add: pattern_answer_def)
    with p Ptr True show ?thesis by (simp add: answers_def answer_pf_def)
  next
    case False
    then have no: "\<not> (\<not> is_pat name \<and> wtable_abs t name \<noteq> None \<and> wtable_abs t name \<noteq> Some NULL)"
      using dom [of name] by auto
    show ?thesis
    proof (cases "\<exists>p \<in> dom (points s). pat_matches p name")
      case True
      then have "\<exists>p \<in> dom (wtable_abs t). pat_matches p name" using dom by (metis domIff)
      with pa no obtain k where k: "pat_matches k name" "wtable_abs t k = Some (wtable_answer t name)"
        unfolding pattern_answer_def by metis
      with val [of k] obtain p pf where "wtable_answer t name = Ptr p" "pfs s p = Some pf" "points s k = Some pf" by auto
      with k(1) True False Ptr show ?thesis by (auto simp: answers_def answer_pf_def)
    next
      case none: False
      then have "\<not> (\<exists>p \<in> dom (wtable_abs t). pat_matches p name)" using dom by (metis domIff)
      with pa no have "wtable_answer t name = NULL" unfolding pattern_answer_def by metis
      with none False Ptr show ?thesis by (auto simp: answers_def answer_pf_def)
    qed
  qed
qed

text \<open>One call of \<open>fiu_fail\<close> on the map of points of failure.\<close>

lemma fiu_fail_ok:
  assumes inv: "fiu_inv s" and cb: "callbacks_keep_onetime env" and m: "e_mem env = mem_ok"
  shows "\<exists>r s'. fiu_fail env name s = Some (r, s') \<and> fiu_inv s' \<and> (enabled_fails s' = NULL \<longleftrightarrow> enabled_fails s = NULL)
    \<and> initialized s' = initialized s \<and> bt_works s' = bt_works s
    \<and> (case answer_pf s name of
         None \<Rightarrow> r = 0 \<and> points s' = points s \<and> gen s' = gen s \<and> last_failinfo s' = last_failinfo s
       | Some pf \<Rightarrow> points s (pf_name pf) = Some pf \<and> (case pf_step env pf (gen s) of (b, pf', g') \<Rightarrow>
           r = (if b then pf_failnum pf' else 0) \<and> points s' = (points s)(pf_name pf \<mapsto> pf') \<and> gen s' = g'
           \<and> last_failinfo s' = (if b then pf_failinfo pf' else last_failinfo s)))"
proof (cases "enabled_fails s")
  case NULL
  with inv have "fiu_fail env name s = Some (0, s)"
    by (cases s) (simp add: fiu_at_def fiu_fail_def rec_inc_def ef_rlock_def fail_exit_def ef_unlock_def rec_dec_def)
  with inv NULL show ?thesis by (simp add: answer_pf_def)
next
  case (Ptr t)
  note t = this
  obtain c where c: "wcache.coherent (wild_lookup (warray t)) c" "fiu_fail env name s = Some (case wtable_answer t name of
      NULL \<Rightarrow> (0, s\<lparr>enabled_fails := Ptr (t\<lparr>wcache := c\<rparr>)\<rparr>) | Ptr p \<Rightarrow> after_step env p (t\<lparr>wcache := c\<rparr>) s)"
    using fiu_fail_run [OF inv t cb m] by blast
  show ?thesis
  proof (cases "wtable_answer t name")
    case NULL
    have "fiu_inv (s\<lparr>enabled_fails := Ptr (t\<lparr>wcache := c\<rparr>)\<rparr>)"
      using inv t table_pfs_cache [OF _ c(1)] by (simp add: fiu_at_def)
    moreover have "points (s\<lparr>enabled_fails := Ptr (t\<lparr>wcache := c\<rparr>)\<rparr>) = points s"
      by (auto simp: points_def t fun_eq_iff split: option.split ptr.split)
    ultimately show ?thesis using NULL c(2) t by (simp add: answer_pf_def)
  next
    case (Ptr p)
    have tp: "table_pfs t (pfs s)" using inv t by (simp add: fiu_at_def)
    obtain pf where pf: "pfs s p = Some pf" "pf_ok pf" using table_pfs_answer [OF tp Ptr] by blast
    obtain b pf' g' where st: "pf_step env pf (gen s) = (b, pf', g')" by (metis prod.exhaust)
    define s' where "s' = snd (after_step env p (t\<lparr>wcache := c\<rparr>) s)"
    have inv': "fiu_inv s'" unfolding s'_def by (rule fiu_inv_after_step [OF inv t Ptr c(1)])
    have run: "after_step env p (t\<lparr>wcache := c\<rparr>) s = (if b then pf_failnum pf' else 0, s')"
      using st pf(1) by (simp add: after_step_def s'_def)
    have fields: "pfs s' = (pfs s)(p \<mapsto> pf')" "gen s' = g'" "enabled_fails s' = Ptr (t\<lparr>wcache := c\<rparr>)"
      "last_failinfo s' = (if b then pf_failinfo pf' else last_failinfo s)" "initialized s' = initialized s" "bt_works s' = bt_works s"
      using st pf(1) by (simp_all add: after_step_def s'_def)
    have nm: "pf_name pf' = pf_name pf" using pf_step_ok [OF st pf(2)] by simp
    have inj: "q = p" if "pfs s q = Some x" "pf_name x = pf_name pf" for q x
      using tp that pf(1) unfolding table_pfs_def by (metis option.inject ptr.inject)
    have "points s' = (points s)(pf_name pf \<mapsto> pf')"
    proof (rule points_eqI)
      fix k x
      show "points s' k = Some x \<longleftrightarrow> ((points s)(pf_name pf \<mapsto> pf')) k = Some x"
      proof (cases "k = pf_name pf")
        case True
        have "(\<exists>q. ((pfs s)(p \<mapsto> pf')) q = Some x \<and> pf_name x = k) \<longleftrightarrow> x = pf'"
          using inj [of _ x] True nm by auto
        with True show ?thesis unfolding points_iff [OF inv'] fields(1) by auto
      next
        case False
        have "(\<exists>q. ((pfs s)(p \<mapsto> pf')) q = Some x \<and> pf_name x = k) \<longleftrightarrow> (\<exists>q. pfs s q = Some x \<and> pf_name x = k)"
          using False nm pf(1) by (metis fun_upd_apply option.inject)
        with False show ?thesis unfolding points_iff [OF inv'] fields(1) using points_iff [OF inv] by simp
      qed
    qed
    moreover have "points s (pf_name pf) = Some pf" using points_iff [OF inv] pf(1) by blast
    ultimately show ?thesis using Ptr c(2) t run inv' fields st pf(1) by (simp add: answer_pf_def)
  qed
qed

end
