(* ===== verification/Fiu_API.thy ===== *)
theory Fiu_API
  imports Fiu_Correct
begin

text \<open>
  The library as its clients see it: it provides the interface \<open>fault_control\<close>, any sequence of API calls has
  defined results, and what the calls do to each other. The concrete instances run in the environments
  \<open>quiet_env\<close> and \<open>stack_env\<close>.
\<close>

subsection \<open>The library provides the interface\<close>

definition env_ok :: "env \<Rightarrow> bool" where
  "env_ok env \<longleftrightarrow> callbacks_keep_onetime env \<and> e_mem env = mem_ok"

definition fiu_ready_at :: "int \<Rightarrow> fiu \<Rightarrow> bool" where
  "fiu_ready_at n s \<longleftrightarrow> fiu_at n s \<and> enabled_fails s \<noteq> NULL \<and> initialized s"

abbreviation fiu_ready :: "fiu \<Rightarrow> bool" where
  "fiu_ready \<equiv> fiu_ready_at 0"

text \<open>What a point of failure is enabled with: number, info, flags, method and the contents of the union.\<close>

type_synonym pf_args = "int \<times> addr \<times> 32 word \<times> pf_method \<times> minfo"

fun args_pf :: "string \<Rightarrow> pf_args \<Rightarrow> pf_info" where
  "args_pf name (failnum, failinfo, flags, method, m) = new_pf name failnum failinfo flags method m"

fun args_typed :: "pf_args \<Rightarrow> bool" where
  "args_typed (failnum, failinfo, flags, method, m) \<longleftrightarrow> pf_typed (new_pf [] failnum failinfo flags method m)"

fun fiu_add :: "env \<Rightarrow> string \<Rightarrow> pf_args \<Rightarrow> fiu \<Rightarrow> (int \<times> fiu) option" where
  "fiu_add env name (failnum, failinfo, flags, method, m) s = create_and_insert env name failnum failinfo flags method m s"

lemma new_pf_typed: "pf_typed (new_pf name failnum failinfo flags method m) = pf_typed (new_pf [] failnum failinfo flags method m)"
  by (rule pf_typed_cong) (simp_all add: new_pf_def)

interpretation fiu_control: fault_control env_ok args_typed "fiu_ready_at rc" points args_pf fiu_add fiu_disable for rc
proof
  fix e :: env and s :: fiu and name :: string and a :: pf_args
  assume e: "env_ok e" and s: "fiu_ready_at rc s" and name: "name \<noteq> []"
  show "\<exists>s'. fiu_add e name a s = Some (0, s') \<and> fiu_ready_at rc s' \<and> points s' = (points s)(name \<mapsto> args_pf name a)"
    if "args_typed a"
  proof -
    obtain n i f me mi where a: "a = (n, i, f, me, mi)" by (metis prod.exhaust)
    with that have "pf_typed (new_pf name n i f me mi)" using new_pf_typed [of name] by simp
    then show ?thesis using create_and_insert_ok [of rc s name e n i f me mi] e s name a
      by (auto simp: env_ok_def fiu_ready_at_def)
  qed
  show "\<exists>s'. fiu_disable e name s = Some (if points s name = None then -1 else 0, s') \<and> fiu_ready_at rc s'
      \<and> points s' = (points s)(name := None)"
    using fiu_disable_ok [of rc s name e] e s name by (auto simp: env_ok_def fiu_ready_at_def)
qed

lemma args_pf_fields [simp]:
  "pf_name (new_pf name n i f me mi) = name" "pf_failnum (new_pf name n i f me mi) = n"
  "pf_failinfo (new_pf name n i f me mi) = i" "pf_flags (new_pf name n i f me mi) = f"
  "pf_method (new_pf name n i f me mi) = me" "pf_minfo (new_pf name n i f me mi) = mi"
  "pf_failed_once (new_pf name n i f me mi) = False" "pf_locked (new_pf name n i f me mi) = False"
  by (simp_all add: new_pf_def)

lemma typed_always [simp]: "pf_typed (new_pf name n i f PF_ALWAYS mi)"
  "pf_typed (new_pf name n i f PF_PROB (M_probability pr))"
  "pf_typed (new_pf name n i f PF_EXTERNAL (M_external_cb cb))"
  "pf_typed (new_pf name n i f PF_STACK (M_stack a b c))"
  by (simp_all add: pf_typed_def)

subsection \<open>A new library\<close>

definition env_good :: "env \<Rightarrow> bool" where
  "env_good env \<longleftrightarrow> env_ok env \<and> (\<forall>i. e_create env i) \<and> e_atfork env = 0
     \<and> (case e_seed env of NULL \<Rightarrow> True | Ptr e \<Rightarrow> atoi (Ptr e) \<noteq> None)"

text \<open>One run of \<open>fiu_init\<close> that reaches \<open>pthread_atfork\<close>: the table is new whatever was there before.\<close>

lemma fiu_init_runs:
  assumes "env_good (env\<lparr>e_atfork := 0\<rparr>)" and "\<not> initialized s" and "rec_count s = 0" and "enabled_fails_lock s = Unlocked"
  shows "\<exists>t g. table_pfs t Map.empty \<and> wtable_abs t = Map.empty \<and> fiu_init env s = Some (if e_atfork env \<noteq> 0 then -1 else 0,
    s\<lparr>key_created := True, last_failinfo := 0, enabled_fails := Ptr t, gen := g, initialized := e_atfork env = 0\<rparr>)"
proof -
  obtain t :: "nat wtable" where t: "wtable_create True True True True True True True (e_junk env) (Ptr plain_destructor) = Ptr t"
    by (rule new_wtable)
  note w = wtable_create_inv [OF t]
  have tab: "table_pfs t Map.empty" using w by (simp add: table_pfs_def wtable_owns_def)
  obtain g where g: "(case e_seed env of NULL \<Rightarrow> Some (gen s)
      | Ptr e \<Rightarrow> do { n \<leftarrow> atoi (Ptr e); Some (fiu_set_prng_seed (word_of_int n) (gen s)) }) = Some g"
    using assms(1) by (auto simp: env_good_def split: ptr.splits)
  have s: "s\<lparr>initialized := False\<rparr> = s" "s\<lparr>enabled_fails_lock := Unlocked\<rparr> = s" "s\<lparr>rec_count := 0\<rparr> = s"
    using assms(2-4) by (cases s; simp)+
  show ?thesis
  proof (cases "e_atfork env = 0")
    case True
    then have "fiu_init env s = Some (0, s\<lparr>key_created := True, last_failinfo := 0, enabled_fails := Ptr t,
        gen := prng_seed (e_usec env) g, initialized := True\<rparr>)"
      using assms t g by (cases s) (simp add: env_good_def fiu_init_def rec_inc_def ef_wlock_def ef_unlock_def rec_dec_def Let_def cong: ptr.case_cong)
    with tab w(2) True show ?thesis by auto
  next
    case False
    then have "fiu_init env s = Some (-1, s\<lparr>key_created := True, last_failinfo := 0, enabled_fails := Ptr t,
        gen := gen s, initialized := False\<rparr>)"
      using assms t by (cases s) (simp add: env_good_def fiu_init_def rec_inc_def ef_wlock_def ef_unlock_def rec_dec_def Let_def cong: ptr.case_cong)
    with tab w(2) False show ?thesis by (intro exI [of _ t] exI [of _ "gen s"]) simp
  qed
qed

lemma fiu_init_start:
  assumes "env_good env"
  shows "\<exists>s. fiu_init env fiu_start = Some (0, s) \<and> fiu_ready s \<and> points s = Map.empty \<and> last_failinfo s = 0 \<and> bt_works s = -1"
proof -
  have env: "e_atfork env = 0" "env_good (env\<lparr>e_atfork := 0\<rparr>)"
    using assms by (simp_all add: env_good_def env_ok_def callbacks_keep_onetime_def)
  have "\<not> initialized fiu_start" "rec_count fiu_start = 0" "enabled_fails_lock fiu_start = Unlocked" by (simp_all add: fiu_start_def)
  from fiu_init_runs [OF env(2) this] env(1) obtain t g where t: "table_pfs t Map.empty" "wtable_abs t = Map.empty" "fiu_init env fiu_start = Some (0,
    fiu_start\<lparr>key_created := True, last_failinfo := 0, enabled_fails := Ptr t, gen := g, initialized := True\<rparr>)" by auto
  let ?s = "fiu_start\<lparr>key_created := True, last_failinfo := 0, enabled_fails := Ptr t, gen := g, initialized := True\<rparr>"
  have "fiu_ready ?s" "points ?s = Map.empty"
    using t(1,2) by (simp_all add: fiu_ready_at_def fiu_at_def fiu_start_def points_def fun_eq_iff)
  with t(3) show ?thesis by (intro exI [of _ ?s]) (simp add: fiu_start_def)
qed

lemma fiu_init_again:
  assumes "fiu_ready s"
  shows "fiu_init env s = Some (0, s)"
  using assms by (cases s) (simp add: fiu_ready_at_def fiu_at_def fiu_init_def rec_inc_def ef_wlock_def ef_unlock_def rec_dec_def)

text \<open>When \<open>pthread_atfork\<close> fails, \<open>fiu_init\<close> returns -1 but its table is in place and the control API works; a later call that
  succeeds replaces the table without freeing it: what was enabled in between is forgotten, and its block is never released.\<close>

lemma fiu_init_retry_forgets:
  assumes "env_good env" and "name \<noteq> []"
  shows "\<exists>s1 s2 s3 p. fiu_init (env\<lparr>e_atfork := -1\<rparr>) fiu_start = Some (-1, s1) \<and> fiu_enable env name n i f s1 = Some (0, s2)
    \<and> points s2 = [name \<mapsto> new_pf name n i f PF_ALWAYS M_unset]
    \<and> fiu_init env s2 = Some (0, s3) \<and> points s3 = Map.empty \<and> pfs s3 p = Some (new_pf name n i f PF_ALWAYS M_unset)"
proof -
  let ?e = "env\<lparr>e_atfork := -1\<rparr>" and ?pf = "new_pf name n i f PF_ALWAYS M_unset"
  have good: "env_good (?e\<lparr>e_atfork := 0\<rparr>)" using assms(1) by (simp add: env_good_def env_ok_def callbacks_keep_onetime_def)
  have start: "\<not> initialized fiu_start" "rec_count fiu_start = 0" "enabled_fails_lock fiu_start = Unlocked" "pfs fiu_start = Map.empty"
    by (simp_all add: fiu_start_def)
  obtain t g where t: "table_pfs t Map.empty" "wtable_abs t = Map.empty" "fiu_init ?e fiu_start = Some (-1,
    fiu_start\<lparr>key_created := True, last_failinfo := 0, enabled_fails := Ptr t, gen := g, initialized := False\<rparr>)"
    using fiu_init_runs [OF good start(1-3)] by auto
  define s1 where "s1 = fiu_start\<lparr>key_created := True, last_failinfo := 0, enabled_fails := Ptr t, gen := g, initialized := False\<rparr>"
  have s1: "fiu_inv s1" "enabled_fails s1 \<noteq> NULL" "points s1 = Map.empty" "\<not> initialized s1" "bt_works s1 = -1"
    using t(1,2) by (simp_all add: s1_def fiu_at_def fiu_start_def points_def fun_eq_iff)
  have mem: "e_mem env = mem_ok" using assms(1) by (simp add: env_good_def env_ok_def)
  from create_and_insert_ok [OF s1(1,2) assms(2) mem typed_always(1), of n i f M_unset] s1(3,4) obtain s2 where
    s2: "fiu_enable env name n i f s1 = Some (0, s2)" "fiu_inv s2" "points s2 = [name \<mapsto> ?pf]" "\<not> initialized s2"
    by (auto simp: fiu_enable_def)
  from points_iff [OF s2(2), of name ?pf] s2(3) obtain p where p: "pfs s2 p = Some ?pf" by auto
  have "rec_count s2 = 0" "enabled_fails_lock s2 = Unlocked" using s2(2) by (simp_all add: fiu_at_def)
  moreover have "e_atfork env = 0" "env_good (env\<lparr>e_atfork := 0\<rparr>)"
    using assms(1) by (simp_all add: env_good_def env_ok_def callbacks_keep_onetime_def)
  ultimately obtain t' g' where t': "wtable_abs t' = Map.empty"
    "fiu_init env s2 = Some (0, s2\<lparr>key_created := True, last_failinfo := 0, enabled_fails := Ptr t', gen := g', initialized := True\<rparr>)"
    using fiu_init_runs [of env s2] s2(4) by auto
  have "points (s2\<lparr>key_created := True, last_failinfo := 0, enabled_fails := Ptr t', gen := g', initialized := True\<rparr>) = Map.empty"
    using t'(1) by (simp add: points_def fun_eq_iff)
  with t(3) [folded s1_def] s2(1,3) t'(2) p show ?thesis by fastforce
qed

subsection \<open>Calls of the API, in any order\<close>

datatype call =
    Init | Fail string | Failinfo
  | Enable string int addr "32 word"
  | Enable_random string int addr "32 word" rat
  | Enable_external string int addr "32 word" addr
  | Enable_stack string int addr "32 word" addr int
  | Enable_stack_by_name string int addr "32 word" string int
  | Disable string
  | Set_seed "32 word"

fun call_name_ok :: "call \<Rightarrow> bool" where
  "call_name_ok (Enable name _ _ _) \<longleftrightarrow> name \<noteq> []"
| "call_name_ok (Enable_random name _ _ _ _) \<longleftrightarrow> name \<noteq> []"
| "call_name_ok (Enable_external name _ _ _ _) \<longleftrightarrow> name \<noteq> []"
| "call_name_ok (Enable_stack name _ _ _ _ _) \<longleftrightarrow> name \<noteq> []"
| "call_name_ok (Enable_stack_by_name name _ _ _ _ _) \<longleftrightarrow> name \<noteq> []"
| "call_name_ok (Disable name) \<longleftrightarrow> name \<noteq> []"
| "call_name_ok _ \<longleftrightarrow> True"

fun do_call :: "env \<Rightarrow> call \<Rightarrow> fiu \<Rightarrow> (int \<times> fiu) option" where
  "do_call env Init s = fiu_init env s"
| "do_call env (Fail name) s = fiu_fail env name s"
| "do_call env Failinfo s = map_option (\<lambda>i. (uint i, s)) (fiu_failinfo s)"
| "do_call env (Enable name n i f) s = fiu_enable env name n i f s"
| "do_call env (Enable_random name n i f p) s = fiu_enable_random env name n i f p s"
| "do_call env (Enable_external name n i f cb) s = fiu_enable_external env name n i f cb s"
| "do_call env (Enable_stack name n i f func pos) s = fiu_enable_stack env name n i f func pos s"
| "do_call env (Enable_stack_by_name name n i f fname pos) s = fiu_enable_stack_by_name env name n i f fname pos s"
| "do_call env (Disable name) s = fiu_disable env name s"
| "do_call env (Set_seed seed) s = Some (0, s\<lparr>gen := fiu_set_prng_seed seed (gen s)\<rparr>)"

fun do_calls :: "(env \<times> call) list \<Rightarrow> fiu \<Rightarrow> (int list \<times> fiu) option" where
  "do_calls [] s = Some ([], s)"
| "do_calls ((env, c) # cs) s = do {
     (r, s1) \<leftarrow> do_call env c s;
     (rs, s2) \<leftarrow> do_calls cs s1;
     Some (r # rs, s2) }"

lemma ready_update: "fiu_ready_at rc (s\<lparr>gen := g\<rparr>) = fiu_ready_at rc s" "fiu_ready_at rc (s\<lparr>bt_works := b\<rparr>) = fiu_ready_at rc s"
  by (simp_all add: fiu_ready_at_def fiu_at_def cong: ptr.case_cong)

lemma create_and_insert_ready:
  assumes "fiu_ready_at rc s" and "env_ok env" and "name \<noteq> []" and "pf_typed (new_pf name n i f me mi)"
  shows "\<exists>r s'. create_and_insert env name n i f me mi s = Some (r, s') \<and> fiu_ready_at rc s'"
  using create_and_insert_ok [of rc s name env n i f me mi] assms by (auto simp: env_ok_def fiu_ready_at_def)

lemma enable_stack_ready:
  assumes "fiu_ready_at rc s" and "env_ok env" and "name \<noteq> []"
  shows "\<exists>r s'. fiu_enable_stack env name n i f func pos s = Some (r, s') \<and> fiu_ready_at rc s'"
  using create_and_insert_ready [of rc "s\<lparr>bt_works := b\<rparr>" env name n i f PF_STACK mi for b mi] assms
  by (auto simp: fiu_enable_stack_def Let_def ready_update)

lemma enable_stack_by_name_ready:
  assumes "fiu_ready_at rc s" and "env_ok env" and "name \<noteq> []"
  shows "\<exists>r s'. fiu_enable_stack_by_name env name n i f func pos s = Some (r, s') \<and> fiu_ready_at rc s'"
  using enable_stack_ready [of rc "s\<lparr>bt_works := b\<rparr>" env name for b] assms
  by (auto simp: fiu_enable_stack_by_name_def Let_def ready_update)

lemma do_call_ready:
  assumes "fiu_ready s" and "env_ok env" and "call_name_ok c"
  shows "\<exists>r s'. do_call env c s = Some (r, s') \<and> fiu_ready s'"
proof (cases c)
  case Init
  with fiu_init_again [OF assms(1)] assms(1) show ?thesis by simp
next
  case (Fail name)
  with fiu_fail_ok [of s env name] assms(1,2) show ?thesis by (auto simp: fiu_ready_at_def env_ok_def)
next
  case Failinfo
  with assms(1) show ?thesis by (auto simp: fiu_failinfo_def fiu_ready_at_def fiu_at_def split: ptr.splits)
next
  case (Enable_stack name n i f func pos)
  with enable_stack_ready [OF assms(1,2)] assms(3) show ?thesis by simp
next
  case (Enable_stack_by_name name n i f fname pos)
  with enable_stack_by_name_ready [OF assms(1,2)] assms(3) show ?thesis by simp
next
  case (Disable name)
  with fiu_disable_ok [of 0 s name env] assms show ?thesis by (auto simp: fiu_ready_at_def env_ok_def)
next
  case (Set_seed seed)
  with assms(1) show ?thesis by (simp add: ready_update)
qed (use create_and_insert_ready [OF assms(1,2)] assms(3) in
    \<open>simp_all add: fiu_enable_def fiu_enable_random_def fiu_enable_external_def\<close>)

lemma do_calls_ready:
  assumes "fiu_ready s" and "\<forall>(env, c)\<in>set cs. env_ok env \<and> call_name_ok c"
  shows "\<exists>rs s'. do_calls cs s = Some (rs, s') \<and> fiu_ready s'"
  using assms
proof (induction cs arbitrary: s)
  case (Cons ec cs)
  obtain env c where ec: "ec = (env, c)" by (cases ec)
  with Cons.prems obtain r s1 where s1: "do_call env c s = Some (r, s1)" "fiu_ready s1"
    using do_call_ready [of s env c] by auto
  with Cons.IH [OF s1(2)] Cons.prems(2) ec show ?case by auto
qed simp

subsection \<open>Questions, one after the other\<close>

fun do_fails :: "(env \<times> string) list \<Rightarrow> fiu \<Rightarrow> (int list \<times> fiu) option" where
  "do_fails [] s = Some ([], s)"
| "do_fails ((env, name) # cs) s = do {
     (r, s1) \<leftarrow> fiu_fail env name s;
     (rs, s2) \<leftarrow> do_fails cs s1;
     Some (r # rs, s2) }"

text \<open>Of the enabled points of failure only \<open>k\<close> can answer for \<open>name\<close>.\<close>

definition only_point :: "(string \<rightharpoonup> pf_info) \<Rightarrow> string \<Rightarrow> string \<Rightarrow> bool" where
  "only_point pts k name \<longleftrightarrow> (name = k \<or> pat_matches k name) \<and> (is_pat name \<longrightarrow> pat_matches k name)
     \<and> (\<forall>q \<in> dom pts. q \<noteq> k \<longrightarrow> q \<noteq> name \<and> \<not> pat_matches q name)"

lemma only_point_answer:
  assumes "fiu_inv s" and "only_point (points s) k name" and "points s k = Some pf"
  shows "answer_pf s name = Some pf"
proof -
  have a: "answers (points s) name (answer_pf s name)" by (rule answer_pf_answers [OF assms(1)])
  show ?thesis
  proof (cases "\<not> is_pat name \<and> points s name \<noteq> None")
    case True
    then have "name = k" using assms(2) unfolding only_point_def by blast
    with a True assms(3) show ?thesis by (simp add: answers_def)
  next
    case False
    have pk: "pat_matches k name" using assms(2,3) False unfolding only_point_def by (metis option.distinct(1))
    with assms(3) have ex: "\<exists>p \<in> dom (points s). pat_matches p name" by blast
    with a False obtain p where "pat_matches p name" "points s p = answer_pf s name" "answer_pf s name \<noteq> None"
      unfolding answers_def by metis
    moreover from this assms(2) have "p = k" unfolding only_point_def by (metis domIff)
    ultimately show ?thesis using assms(3) by simp
  qed
qed

lemma only_point_dom: "dom pts' = dom pts \<Longrightarrow> only_point pts' k name = only_point pts k name"
  by (simp add: only_point_def)

lemma pf_step_onetime:
  assumes "pf_step env pf g = (b, pf', g')" and "onetime pf" and "callbacks_keep_onetime env"
  shows "onetime pf' \<and> (b \<longrightarrow> \<not> pf_failed_once pf \<and> pf_failed_once pf') \<and> (pf_failed_once pf \<longrightarrow> pf_failed_once pf')"
proof (cases "pf_failed_once pf")
  case True
  with assms(1,2) show ?thesis by (auto simp: pf_step_def)
next
  case False
  obtain pf1 g1 b1 where d: "pf_decision env pf g = (b1, pf1, g1)" by (metis prod.exhaust)
  have one: "onetime pf1" "onetime (pf1\<lparr>pf_failed_once := True\<rparr>)"
    using pf_decision_onetime [OF d assms(3)] assms(2) by (simp_all add: onetime_def)
  have "b = b1" "pf' = (if b1 then pf1\<lparr>pf_failed_once := True\<rparr> else pf1)"
    using assms(1,2) False d by (auto simp: pf_step_def)
  with one False show ?thesis by (cases b1) simp_all
qed

lemma do_fails_onetime:
  assumes "fiu_inv s" and "points s k = Some pf" and "onetime pf"
    and "\<forall>(env, name)\<in>set cs. env_ok env \<and> only_point (points s) k name"
  shows "\<exists>rs s'. do_fails cs s = Some (rs, s') \<and> length (filter (\<lambda>r. r \<noteq> 0) rs) \<le> (if pf_failed_once pf then 0 else 1)"
  using assms
proof (induction cs arbitrary: s pf)
  case (Cons ec cs)
  obtain env name where ec: "ec = (env, name)" by (cases ec)
  with Cons.prems(4) have env: "env_ok env" "only_point (points s) k name" by simp_all
  have ans: "answer_pf s name = Some pf" by (rule only_point_answer [OF Cons.prems(1) env(2) Cons.prems(2)])
  have nm: "pf_name pf = k" using Cons.prems(1,2) points_iff by blast
  obtain b pf' g' where st: "pf_step env pf (gen s) = (b, pf', g')" by (metis prod.exhaust)
  have "callbacks_keep_onetime env" "e_mem env = mem_ok" using env(1) by (simp_all add: env_ok_def)
  from fiu_fail_ok [OF Cons.prems(1) this, of name] obtain r s1 where
    s1: "fiu_fail env name s = Some (r, s1)" "fiu_inv s1" "r = (if b then pf_failnum pf' else 0)"
    "points s1 = (points s)(k \<mapsto> pf')"
    unfolding ans option.case st nm prod.case by blast
  have one: "onetime pf'" and once: "b \<Longrightarrow> \<not> pf_failed_once pf \<and> pf_failed_once pf'" "pf_failed_once pf \<Longrightarrow> pf_failed_once pf'"
    using pf_step_onetime [OF st Cons.prems(3)] env(1) by (simp_all add: env_ok_def)
  have dom: "dom (points s1) = dom (points s)" using s1(4) Cons.prems(2) by auto
  have rest: "\<forall>(env, name)\<in>set cs. env_ok env \<and> only_point (points s1) k name"
    using Cons.prems(4) only_point_dom [OF dom] by simp
  have "points s1 k = Some pf'" using s1(4) by simp
  from Cons.IH [OF s1(2) this one rest] obtain rs s' where
    "do_fails cs s1 = Some (rs, s')" "length (filter (\<lambda>r. r \<noteq> 0) rs) \<le> (if pf_failed_once pf' then 0 else 1)" by blast
  moreover have "do_fails (ec # cs) s = Some (r # rs, s')" using calculation(1) s1(1) ec by simp
  moreover have "length (filter (\<lambda>r. r \<noteq> 0) (r # rs)) \<le> (if pf_failed_once pf then 0 else 1)"
    using calculation(2) once s1(3) by (cases b; cases "pf_failed_once pf"; cases "pf_failed_once pf'") simp_all
  ultimately show ?case by blast
qed simp

lemma stack_loop_any:
  "func_pos_in_stack m = -1 \<Longrightarrow> stack_loop pl m i pcs \<longleftrightarrow> (\<exists>pc\<in>set pcs. pc_in_func pl m pc)"
  by (induction pcs arbitrary: i) auto

subsection \<open>The next question after enabling or disabling\<close>

lemma enabled_always_fails:
  assumes "fiu_ready s1" and "env_ok env" and "\<not> is_pat name"
    and "points s1 name = Some (new_pf name failnum failinfo flags PF_ALWAYS M_unset)"
  shows "\<exists>s2. fiu_fail env name s1 = Some (failnum, s2) \<and> fiu_failinfo s2 = Some failinfo \<and> last_failinfo s2 = failinfo
    \<and> fiu_ready s2 \<and> dom (points s2) = dom (points s1)"
proof -
  let ?pf = "new_pf name failnum failinfo flags PF_ALWAYS M_unset"
  have ans: "answer_pf s1 name = Some ?pf"
    using answer_pf_answers [of 0 s1 name] assms(1,3,4) by (simp add: fiu_ready_at_def answers_def)
  define pf' where "pf' = (if onetime ?pf then ?pf\<lparr>pf_failed_once := True\<rparr> else ?pf)"
  have st: "pf_step env ?pf (gen s1) = (True, pf', gen s1)" by (simp add: pf_step_def pf_decision_def pf'_def)
  have f: "pf_failnum pf' = failnum" "pf_failinfo pf' = failinfo" by (simp_all add: pf'_def)
  have e: "callbacks_keep_onetime env" "e_mem env = mem_ok" "fiu_inv s1" "enabled_fails s1 \<noteq> NULL" "initialized s1"
    using assms(1,2) by (simp_all add: env_ok_def fiu_ready_at_def)
  obtain s2 where s2: "fiu_fail env name s1 = Some (failnum, s2)" "fiu_inv s2" "enabled_fails s2 \<noteq> NULL" "last_failinfo s2 = failinfo"
      "initialized s2" "points s2 = (points s1)(name \<mapsto> pf')"
    using fiu_fail_ok [OF e(3,1,2), of name] e(4,5) f unfolding ans option.case st prod.case args_pf_fields by auto
  then have "fiu_failinfo s2 = Some failinfo" "fiu_ready s2" "dom (points s2) = dom (points s1)"
    using assms(4) by (auto simp: fiu_failinfo_def fiu_at_def fiu_ready_at_def split: ptr.splits)
  with s2(1,4) show ?thesis by blast
qed

lemma enable_then_fail:
  assumes "fiu_ready s" and "env_ok env" and "env_ok env'" and "name \<noteq> []" and "\<not> is_pat name"
  shows "\<exists>s1 s2. fiu_enable env name failnum failinfo flags s = Some (0, s1) \<and> fiu_fail env' name s1 = Some (failnum, s2)
    \<and> fiu_failinfo s2 = Some failinfo \<and> fiu_ready s1 \<and> last_failinfo s2 = failinfo
    \<and> points s1 = (points s)(name \<mapsto> new_pf name failnum failinfo flags PF_ALWAYS M_unset)
    \<and> fiu_ready s2 \<and> dom (points s2) = insert name (dom (points s))"
proof -
  let ?pf = "new_pf name failnum failinfo flags PF_ALWAYS M_unset"
  have typed: "args_typed (failnum, failinfo, flags, PF_ALWAYS, M_unset)" by simp
  obtain s1 where s1: "fiu_enable env name failnum failinfo flags s = Some (0, s1)" "fiu_ready s1" "points s1 = (points s)(name \<mapsto> ?pf)"
    using fiu_control.add_law [OF assms(2,1,4) typed] by (auto simp: fiu_enable_def)
  from s1(3) have "points s1 name = Some ?pf" by simp
  from enabled_always_fails [OF s1(2) assms(3,5) this] s1 show ?thesis by auto
qed

lemma nothing_answers:
  assumes "fiu_ready s" and "env_ok env" and "points s name = None" and "\<forall>q \<in> dom (points s). \<not> pat_matches q name"
  shows "\<exists>s'. fiu_fail env name s = Some (0, s') \<and> fiu_ready s' \<and> points s' = points s \<and> last_failinfo s' = last_failinfo s"
proof -
  have inv: "fiu_inv s" using assms(1) by (simp add: fiu_ready_at_def)
  have ans: "answer_pf s name = None" using answer_pf_answers [OF inv, of name] assms(3,4) by (auto simp: answers_def)
  have e: "callbacks_keep_onetime env" "e_mem env = mem_ok" using assms(2) by (simp_all add: env_ok_def)
  show ?thesis using fiu_fail_ok [OF inv e, of name] assms(1) unfolding ans option.case by (auto simp: fiu_ready_at_def)
qed

lemma disable_then_pass:
  assumes "fiu_ready s" and "env_ok env" and "env_ok env'" and "name \<noteq> []"
    and "\<forall>q \<in> dom (points s). q \<noteq> name \<longrightarrow> \<not> pat_matches q name"
  shows "\<exists>r s1 s2. fiu_disable env name s = Some (r, s1) \<and> fiu_fail env' name s1 = Some (0, s2)
    \<and> last_failinfo s2 = last_failinfo s \<and> fiu_ready s1 \<and> points s1 = (points s)(name := None)"
proof -
  from assms(1,2) have s: "fiu_inv s" "enabled_fails s \<noteq> NULL" "e_mem env = mem_ok" "initialized s"
    by (simp_all add: fiu_ready_at_def env_ok_def)
  from fiu_disable_ok [OF s(1,2) assms(4) s(3)] s(4) obtain r s1 where
    s1: "fiu_disable env name s = Some (r, s1)" "fiu_ready s1" "points s1 = (points s)(name := None)" "last_failinfo s1 = last_failinfo s"
    by (auto simp: fiu_ready_at_def)
  have "\<forall>q \<in> dom (points s1). \<not> pat_matches q name" "points s1 name = None" using assms(5) by (auto simp: s1(3) split: if_splits)
  from nothing_answers [OF s1(2) assms(3) this(2,1)] s1 show ?thesis by auto
qed

subsection \<open>Properties\<close>

text \<open>An environment for the concrete instances below: every allocation succeeds, there is no backtrace, callbacks return 1
  and change nothing.\<close>

definition quiet_env :: env where
  "quiet_env = \<lparr>e_mem = mem_ok, e_plat = dummy_platform, e_self_stack = 0x1000, e_self_stack_by_name = 0x2000,
     e_callback = (\<lambda>cb name failnum failinfo flags. (1, failnum, failinfo, flags)), e_usec = 1, e_seed = NULL,
     e_create = (\<lambda>_. True), e_junk = 0, e_atfork = 0\<rparr>"

lemma quiet_env_ok: "env_ok quiet_env" "env_good quiet_env" "e_mem quiet_env = mem_ok" "callbacks_keep_onetime quiet_env"
  by (simp_all add: quiet_env_def env_good_def env_ok_def callbacks_keep_onetime_def)

lemma quiet_start:
  obtains s where "fiu_init quiet_env fiu_start = Some (0, s)" and "fiu_ready s" and "fiu_inv s" and "points s = Map.empty"
  using fiu_init_start [OF quiet_env_ok(2)] that by (auto simp: fiu_ready_at_def)

text \<open>Property C5: Safety of the library: after \<open>fiu_init\<close>, every sequence of API calls (repeated initialization included),
  with any arguments except empty names and whatever the platform and the callbacks answer, as long as callbacks do
  not change the one-time flag and memory suffices, runs to the end with defined results: no point of failure is used or
  released after its release, no mutex is taken twice, released unheld or destroyed while held, the
  read-write lock is free between calls and the recursion count is back at 0.\<close>

theorem fiu_calls_defined:
  assumes "env_good env0" and "fiu_init env0 fiu_start = Some (0, s0)"
    and "\<forall>(env, c)\<in>set cs. env_ok env \<and> call_name_ok c"
  shows "\<exists>rs s. do_calls cs s0 = Some (rs, s) \<and> length rs = length cs
    \<and> enabled_fails_lock s = Unlocked \<and> rec_count s = 0 \<and> (\<forall>p pf. pfs s p = Some pf \<longrightarrow> \<not> pf_locked pf)"
proof -
  have "fiu_ready s0" using fiu_init_start [OF assms(1)] assms(2) by auto
  from do_calls_ready [OF this assms(3)] obtain rs s where s: "do_calls cs s0 = Some (rs, s)" "fiu_ready s" by blast
  have "length rs = length cs" using s(1)
    by (induction cs s0 arbitrary: rs rule: do_calls.induct) (auto simp: bind_eq_Some)
  moreover have "\<not> pf_locked pf" if "pfs s p = Some pf" for p pf
    using that s(2) by (auto simp: fiu_ready_at_def fiu_at_def table_pfs_def pf_ok_def split: ptr.splits)
  ultimately show ?thesis using s by (auto simp: fiu_ready_at_def fiu_at_def)
qed

theorem fiu_calls_defined_witness:
  "\<exists>s0 rs s. fiu_init quiet_env fiu_start = Some (0, s0) \<and>
     do_calls [(quiet_env, Enable ''a'' 7 0 FIU_ONETIME), (quiet_env, Fail ''a''), (quiet_env, Enable_external ''a'' 1 2 0 3),
       (quiet_env, Fail ''a''), (quiet_env, Disable ''a''), (quiet_env, Init)] s0 = Some (rs, s) \<and> length rs = 6"
proof -
  obtain s0 where s0: "fiu_init quiet_env fiu_start = Some (0, s0)" by (rule quiet_start)
  show ?thesis
    using fiu_calls_defined [OF quiet_env_ok(2) s0, of "[(quiet_env, Enable ''a'' 7 0 FIU_ONETIME), (quiet_env, Fail ''a''),
        (quiet_env, Enable_external ''a'' 1 2 0 3), (quiet_env, Fail ''a''), (quiet_env, Disable ''a''), (quiet_env, Init)]"]
      s0 quiet_env_ok(1) by auto
qed

text \<open>Property C6: \<open>fiu_fail\<close> implements its specification: the code with its lookup, locks, flags that are read twice and early exits does
  what \<open>pf_step\<close> says for the point of failure that answers for the name (that name's own, else one whose pattern
  matches): the result is its number if it fails and 0 otherwise, only that point of failure and the
  generator change, and the information of the last failure is replaced exactly if it fails.\<close>

theorem fiu_fail_refines:
  assumes "fiu_inv s" and "callbacks_keep_onetime env" and "e_mem env = mem_ok"
  shows "\<exists>a r s'. fiu_fail env name s = Some (r, s') \<and> fiu_inv s' \<and> answers (points s) name a
    \<and> (case a of
         None \<Rightarrow> r = 0 \<and> points s' = points s \<and> gen s' = gen s \<and> last_failinfo s' = last_failinfo s
       | Some pf \<Rightarrow> (case pf_step env pf (gen s) of (b, pf', g') \<Rightarrow>
           r = (if b then pf_failnum pf' else 0) \<and> points s' = (points s)(pf_name pf \<mapsto> pf') \<and> gen s' = g'
           \<and> last_failinfo s' = (if b then pf_failinfo pf' else last_failinfo s)))"
  using fiu_fail_ok [OF assms, of name] answer_pf_answers [OF assms(1), of name]
  by (cases "answer_pf s name") (fastforce split: prod.splits)+

theorem fiu_fail_refines_witness:
  "\<exists>s r s'. fiu_init quiet_env fiu_start = Some (0, s) \<and> fiu_fail quiet_env ''x'' s = Some (r, s') \<and> fiu_inv s'"
proof -
  obtain s where s: "fiu_init quiet_env fiu_start = Some (0, s)" "fiu_inv s" by (rule quiet_start)
  from fiu_fail_refines [OF s(2) quiet_env_ok(4,3), of "''x''"] s(1) show ?thesis by blast
qed

text \<open>Property C7: The control API implements a map: any sequence of enabling and disabling calls, of any methods, has the results and leaves
  the points of failure that the same sequence leaves in a map from names (enabling replaces, disabling removes
  and fails exactly if there was nothing to remove).\<close>

theorem fiu_control_refines:
  assumes "fiu_ready s" and "\<forall>(e, c)\<in>set cs. env_ok e \<and> ctl_ok args_typed c"
  shows "\<exists>s'. ctl_run (ctl_step fiu_add fiu_disable) cs s = Some (fst (ctl_maps args_pf (map snd cs) (points s)), s')
    \<and> fiu_ready s' \<and> points s' = snd (ctl_maps args_pf (map snd cs) (points s))"
  using assms by (rule fiu_control.run_refines)

theorem fiu_control_refines_witness:
  "\<exists>s s'. fiu_init quiet_env fiu_start = Some (0, s) \<and>
     ctl_run (ctl_step fiu_add fiu_disable) [(quiet_env, CtlEnable ''a*'' (1, 0, 0, PF_ALWAYS, M_unset)),
       (quiet_env, CtlDisable ''a*''), (quiet_env, CtlDisable ''a*'')] s = Some ([0, 0, -1], s') \<and> points s' = Map.empty"
proof -
  obtain s where s: "fiu_init quiet_env fiu_start = Some (0, s)" "fiu_ready s" "points s = Map.empty" by (rule quiet_start)
  from fiu_control_refines [OF s(2), of "[(quiet_env, CtlEnable ''a*'' (1, 0, 0, PF_ALWAYS, M_unset)),
       (quiet_env, CtlDisable ''a*''), (quiet_env, CtlDisable ''a*'')]"] s(1,3) quiet_env_ok(1)
  show ?thesis by (auto simp: fun_upd_def fun_eq_iff)
qed

text \<open>Property C8: A point of failure that was enabled with \<open>FIU_ONETIME\<close> fails at most once: of any sequence of \<open>fiu_fail\<close> calls for
  names that only it can answer (its own name, or all that its pattern matches), under any environments, at most one
  returns a number other than 0, whatever its method.\<close>

theorem fiu_onetime_once:
  assumes "fiu_ready s" and "args_typed (failnum, failinfo, flags, method, m)" and "flags AND FIU_ONETIME \<noteq> 0" and "k \<noteq> []"
    and "env_ok env" and "fiu_add env k (failnum, failinfo, flags, method, m) s = Some (r, s1)"
    and "\<forall>(e, name)\<in>set cs. env_ok e \<and> only_point (points s1) k name"
  shows "\<exists>rs s2. do_fails cs s1 = Some (rs, s2) \<and> length (filter (\<lambda>r. r \<noteq> 0) rs) \<le> 1"
proof -
  from fiu_control.add_law [OF assms(5,1,4,2)] assms(6)
  have s1: "fiu_inv s1" "points s1 k = Some (new_pf k failnum failinfo flags method m)" by (auto simp: fiu_ready_at_def)
  have "onetime (new_pf k failnum failinfo flags method m)" using assms(3) by (simp add: onetime_def)
  from do_fails_onetime [OF s1 this assms(7)] show ?thesis by simp
qed

theorem fiu_onetime_once_witness:
  "\<exists>s s1 rs s2. fiu_init quiet_env fiu_start = Some (0, s) \<and>
     fiu_add quiet_env ''posix/*'' (5, 0, FIU_ONETIME, PF_ALWAYS, M_unset) s = Some (0, s1) \<and>
     do_fails [(quiet_env, ''posix/io''), (quiet_env, ''posix/mm''), (quiet_env, ''posix/io'')] s1 = Some (rs, s2)
     \<and> length (filter (\<lambda>r. r \<noteq> 0) rs) \<le> 1"
proof -
  obtain s where s: "fiu_init quiet_env fiu_start = Some (0, s)" "fiu_ready s" "points s = Map.empty" by (rule quiet_start)
  let ?a = "(5, 0, FIU_ONETIME, PF_ALWAYS, M_unset) :: pf_args"
  have t: "args_typed ?a" "FIU_ONETIME AND FIU_ONETIME \<noteq> 0" by (simp_all add: FIU_ONETIME_def)
  obtain s1 where s1: "fiu_add quiet_env ''posix/*'' ?a s = Some (0, s1)" "points s1 = [''posix/*'' \<mapsto> args_pf ''posix/*'' ?a]"
    using fiu_control.add_law [OF quiet_env_ok(1) s(2) _ t(1), of "''posix/*''"] s(3) by auto
  have "\<forall>(e, name)\<in>set [(quiet_env, ''posix/io''), (quiet_env, ''posix/mm''), (quiet_env, ''posix/io'')].
      env_ok e \<and> only_point (points s1) ''posix/*'' name"
    using quiet_env_ok(1) by (simp add: s1(2) only_point_def pat_matches_def is_pat_def)
  from fiu_onetime_once [OF s(2) t(1,2) _ quiet_env_ok(1) s1(1) this] s(1) s1(1) show ?thesis by auto
qed

text \<open>Enabling works: after \<open>fiu_enable\<close> of a name, the next \<open>fiu_fail\<close> for that name returns the given number and
  \<open>fiu_failinfo\<close> the given information, whatever was enabled before and whatever patterns match.\<close>

theorem fiu_enable_fails:
  assumes "fiu_ready s" and "env_ok env" and "env_ok env'" and "name \<noteq> []" and "\<not> is_pat name"
  shows "\<exists>s1 s2. fiu_enable env name failnum failinfo flags s = Some (0, s1) \<and> fiu_fail env' name s1 = Some (failnum, s2)
    \<and> fiu_failinfo s2 = Some failinfo"
  using enable_then_fail [OF assms] by blast

theorem fiu_enable_fails_witness:
  "\<exists>s s1 s2. fiu_init quiet_env fiu_start = Some (0, s) \<and> fiu_enable quiet_env ''posix/io/rw/read'' (-1) 5 0 s = Some (0, s1)
     \<and> fiu_fail quiet_env ''posix/io/rw/read'' s1 = Some (-1, s2) \<and> fiu_failinfo s2 = Some 5"
proof -
  obtain s where s: "fiu_init quiet_env fiu_start = Some (0, s)" "fiu_ready s" by (rule quiet_start)
  from fiu_enable_fails [OF s(2) quiet_env_ok(1) quiet_env_ok(1), of "''posix/io/rw/read''" "-1" 5 0] s(1)
  show ?thesis by (auto simp: is_pat_def)
qed

text \<open>Disabling works: after \<open>fiu_disable\<close> of a name that no enabled pattern matches, \<open>fiu_fail\<close> for that name returns 0 and
  leaves the information of the last failure alone, even if the name was cached or answered by a pattern
  of the same spelling before.\<close>

theorem fiu_disable_stops:
  assumes "fiu_ready s" and "env_ok env" and "env_ok env'" and "name \<noteq> []"
    and "\<forall>q \<in> dom (points s). q \<noteq> name \<longrightarrow> \<not> pat_matches q name"
  shows "\<exists>r s1 s2. fiu_disable env name s = Some (r, s1) \<and> fiu_fail env' name s1 = Some (0, s2)
    \<and> last_failinfo s2 = last_failinfo s"
  using disable_then_pass [OF assms] by blast

theorem fiu_disable_stops_witness:
  "\<exists>s r s1 s2. fiu_init quiet_env fiu_start = Some (0, s) \<and> fiu_disable quiet_env ''x'' s = Some (r, s1)
     \<and> fiu_fail quiet_env ''x'' s1 = Some (0, s2) \<and> last_failinfo s2 = last_failinfo s"
proof -
  obtain s where s: "fiu_init quiet_env fiu_start = Some (0, s)" "fiu_ready s" "points s = Map.empty" by (rule quiet_start)
  from fiu_disable_stops [OF s(2) quiet_env_ok(1) quiet_env_ok(1), of "''x''"] s(1,3) show ?thesis by auto
qed

text \<open>Calls from inside the library are harmless: while the thread's recursion count is positive, \<open>fiu_fail\<close> returns 0
  at once and changes nothing, even if the thread itself holds the lock of the table for writing or a
  mutex of a point of failure.\<close>

theorem fiu_fail_recursive:
  assumes "0 < rec_count s"
  shows "fiu_fail env name s = Some (0, s)"
  using assms by (cases s) (simp add: fiu_fail_def rec_inc_def rec_dec_def)

theorem fiu_fail_recursive_witness:
  "fiu_fail quiet_env ''libc/mm/malloc'' (fiu_start\<lparr>rec_count := 1, enabled_fails_lock := Write_locked\<rparr>)
     = Some (0, fiu_start\<lparr>rec_count := 1, enabled_fails_lock := Write_locked\<rparr>)"
  by (rule fiu_fail_recursive) simp

text \<open>Before the library is initialized, \<open>fiu_fail\<close> returns 0 for every name and leaves the state as it is.\<close>

theorem fiu_fail_before_init:
  "fiu_fail env name fiu_start = Some (0, fiu_start)"
  by (simp add: fiu_fail_def rec_inc_def ef_rlock_def fail_exit_def ef_unlock_def rec_dec_def fiu_start_def)

text \<open>Property C30: Failures by stack: when the backtrace works, the function is found by name and its end is known,
  \<open>fiu_enable_stack_by_name\<close> succeeds, and a later \<open>fiu_fail\<close> for the name, whose stack is that of its own environment,
  returns the number exactly if one of the first 100 return addresses lies between the start and the end of the
  function, both included.\<close>

theorem fiu_stack_fails:
  assumes "fiu_ready s" and "env_ok env" and "env_ok env'" and "name \<noteq> []" and "\<not> is_pat name"
    and "bt_works s = 1" and "p_dlsym (e_plat env) func = fp" and "fp \<noteq> 0" and "get_func_end (e_plat env) fp \<noteq> 0"
    and "failnum \<noteq> 0"
  shows "\<exists>s1 r s2. fiu_enable_stack_by_name env name failnum failinfo 0 func (-1) s = Some (0, s1)
    \<and> fiu_fail env' name s1 = Some (r, s2)
    \<and> (r = failnum \<longleftrightarrow> (\<exists>pc \<in> set (take 100 (p_frames (e_plat env'))). fp \<le> pc \<and> pc \<le> get_func_end (e_plat env) fp))"
proof -
  let ?fend = "get_func_end (e_plat env) fp"
  let ?pf = "new_pf name failnum failinfo 0 PF_STACK (M_stack fp ?fend (-1))"
  have typed: "args_typed (failnum, failinfo, 0, PF_STACK, M_stack fp ?fend (-1))" by simp
  have same: "s\<lparr>bt_works := 1\<rparr> = s" using assms(6) by (cases s) simp
  obtain s1 where s1: "fiu_add env name (failnum, failinfo, 0, PF_STACK, M_stack fp ?fend (-1)) s = Some (0, s1)" "fiu_ready s1"
    "points s1 name = Some ?pf"
    using fiu_control.add_law [OF assms(2,1,4) typed] by auto
  then have en: "fiu_enable_stack_by_name env name failnum failinfo 0 func (-1) s = Some (0, s1)"
    using assms(6-9)
    by (simp add: fiu_enable_stack_by_name_def fiu_enable_stack_def backtrace_works_def get_func_addr_def Let_def same)
  have ans: "answer_pf s1 name = Some ?pf"
    using answer_pf_answers [of 0 s1 name] s1(2,3) assms(5) by (simp add: fiu_ready_at_def answers_def)
  define b where "b = should_stack_fail (e_plat env') (M_stack fp ?fend (-1))"
  have "\<not> onetime ?pf" by (simp add: onetime_def)
  then have st: "pf_step env' ?pf (gen s1) = (b, ?pf, gen s1)" by (simp add: pf_step_def pf_decision_def b_def)
  have e: "callbacks_keep_onetime env'" "e_mem env' = mem_ok" "fiu_inv s1" using assms(3) s1(2) by (simp_all add: env_ok_def fiu_ready_at_def)
  obtain s2 where s2: "fiu_fail env' name s1 = Some (if b then failnum else 0, s2)"
    using fiu_fail_ok [OF e(3,1,2), of name] unfolding ans option.case st prod.case args_pf_fields by blast
  have "b \<longleftrightarrow> (\<exists>pc \<in> set (take 100 (p_frames (e_plat env'))). fp \<le> pc \<and> pc \<le> ?fend)"
    using assms(9) by (simp add: b_def should_stack_fail_def stack_loop_any pc_in_func_def get_backtrace_def)
  with en s2 assms(10) show ?thesis by auto
qed

text \<open>An environment with a backtrace: the function \<open>f\<close> occupies the addresses from 256 to 272.\<close>

definition stack_env :: "addr list \<Rightarrow> env" where
  "stack_env frames = quiet_env\<lparr>e_plat := \<lparr>p_frames = frames, p_dladdr = (\<lambda>_. None), p_dladdr1 = (\<lambda>_. Some (1, Some 16)),
     p_dlsym = (\<lambda>_. 256)\<rparr>\<rparr>"

lemma stack_env_ok: "env_ok (stack_env frames)"
  by (simp add: stack_env_def quiet_env_def env_ok_def callbacks_keep_onetime_def)

theorem fiu_stack_fails_witness:
  "\<exists>s s1 s2. fiu_init quiet_env fiu_start = Some (0, s)
     \<and> fiu_enable_stack_by_name (stack_env []) ''x'' 3 0 0 ''f'' (-1) (s\<lparr>bt_works := 1\<rparr>) = Some (0, s1)
     \<and> fiu_fail (stack_env [8, 260]) ''x'' s1 = Some (3, s2)"
proof -
  obtain s where s: "fiu_init quiet_env fiu_start = Some (0, s)" "fiu_ready s" by (rule quiet_start)
  have r: "fiu_ready (s\<lparr>bt_works := 1\<rparr>)" using s(2) by (simp add: ready_update)
  have p: "p_dlsym (e_plat (stack_env [])) ''f'' = 256" "get_func_end (e_plat (stack_env [])) 256 = 272"
    "p_frames (e_plat (stack_env [8, 260])) = [8, 260]"
    by (simp_all add: stack_env_def quiet_env_def get_func_end_def)
  have "\<exists>pc \<in> set (take 100 (p_frames (e_plat (stack_env [8, 260])))). 256 \<le> pc \<and> pc \<le> (272 :: addr)"
    unfolding p(3) by simp
  then show ?thesis
    using fiu_stack_fails [OF r stack_env_ok [of "[]"] stack_env_ok [of "[8, 260]"] _ _ _ p(1), where name = "''x''" and failnum = 3 and failinfo = 0] s(1)
    unfolding p(2) by (auto simp: is_pat_def)
qed

text \<open>A failed allocation in \<open>pf_create\<close> is reported and harmless: when the \<open>malloc\<close> of the point of failure or the copy of
  its name fails, each \<open>fiu_enable\<close> function that reaches it returns -1 and leaves the library as it was.\<close>

theorem fiu_enable_no_memory:
  assumes "\<not> e_mem env A_pf \<or> \<not> e_mem env A_pf_name"
  shows "fiu_enable env name failnum failinfo flags s = Some (-1, s)
    \<and> fiu_enable_random env name failnum failinfo flags p s = Some (-1, s)
    \<and> fiu_enable_external env name failnum failinfo flags cb s = Some (-1, s)
    \<and> (\<exists>b. fiu_enable_stack env name failnum failinfo flags func pos s = Some (-1, s\<lparr>bt_works := b\<rparr>))"
proof -
  have "create_and_insert env name failnum failinfo flags me mi s' = Some (-1, s')" for me mi s'
    using assms by (cases s') (auto simp: create_and_insert_def pf_create_def rec_inc_def rec_dec_def Let_def strdup_def)
  moreover have "s\<lparr>bt_works := bt_works s\<rparr> = s" by simp
  ultimately show ?thesis
    by (auto simp: fiu_enable_def fiu_enable_random_def fiu_enable_external_def fiu_enable_stack_def Let_def
        intro: exI [of _ "bt_works s"])
qed

theorem fiu_enable_no_memory_witness:
  "fiu_enable (quiet_env\<lparr>e_mem := (\<lambda>site. site \<noteq> A_pf_name)\<rparr>) ''a'' 1 0 0 fiu_start = Some (-1, fiu_start)"
  using fiu_enable_no_memory [of "quiet_env\<lparr>e_mem := (\<lambda>site. site \<noteq> A_pf_name)\<rparr>" "''a''" 1 0 0 fiu_start] by simp

text \<open>Property C40: A callback must not set the one-time flag: if the point of failure that answers was enabled without \<open>FIU_ONETIME\<close>
  and its callback sets the flag and returns 0, \<open>fiu_fail\<close> unlocks a mutex that it has not locked, which has no
  defined result (the flag is read again after the callback has run).\<close>

theorem fiu_callback_sets_onetime:
  assumes "fiu_inv s" and "enabled_fails s = Ptr t" and "e_mem env = mem_ok"
    and "wtable_answer t name = Ptr p" and "pfs s p = Some pf"
    and "pf_method pf = PF_EXTERNAL" and "pf_minfo pf = M_external_cb cb" and "\<not> onetime pf"
    and "e_callback env cb (pf_name pf) (pf_failnum pf) (pf_failinfo pf) (pf_flags pf) = (0, n, i, f)"
    and "f AND FIU_ONETIME \<noteq> 0"
  shows "fiu_fail env name s = None"
proof -
  have parts: "enabled_fails_lock s = Unlocked" "rec_count s = 0" "table_pfs t (pfs s)"
    using assms(1,2) by (simp_all add: fiu_at_def)
  then have "wtable_inv t" "pf_ok pf" using assms(5) by (simp_all add: table_pfs_def wtable_owns_def)
  from wtable_get_ok [OF this(1), of name] obtain c where
    c: "wtable_get mem_ok t name = Some (Ptr p, t\<lparr>wcache := c\<rparr>)" using assms(4) by auto
  define s3 where "s3 = s\<lparr>rec_count := 1, enabled_fails_lock := Read_locked, enabled_fails := Ptr (t\<lparr>wcache := c\<rparr>)\<rparr>"
  have "pfs s3 p = Some pf" "\<not> pf_locked pf" using assms(5) \<open>pf_ok pf\<close> by (simp_all add: s3_def pf_ok_def)
  then have "fail_point env p s3 = None"
    using assms(6-10) by (simp add: fail_point_def pf_decide_def set_pf_def pf_unlock_def onetime_def)
  then show ?thesis
    using parts(1,2) assms(2,3) c by (simp add: fiu_fail_def rec_inc_def ef_rlock_def Let_def s3_def)
qed

theorem fiu_callback_sets_onetime_witness:
  "\<exists>s s1. fiu_init quiet_env fiu_start = Some (0, s) \<and> fiu_enable_external quiet_env ''a'' 1 0 0 9 s = Some (0, s1)
     \<and> fiu_fail (quiet_env\<lparr>e_callback := (\<lambda>cb name failnum failinfo flags. (0, failnum, failinfo, FIU_ONETIME))\<rparr>) ''a'' s1 = None"
proof -
  obtain s where s: "fiu_init quiet_env fiu_start = Some (0, s)" "fiu_ready s" by (rule quiet_start)
  let ?a = "(1, 0, 0, PF_EXTERNAL, M_external_cb 9) :: pf_args"
  let ?env = "quiet_env\<lparr>e_callback := (\<lambda>cb name failnum failinfo flags. (0, failnum, failinfo, FIU_ONETIME))\<rparr>"
  obtain s1 where s1: "fiu_add quiet_env ''a'' ?a s = Some (0, s1)" "fiu_ready s1" "points s1 ''a'' = Some (args_pf ''a'' ?a)"
    using fiu_control.add_law [OF quiet_env_ok(1) s(2), of "''a''" ?a] by auto
  then have inv: "fiu_inv s1" by (simp add: fiu_ready_at_def)
  have "answer_pf s1 ''a'' = Some (args_pf ''a'' ?a)"
    using answer_pf_answers [OF inv, of "''a''"] s1(3) by (simp add: answers_def is_pat_def)
  then obtain t p where w: "enabled_fails s1 = Ptr t" "wtable_answer t ''a'' = Ptr p" "pfs s1 p = Some (args_pf ''a'' ?a)"
    by (auto simp: answer_pf_def split: ptr.splits)
  have one: "FIU_ONETIME \<noteq> 0" by (simp add: FIU_ONETIME_def)
  have "fiu_fail ?env ''a'' s1 = None"
    by (rule fiu_callback_sets_onetime [OF inv w(1) _ w(2,3), where f = FIU_ONETIME]) (simp_all add: quiet_env_def onetime_def one)
  with s(1) s1(1) show ?thesis by (auto simp: fiu_enable_external_def)
qed

end
