(* ===== verification/Fiu_Threads.thy ===== *)
theory Fiu_Threads
  imports Fiu_API
begin

text \<open>
  Threads: the steps that any number of threads take through \<open>fiu_fail\<close>, through the critical section of \<open>insert_pf\<close> and through that of
  \<open>fiu_disable\<close>, in any interleaving. A step is what happens between two operations on the read-write lock of the table or on the mutex
  of a point of failure, so every order in which threads can meet at these locks is an execution.
  The lookup, which the lock of the cache makes one step, is taken from its specification.
\<close>

subsection \<open>States\<close>

datatype write_op = W_set string pf_info | W_del string

text \<open>Where a thread is: before it has the lock for reading; with it, before the lookup; with the point of failure that was found, before the test of
  its flags; with its mutex, before the test of \<open>failed_once\<close>; before the \<open>switch\<close>; at the label \<open>exit_fail\<close>; before the lock is
  released and the value returned. Then the same for the writers.\<close>

datatype pc =
    Idle
  | Enter string | Lookup string | Found nat | Mutex nat | Decide nat | Fails nat | Leave int
  | Want write_op | Write write_op | Written

text \<open>\<open>sh_fails\<close> counts the failures that a point of failure has caused, \<open>sh_once\<close> are the points of failure that were created with
  \<open>FIU_ONETIME\<close>; no step reads either.\<close>

record shared =
  sh_pc :: "nat \<Rightarrow> pc"
  sh_rec :: "nat \<Rightarrow> int"
  sh_info :: "nat \<Rightarrow> addr"
  sh_readers :: "nat set"
  sh_writer :: "nat option"
  sh_tab :: "string \<rightharpoonup> nat"
  sh_pfs :: "nat \<rightharpoonup> pf_info"
  sh_next :: nat
  sh_fails :: "nat \<Rightarrow> nat"
  sh_once :: "nat set"

definition threads_start :: shared where
  "threads_start = \<lparr>sh_pc = (\<lambda>_. Idle), sh_rec = (\<lambda>_. 0), sh_info = (\<lambda>_. 0), sh_readers = {}, sh_writer = None, sh_tab = Map.empty,
     sh_pfs = Map.empty, sh_next = 0, sh_fails = (\<lambda>_. 0), sh_once = {}\<rparr>"

definition go :: "nat \<Rightarrow> pc \<Rightarrow> shared \<Rightarrow> shared" where
  "go i c s = s\<lparr>sh_pc := (sh_pc s)(i := c)\<rparr>"

definition put_pf :: "nat \<Rightarrow> pf_info \<Rightarrow> shared \<Rightarrow> shared" where
  "put_pf p pf s = s\<lparr>sh_pfs := (sh_pfs s)(p \<mapsto> pf)\<rparr>"

subsection \<open>Steps\<close>

text \<open>What \<open>wtable_get\<close> may answer.\<close>

inductive finds :: "(string \<rightharpoonup> nat) \<Rightarrow> string \<Rightarrow> nat option \<Rightarrow> bool" where
  own: "\<not> is_pat name \<Longrightarrow> tab name = Some p \<Longrightarrow> finds tab name (Some p)"
| pattern: "is_pat name \<or> tab name = None \<Longrightarrow> tab q = Some p \<Longrightarrow> pat_matches q name \<Longrightarrow> finds tab name (Some p)"
| nothing: "is_pat name \<or> tab name = None \<Longrightarrow> \<forall>q \<in> dom tab. \<not> pat_matches q name \<Longrightarrow> finds tab name None"

text \<open>The \<open>switch\<close>: other threads use the generator at the same time, so a probability may decide either way; a callback may do what it
  wants with its three arguments, except for the one-time flag.\<close>

inductive decides :: "pf_info \<Rightarrow> bool \<Rightarrow> pf_info \<Rightarrow> bool" where
  always: "pf_method pf = PF_ALWAYS \<Longrightarrow> decides pf True pf"
| prob: "pf_method pf = PF_PROB \<Longrightarrow> decides pf b pf"
| external: "pf_method pf = PF_EXTERNAL \<Longrightarrow> f AND FIU_ONETIME = pf_flags pf AND FIU_ONETIME \<Longrightarrow>
    decides pf b (pf\<lparr>pf_failnum := n, pf_failinfo := info, pf_flags := f\<rparr>)"
| stack: "pf_method pf = PF_STACK \<Longrightarrow> decides pf (should_stack_fail pl (pf_minfo pf)) pf"

definition release :: "pf_info \<Rightarrow> pf_info" where
  "release pf = (if onetime pf then pf\<lparr>pf_locked := False\<rparr> else pf)"

definition store_pf :: "string \<Rightarrow> pf_info \<Rightarrow> shared \<Rightarrow> shared" where
  "store_pf name pf s = s\<lparr>sh_tab := (sh_tab s)(name \<mapsto> sh_next s),
     sh_pfs := (case sh_tab s name of None \<Rightarrow> sh_pfs s | Some old \<Rightarrow> (sh_pfs s)(old := None))(sh_next s \<mapsto> pf),
     sh_next := sh_next s + 1, sh_once := (if onetime pf then insert (sh_next s) (sh_once s) else sh_once s)\<rparr>"

definition drop_pf :: "string \<Rightarrow> shared \<Rightarrow> shared" where
  "drop_pf name s = (case sh_tab s name of None \<Rightarrow> s
     | Some old \<Rightarrow> s\<lparr>sh_tab := (sh_tab s)(name := None), sh_pfs := (sh_pfs s)(old := None)\<rparr>)"

fun write_pf :: "write_op \<Rightarrow> shared \<Rightarrow> shared" where
  "write_pf (W_set name pf) s = store_pf name pf s"
| "write_pf (W_del name) s = drop_pf name s"

fun fresh_op :: "write_op \<Rightarrow> bool" where
  "fresh_op (W_set name pf) \<longleftrightarrow> \<not> pf_locked pf \<and> \<not> pf_failed_once pf"
| "fresh_op (W_del name) \<longleftrightarrow> True"

inductive tstep :: "nat \<Rightarrow> shared \<Rightarrow> shared \<Rightarrow> bool" for i where
  call: "sh_pc s i = Idle \<Longrightarrow> sh_rec s i = 0 \<Longrightarrow> tstep i s (go i (Enter name) (s\<lparr>sh_rec := (sh_rec s)(i := 1)\<rparr>))"
| rlock: "sh_pc s i = Enter name \<Longrightarrow> sh_writer s = None \<Longrightarrow>
    tstep i s (go i (Lookup name) (s\<lparr>sh_readers := insert i (sh_readers s)\<rparr>))"
| found: "sh_pc s i = Lookup name \<Longrightarrow> finds (sh_tab s) name (Some p) \<Longrightarrow> tstep i s (go i (Found p) s)"
| not_found: "sh_pc s i = Lookup name \<Longrightarrow> finds (sh_tab s) name None \<Longrightarrow> tstep i s (go i (Leave 0) s)"
| plain: "sh_pc s i = Found p \<Longrightarrow> sh_pfs s p = Some pf \<Longrightarrow> \<not> onetime pf \<Longrightarrow> tstep i s (go i (Decide p) s)"
| mutex: "sh_pc s i = Found p \<Longrightarrow> sh_pfs s p = Some pf \<Longrightarrow> onetime pf \<Longrightarrow> \<not> pf_locked pf \<Longrightarrow>
    tstep i s (go i (Mutex p) (put_pf p (pf\<lparr>pf_locked := True\<rparr>) s))"
| spent: "sh_pc s i = Mutex p \<Longrightarrow> sh_pfs s p = Some pf \<Longrightarrow> pf_failed_once pf \<Longrightarrow>
    tstep i s (go i (Leave 0) (put_pf p (pf\<lparr>pf_locked := False\<rparr>) s))"
| fresh: "sh_pc s i = Mutex p \<Longrightarrow> sh_pfs s p = Some pf \<Longrightarrow> \<not> pf_failed_once pf \<Longrightarrow> tstep i s (go i (Decide p) s)"
| decide_no: "sh_pc s i = Decide p \<Longrightarrow> sh_pfs s p = Some pf \<Longrightarrow> decides pf False pf' \<Longrightarrow>
    tstep i s (go i (Leave 0) (put_pf p (release pf') s))"
| decide_yes: "sh_pc s i = Decide p \<Longrightarrow> sh_pfs s p = Some pf \<Longrightarrow> decides pf True pf' \<Longrightarrow> tstep i s (go i (Fails p) (put_pf p pf' s))"
| fail: "sh_pc s i = Fails p \<Longrightarrow> sh_pfs s p = Some pf \<Longrightarrow>
    tstep i s (go i (Leave (pf_failnum pf)) (put_pf p (if onetime pf then pf\<lparr>pf_failed_once := True, pf_locked := False\<rparr> else pf)
      (s\<lparr>sh_info := (sh_info s)(i := pf_failinfo pf), sh_fails := (sh_fails s)(p := sh_fails s p + 1)\<rparr>)))"
| leave: "sh_pc s i = Leave r \<Longrightarrow> tstep i s (go i Idle (s\<lparr>sh_readers := sh_readers s - {i}, sh_rec := (sh_rec s)(i := 0)\<rparr>))"
| want: "sh_pc s i = Idle \<Longrightarrow> sh_rec s i = 0 \<Longrightarrow> fresh_op w \<Longrightarrow> tstep i s (go i (Want w) (s\<lparr>sh_rec := (sh_rec s)(i := 1)\<rparr>))"
| wlock: "sh_pc s i = Want w \<Longrightarrow> sh_writer s = None \<Longrightarrow> sh_readers s = {} \<Longrightarrow> tstep i s (go i (Write w) (s\<lparr>sh_writer := Some i\<rparr>))"
| update: "sh_pc s i = Write w \<Longrightarrow> tstep i s (go i Written (write_pf w s))"
| wunlock: "sh_pc s i = Written \<Longrightarrow> tstep i s (go i Idle (s\<lparr>sh_writer := None, sh_rec := (sh_rec s)(i := 0)\<rparr>))"

inductive reachable :: "shared \<Rightarrow> bool" where
  start: "reachable threads_start"
| step: "reachable s \<Longrightarrow> tstep i s s' \<Longrightarrow> reachable s'"

inductive_cases finds_Some: "finds tab name (Some p)"
inductive_simps decides_iff: "decides pf b pf'"

lemma decides_onetime: "decides pf b pf' \<Longrightarrow> onetime pf' = onetime pf \<and> pf_locked pf' = pf_locked pf \<and> pf_failed_once pf' = pf_failed_once pf"
  by (auto simp: decides_iff onetime_def)

lemma finds_in_table: "finds tab name (Some p) \<Longrightarrow> p \<in> ran tab"
  by (auto elim!: finds_Some intro: ranI)

lemma finds_total: "\<exists>a. finds tab name a"
proof (cases "\<not> is_pat name \<and> tab name \<noteq> None")
  case True
  then show ?thesis by (auto intro: finds.own)
next
  case False
  then show ?thesis by (cases "\<exists>q \<in> dom tab. pat_matches q name") (auto intro: finds.pattern finds.nothing)
qed

lemma decides_total: "\<exists>b pf'. decides pf b pf'"
  by (cases "pf_method pf") (auto intro: decides.intros)

subsection \<open>Invariants\<close>

fun reading :: "pc \<Rightarrow> bool" where
  "reading (Lookup _) = True"
| "reading (Found _) = True"
| "reading (Mutex _) = True"
| "reading (Decide _) = True"
| "reading (Fails _) = True"
| "reading (Leave _) = True"
| "reading _ = False"

fun writing :: "pc \<Rightarrow> bool" where
  "writing (Write _) = True"
| "writing Written = True"
| "writing _ = False"

fun uses :: "pc \<Rightarrow> nat option" where
  "uses (Found p) = Some p"
| "uses (Mutex p) = Some p"
| "uses (Decide p) = Some p"
| "uses (Fails p) = Some p"
| "uses _ = None"

definition rw_inv :: "shared \<Rightarrow> bool" where
  "rw_inv s \<longleftrightarrow> (\<forall>i. i \<in> sh_readers s \<longleftrightarrow> reading (sh_pc s i)) \<and> (\<forall>i. sh_writer s = Some i \<longleftrightarrow> writing (sh_pc s i))
     \<and> (sh_writer s \<noteq> None \<longrightarrow> sh_readers s = {})"

lemma go_fields [simp]:
  "sh_pc (go i c s) = (sh_pc s)(i := c)" "sh_rec (go i c s) = sh_rec s" "sh_readers (go i c s) = sh_readers s"
  "sh_writer (go i c s) = sh_writer s" "sh_tab (go i c s) = sh_tab s" "sh_pfs (go i c s) = sh_pfs s" "sh_next (go i c s) = sh_next s"
  "sh_fails (go i c s) = sh_fails s" "sh_once (go i c s) = sh_once s" "sh_info (go i c s) = sh_info s"
  by (simp_all add: go_def)

lemma put_pf_fields [simp]:
  "sh_pc (put_pf p pf s) = sh_pc s" "sh_rec (put_pf p pf s) = sh_rec s" "sh_readers (put_pf p pf s) = sh_readers s"
  "sh_writer (put_pf p pf s) = sh_writer s" "sh_tab (put_pf p pf s) = sh_tab s" "sh_pfs (put_pf p pf s) = (sh_pfs s)(p \<mapsto> pf)"
  "sh_next (put_pf p pf s) = sh_next s" "sh_fails (put_pf p pf s) = sh_fails s" "sh_once (put_pf p pf s) = sh_once s"
  by (simp_all add: put_pf_def)

lemma write_pf_fields [simp]:
  "sh_pc (write_pf w s) = sh_pc s" "sh_rec (write_pf w s) = sh_rec s" "sh_readers (write_pf w s) = sh_readers s"
  "sh_writer (write_pf w s) = sh_writer s" "sh_fails (write_pf w s) = sh_fails s"
  by (cases w; simp add: store_pf_def drop_pf_def split: option.split)+

lemma rw_inv_step: "tstep i s s' \<Longrightarrow> rw_inv s \<Longrightarrow> rw_inv s'"
proof (induction rule: tstep.induct)
  case (wlock s w)
  then show ?case by (auto simp: rw_inv_def)
next
  case (update s w)
  then show ?case by (simp add: rw_inv_def)
next
  case (wunlock s)
  then show ?case by (simp add: rw_inv_def) (metis writing.simps option.inject reading.simps)
qed (auto simp: rw_inv_def split: if_splits)

fun pending :: "pc \<Rightarrow> write_op option" where
  "pending (Want w) = Some w"
| "pending (Write w) = Some w"
| "pending _ = None"

text \<open>The table and the points of failure it owns.\<close>

definition tab_core :: "(string \<rightharpoonup> nat) \<Rightarrow> (nat \<rightharpoonup> pf_info) \<Rightarrow> nat \<Rightarrow> (nat \<Rightarrow> nat) \<Rightarrow> nat set \<Rightarrow> bool" where
  "tab_core tab ps n fails once \<longleftrightarrow> (\<forall>q q' p. tab q = Some p \<and> tab q' = Some p \<longrightarrow> q = q') \<and> (\<forall>q p. tab q = Some p \<longrightarrow> ps p \<noteq> None)
     \<and> (\<forall>p \<ge> n. ps p = None \<and> fails p = 0 \<and> p \<notin> once)"

definition tab_inv :: "shared \<Rightarrow> bool" where
  "tab_inv s \<longleftrightarrow> tab_core (sh_tab s) (sh_pfs s) (sh_next s) (sh_fails s) (sh_once s)
     \<and> (\<forall>i p. uses (sh_pc s i) = Some p \<longrightarrow> p \<in> ran (sh_tab s)) \<and> (\<forall>i w. pending (sh_pc s i) = Some w \<longrightarrow> fresh_op w)"

lemma tab_core_below: "tab_core tab ps n fails once \<Longrightarrow> tab q = Some p \<Longrightarrow> p < n"
  unfolding tab_core_def by (metis not_le)

lemma tab_core_drop:
  assumes "tab_core tab ps n fails once" and "tab name = Some old"
  shows "tab_core (tab(name := None)) (ps(old := None)) n fails once"
proof -
  have inj: "q = q'" if "tab q = Some p" "tab q' = Some p" for q q' p using that assms(1) unfolding tab_core_def by blast
  have "p \<noteq> old" if "tab q = Some p" "q \<noteq> name" for q p using that inj assms(2) by blast
  then show ?thesis using assms(1) inj by (simp add: tab_core_def) blast
qed

lemma tab_core_add:
  assumes "tab_core tab ps n fails once" and "tab name = None"
  shows "tab_core (tab(name \<mapsto> n)) (ps(n \<mapsto> pf)) (n + 1) fails (if b then insert n once else once)"
proof -
  note below = tab_core_below [OF assms(1)]
  have "q = q'" if "(tab(name \<mapsto> n)) q = Some p" "(tab(name \<mapsto> n)) q' = Some p" for q q' p
    using that assms(1) below by (fastforce simp: tab_core_def split: if_splits)
  moreover have "(ps(n \<mapsto> pf)) p \<noteq> None" if "(tab(name \<mapsto> n)) q = Some p" for q p
    using that assms(1) by (auto simp: tab_core_def split: if_splits)
  moreover have "(ps(n \<mapsto> pf)) p = None \<and> fails p = 0 \<and> p \<notin> (if b then insert n once else once)" if "n + 1 \<le> p" for p
    using that assms(1) by (simp add: tab_core_def)
  ultimately show ?thesis unfolding tab_core_def by blast
qed

lemma tab_core_pfs: "tab_core tab ps n fails once \<Longrightarrow> p < n \<Longrightarrow> tab_core tab (ps(p \<mapsto> pf)) n fails once"
  by (auto simp: tab_core_def)

lemma tab_core_write:
  assumes "tab_core (sh_tab s) (sh_pfs s) (sh_next s) (sh_fails s) (sh_once s)"
  shows "tab_core (sh_tab (write_pf w s)) (sh_pfs (write_pf w s)) (sh_next (write_pf w s)) (sh_fails (write_pf w s)) (sh_once (write_pf w s))"
proof (cases w)
  case (W_set name pf)
  show ?thesis
  proof (cases "sh_tab s name")
    case None
    with W_set tab_core_add [OF assms None] show ?thesis by (simp add: store_pf_def)
  next
    case (Some old)
    have "tab_core ((sh_tab s)(name := None)) ((sh_pfs s)(old := None)) (sh_next s) (sh_fails s) (sh_once s)"
      by (rule tab_core_drop [OF assms Some])
    from tab_core_add [OF this, of name] W_set Some show ?thesis by (simp add: store_pf_def)
  qed
next
  case (W_del name)
  with tab_core_drop [OF assms, of name] assms show ?thesis by (simp add: drop_pf_def split: option.split)
qed

text \<open>While a writer writes, nobody uses a point of failure.\<close>

lemma writer_alone:
  assumes "rw_inv s" and "writing (sh_pc s i)"
  shows "\<not> reading (sh_pc s j)" "uses (sh_pc s j) = None"
proof -
  have "sh_readers s = {}" using assms unfolding rw_inv_def by (metis option.distinct(1))
  then show r: "\<not> reading (sh_pc s j)" using assms(1) by (auto simp: rw_inv_def)
  then show "uses (sh_pc s j) = None" by (cases "sh_pc s j") auto
qed

lemma uses_alloc:
  assumes "tab_inv s" and "uses (sh_pc s i) = Some p"
  shows "\<exists>pf name. sh_pfs s p = Some pf \<and> sh_tab s name = Some p"
proof -
  from assms obtain name where "sh_tab s name = Some p" by (fastforce simp: tab_inv_def ran_def)
  moreover from this assms(1) have "sh_pfs s p \<noteq> None" unfolding tab_inv_def tab_core_def by blast
  ultimately show ?thesis by blast
qed

lemma tab_inv_step: "tstep i s s' \<Longrightarrow> rw_inv s \<Longrightarrow> tab_inv s \<Longrightarrow> tab_inv s'"
proof (induction rule: tstep.induct)
  case (update s w)
  then have none: "uses (sh_pc s j) = None" for j using writer_alone(2) [of s i] by simp
  from update show ?case using tab_core_write none by (auto simp: tab_inv_def split: if_splits)
next
  case (found s name p)
  then show ?case using finds_in_table by (auto simp: tab_inv_def split: if_splits)
qed (auto simp: tab_inv_def tab_core_def split: if_splits, (metis uses.simps pending.simps(1))+)

text \<open>The mutex of a one-time point of failure and the count of its failures.\<close>

definition holds_mutex :: "nat set \<Rightarrow> pc \<Rightarrow> nat \<Rightarrow> bool" where
  "holds_mutex once c p \<longleftrightarrow> c = Mutex p \<or> p \<in> once \<and> (c = Decide p \<or> c = Fails p)"

definition pf_inv :: "shared \<Rightarrow> bool" where
  "pf_inv s \<longleftrightarrow> (\<forall>p pf. sh_pfs s p = Some pf \<longrightarrow> (onetime pf \<longleftrightarrow> p \<in> sh_once s)
       \<and> (pf_locked pf \<longleftrightarrow> (\<exists>i. holds_mutex (sh_once s) (sh_pc s i) p))
       \<and> (p \<in> sh_once s \<longrightarrow> sh_fails s p = (if pf_failed_once pf then 1 else 0)
            \<and> (\<forall>i. sh_pc s i = Decide p \<or> sh_pc s i = Fails p \<longrightarrow> \<not> pf_failed_once pf)))
     \<and> (\<forall>i j p. holds_mutex (sh_once s) (sh_pc s i) p \<and> holds_mutex (sh_once s) (sh_pc s j) p \<longrightarrow> i = j)
     \<and> (\<forall>i p. sh_pc s i = Mutex p \<longrightarrow> p \<in> sh_once s) \<and> (\<forall>p \<in> sh_once s. sh_fails s p \<le> 1)"

lemma holds_uses: "holds_mutex once c p \<Longrightarrow> uses c = Some p"
  by (auto simp: holds_mutex_def)

lemma pf_invD:
  assumes "pf_inv s"
  shows "sh_pfs s p = Some pf \<Longrightarrow> onetime pf \<longleftrightarrow> p \<in> sh_once s"
    "sh_pfs s p = Some pf \<Longrightarrow> pf_locked pf \<longleftrightarrow> (\<exists>i. holds_mutex (sh_once s) (sh_pc s i) p)"
    "sh_pfs s p = Some pf \<Longrightarrow> p \<in> sh_once s \<Longrightarrow> sh_fails s p = (if pf_failed_once pf then 1 else 0)"
    "sh_pfs s p = Some pf \<Longrightarrow> p \<in> sh_once s \<Longrightarrow> sh_pc s i = Decide p \<or> sh_pc s i = Fails p \<Longrightarrow> \<not> pf_failed_once pf"
    "holds_mutex (sh_once s) (sh_pc s i) p \<Longrightarrow> holds_mutex (sh_once s) (sh_pc s j) p \<Longrightarrow> i = j"
    "sh_pc s i = Mutex p \<Longrightarrow> p \<in> sh_once s" "p \<in> sh_once s \<Longrightarrow> sh_fails s p \<le> 1"
  using assms unfolding pf_inv_def by (blast, blast, blast, blast, blast, blast, blast)

text \<open>A step that leaves the points of failure alone.\<close>

lemma pf_inv_move:
  assumes "pf_inv s" and "sh_pfs s' = sh_pfs s" and "sh_once s' = sh_once s" and "sh_fails s' = sh_fails s"
    and "sh_pc s' = (sh_pc s)(i := c)" and "\<And>p. holds_mutex (sh_once s) c p \<longleftrightarrow> holds_mutex (sh_once s) (sh_pc s i) p" and "\<And>p. c \<noteq> Mutex p"
    and "\<And>p pf. c = Decide p \<or> c = Fails p \<Longrightarrow> p \<in> sh_once s \<Longrightarrow> sh_pfs s p = Some pf \<Longrightarrow> \<not> pf_failed_once pf"
  shows "pf_inv s'"
proof -
  have same: "holds_mutex (sh_once s) (sh_pc s' j) p \<longleftrightarrow> holds_mutex (sh_once s) (sh_pc s j) p" for j p using assms(5,6) by simp
  have "\<not> pf_failed_once pf" if "sh_pfs s p = Some pf" "p \<in> sh_once s" "sh_pc s' j = Decide p \<or> sh_pc s' j = Fails p" for j p pf
    using that assms(5,8) pf_invD(4) [OF assms(1) that(1,2), of j] by (cases "j = i") auto
  moreover have "p \<in> sh_once s" if "sh_pc s' j = Mutex p" for j p
    using that assms(5,7) pf_invD(6) [OF assms(1)] by (cases "j = i") auto
  ultimately show ?thesis unfolding pf_inv_def assms(2-4) same using pf_invD [OF assms(1)]
    by (intro conjI allI impI ballI) (simp_all, blast)
qed

text \<open>A step that stores to the point of failure that the thread uses.\<close>

lemma pf_inv_store:
  assumes "pf_inv s" and "sh_pfs s p = Some pf" and "sh_pfs s' = (sh_pfs s)(p \<mapsto> pf')" and "sh_once s' = sh_once s"
    and "sh_fails s' = (sh_fails s)(p := k)" and "sh_pc s' = (sh_pc s)(i := c)" and "onetime pf' = onetime pf"
    and "uses (sh_pc s i) = Some p" and "uses c = Some p \<or> uses c = None" and "\<And>p. c = Mutex p \<Longrightarrow> p \<in> sh_once s"
    and "p \<in> sh_once s \<Longrightarrow> (\<forall>j. j \<noteq> i \<longrightarrow> \<not> holds_mutex (sh_once s) (sh_pc s j) p) \<and> (pf_locked pf' \<longleftrightarrow> holds_mutex (sh_once s) c p)
        \<and> k = (if pf_failed_once pf' then 1 else 0) \<and> (c = Decide p \<or> c = Fails p \<longrightarrow> \<not> pf_failed_once pf')"
    and "p \<notin> sh_once s \<Longrightarrow> pf_locked pf' = pf_locked pf"
  shows "pf_inv s'"
proof -
  note inv = pf_invD [OF assms(1)]
  have never: "\<not> holds_mutex (sh_once s) (sh_pc s' j) p" if "p \<notin> sh_once s" for j
    using that inv(6) assms(6,10) by (auto simp: holds_mutex_def split: if_splits)
  have never': "\<not> holds_mutex (sh_once s) (sh_pc s j) p" if "p \<notin> sh_once s" for j
    using that inv(6) by (auto simp: holds_mutex_def)
  have other: "holds_mutex (sh_once s) (sh_pc s' j) p' \<longleftrightarrow> holds_mutex (sh_once s) (sh_pc s j) p'" if "p' \<noteq> p" for j p'
  proof (cases "j = i")
    case True
    have "\<not> holds_mutex (sh_once s) c p'" "\<not> holds_mutex (sh_once s) (sh_pc s i) p'"
      using holds_uses [of "sh_once s" c p'] holds_uses [of "sh_once s" "sh_pc s i" p'] assms(8,9) that by auto
    with True assms(6) show ?thesis by simp
  qed (simp add: assms(6))
  have here: "holds_mutex (sh_once s) (sh_pc s' j) p \<longleftrightarrow> j = i \<and> holds_mutex (sh_once s) c p" if "p \<in> sh_once s" for j
    using assms(11) [OF that] assms(6) by (cases "j = i") simp_all
  show ?thesis unfolding pf_inv_def assms(4)
  proof (intro conjI allI impI ballI)
    fix q pf1
    assume q: "sh_pfs s' q = Some pf1"
    show "onetime pf1 \<longleftrightarrow> q \<in> sh_once s" using q assms(2,3,7) inv(1) by (cases "q = p") auto
    show "pf_locked pf1 \<longleftrightarrow> (\<exists>j. holds_mutex (sh_once s) (sh_pc s' j) q)"
    proof (cases "q = p")
      case True
      show ?thesis
      proof (cases "p \<in> sh_once s")
        case once: True
        with True q assms(3) assms(11) [OF once] here show ?thesis by auto
      next
        case False
        then have "\<not> pf_locked pf" using inv(2) [OF assms(2)] never' by blast
        with True False q assms(3,12) never show ?thesis by auto
      qed
    next
      case False
      with q assms(3) inv(2) other show ?thesis by simp
    qed
    show "sh_fails s' q = (if pf_failed_once pf1 then 1 else 0)" if "q \<in> sh_once s"
      using that q assms(2,3,5,11) inv(3) by (cases "q = p") auto
    fix j
    assume c: "q \<in> sh_once s" "sh_pc s' j = Decide q \<or> sh_pc s' j = Fails q"
    show "\<not> pf_failed_once pf1"
    proof (cases "q = p")
      case True
      with c here have "j = i" by (auto simp: holds_mutex_def)
      with c True assms(6) assms(11) q assms(3) show ?thesis by auto
    next
      case False
      have "j \<noteq> i" using c(2) False assms(6,9) by auto
      then have "sh_pc s j = Decide q \<or> sh_pc s j = Fails q" using c(2) assms(6) by simp
      with False q assms(3) inv(4) [of q pf1 j] c(1) show ?thesis by simp
    qed
  next
    fix j j' q
    assume "holds_mutex (sh_once s) (sh_pc s' j) q \<and> holds_mutex (sh_once s) (sh_pc s' j') q"
    then show "j = j'" using other here never inv(5) by (cases "q = p"; cases "p \<in> sh_once s") auto
  next
    fix j q
    assume "sh_pc s' j = Mutex q"
    then show "q \<in> sh_once s" using assms(6,10) inv(6) by (cases "j = i") auto
  next
    fix q
    assume "q \<in> sh_once s"
    then show "sh_fails s' q \<le> 1" using assms(5,11) inv(7) by (cases "q = p") auto
  qed
qed

lemma pf_inv_unused:
  assumes "\<And>j. uses (sh_pc s j) = None"
  shows "pf_inv s \<longleftrightarrow> (\<forall>p pf. sh_pfs s p = Some pf \<longrightarrow> (onetime pf \<longleftrightarrow> p \<in> sh_once s) \<and> \<not> pf_locked pf
      \<and> (p \<in> sh_once s \<longrightarrow> sh_fails s p = (if pf_failed_once pf then 1 else 0))) \<and> (\<forall>p \<in> sh_once s. sh_fails s p \<le> 1)"
proof -
  have free: "\<not> holds_mutex once (sh_pc s j) p" "sh_pc s j \<noteq> Mutex p" "sh_pc s j \<noteq> Decide p" "sh_pc s j \<noteq> Fails p" for once j p
    using assms [of j] holds_uses [of once "sh_pc s j" p] by auto
  show ?thesis unfolding pf_inv_def by (simp add: free)
qed

lemma pf_inv_write:
  assumes "pf_inv s" and "rw_inv s" and "tab_inv s" and "sh_pc s i = Write w"
  shows "pf_inv (go i Written (write_pf w s))"
proof -
  have none: "uses (sh_pc s j) = None" for j by (rule writer_alone(2) [OF assms(2), of i]) (simp add: assms(4))
  have none': "uses (sh_pc (go i Written (write_pf w s)) j) = None" for j using none [of j] by simp
  note inv = assms(1) [unfolded pf_inv_unused [of s, OF none]]
  have new: "sh_fails s (sh_next s) = 0" "sh_next s \<notin> sh_once s" using assms(3) by (simp_all add: tab_inv_def tab_core_def)
  show ?thesis
  proof (cases w)
    case (W_del name)
    with inv show ?thesis unfolding pf_inv_unused [of "go i Written (write_pf w s)", OF none']
      by (auto simp: drop_pf_def split: option.split)
  next
    case (W_set name pf)
    have "fresh_op w" using assms(3,4) unfolding tab_inv_def by (metis pending.simps(2))
    then have "\<not> pf_locked pf" "\<not> pf_failed_once pf" by (simp_all add: W_set)
    moreover have "sh_pfs (write_pf w s) p = (if p = sh_next s then Some pf else if sh_tab s name = Some p then None else sh_pfs s p)" for p
      by (simp add: W_set store_pf_def split: option.split)
    moreover have "sh_once (write_pf w s) = (if onetime pf then insert (sh_next s) (sh_once s) else sh_once s)"
      by (simp add: W_set store_pf_def)
    ultimately show ?thesis using inv new unfolding pf_inv_unused [of "go i Written (write_pf w s)", OF none']
      by (auto split: if_splits)
  qed
qed

lemma pf_inv_step: "tstep i s s' \<Longrightarrow> rw_inv s \<Longrightarrow> tab_inv s \<Longrightarrow> pf_inv s \<Longrightarrow> pf_inv s'"
proof (induction rule: tstep.induct)
  case (plain s p pf)
  then have "p \<notin> sh_once s" using pf_invD(1) by blast
  with plain show ?case by - (rule pf_inv_move [where s = s and i = i and c = "Decide p"], auto simp: holds_mutex_def)
next
  case (fresh s p pf)
  then have "p \<in> sh_once s" using pf_invD(6) by blast
  with fresh show ?case by - (rule pf_inv_move [where s = s and i = i and c = "Decide p"], auto simp: holds_mutex_def)
next
  case (mutex s p pf)
  note inv = pf_invD [OF mutex(7)]
  have once: "p \<in> sh_once s" using mutex(2,3) inv(1) by blast
  have "\<not> holds_mutex (sh_once s) (sh_pc s j) p" for j using inv(2) [OF mutex(2)] mutex(4) by blast
  then show ?case using mutex once inv(3) [OF mutex(2) once]
    by - (rule pf_inv_store [where s = s and pf = pf and i = i and c = "Mutex p" and p = p and k = "sh_fails s p"
        and pf' = "pf\<lparr>pf_locked := True\<rparr>"], auto simp: holds_mutex_def onetime_def)
next
  case (spent s p pf)
  note inv = pf_invD [OF spent(6)]
  have once: "p \<in> sh_once s" using inv(6) [OF spent(1)] .
  have "\<not> holds_mutex (sh_once s) (sh_pc s j) p" if "j \<noteq> i" for j
    using inv(5) [of i p j] that spent(1) by (auto simp: holds_mutex_def)
  then show ?case using spent once inv(3) [OF spent(2) once]
    by - (rule pf_inv_store [where s = s and pf = pf and i = i and c = "Leave 0" and p = p and k = "sh_fails s p"
        and pf' = "pf\<lparr>pf_locked := False\<rparr>"], auto simp: holds_mutex_def onetime_def)
next
  case (decide_no s p pf pf')
  note inv = pf_invD [OF decide_no(6)] and d = decides_onetime [OF decide_no(3)]
  have once: "p \<in> sh_once s \<longleftrightarrow> onetime pf" using inv(1) [OF decide_no(2)] by simp
  have "\<not> holds_mutex (sh_once s) (sh_pc s j) p" if "j \<noteq> i" "p \<in> sh_once s" for j
    using inv(5) [of i p j] that decide_no(1) by (auto simp: holds_mutex_def)
  then show ?case using decide_no once inv(3) [OF decide_no(2)] d
    by - (rule pf_inv_store [where s = s and pf = pf and i = i and c = "Leave 0" and p = p and k = "sh_fails s p" and pf' = "release pf'"], auto simp: holds_mutex_def release_def onetime_def)
next
  case (decide_yes s p pf pf')
  note inv = pf_invD [OF decide_yes(6)] and d = decides_onetime [OF decide_yes(3)]
  have once: "p \<in> sh_once s \<longleftrightarrow> onetime pf" using inv(1) [OF decide_yes(2)] by simp
  have alone: "\<not> holds_mutex (sh_once s) (sh_pc s j) p" if "j \<noteq> i" "p \<in> sh_once s" for j
    using inv(5) [of i p j] that decide_yes(1) by (auto simp: holds_mutex_def)
  have "p \<in> sh_once s \<Longrightarrow> pf_locked pf \<and> \<not> pf_failed_once pf"
    using inv(2,4) [OF decide_yes(2)] decide_yes(1) by (auto simp: holds_mutex_def)
  with alone show ?case using decide_yes once inv(3) [OF decide_yes(2)] d
    by - (rule pf_inv_store [where s = s and pf = pf and i = i and c = "Fails p" and p = p and k = "sh_fails s p" and pf' = pf'], auto simp: holds_mutex_def)
next
  case (fail s p pf)
  note inv = pf_invD [OF fail(5)]
  have once: "p \<in> sh_once s \<longleftrightarrow> onetime pf" using inv(1) [OF fail(2)] by simp
  have alone: "\<not> holds_mutex (sh_once s) (sh_pc s j) p" if "j \<noteq> i" "p \<in> sh_once s" for j
    using inv(5) [of i p j] that fail(1) by (auto simp: holds_mutex_def)
  have "p \<in> sh_once s \<Longrightarrow> sh_fails s p = 0" using inv(3,4) [OF fail(2)] fail(1) by auto
  with alone show ?case using fail once
    by - (rule pf_inv_store [where s = s and pf = pf and i = i and c = "Leave (pf_failnum pf)" and p = p and k = "sh_fails s p + 1"
          and pf' = "if onetime pf then pf\<lparr>pf_failed_once := True, pf_locked := False\<rparr> else pf"], auto simp: holds_mutex_def onetime_def)
next
  case (update s w)
  then show ?case using pf_inv_write by blast
next
  case (call s name)
  then show ?case by - (rule pf_inv_move [where s = s and i = i and c = "Enter name"], auto simp: holds_mutex_def)
next
  case (rlock s name)
  then show ?case by - (rule pf_inv_move [where s = s and i = i and c = "Lookup name"], auto simp: holds_mutex_def)
next
  case (found s name p)
  then show ?case by - (rule pf_inv_move [where s = s and i = i and c = "Found p"], auto simp: holds_mutex_def)
next
  case (not_found s name)
  then show ?case by - (rule pf_inv_move [where s = s and i = i and c = "Leave 0"], auto simp: holds_mutex_def)
next
  case (leave s r)
  then show ?case by - (rule pf_inv_move [where s = s and i = i and c = Idle], auto simp: holds_mutex_def)
next
  case (want s w)
  then show ?case by - (rule pf_inv_move [where s = s and i = i and c = "Want w"], auto simp: holds_mutex_def)
next
  case (wlock s w)
  then show ?case by - (rule pf_inv_move [where s = s and i = i and c = "Write w"], auto simp: holds_mutex_def)
next
  case (wunlock s)
  then show ?case by - (rule pf_inv_move [where s = s and i = i and c = Idle], auto simp: holds_mutex_def)
qed

lemma reachable_inv: "reachable s \<Longrightarrow> rw_inv s \<and> tab_inv s \<and> pf_inv s"
proof (induction rule: reachable.induct)
  case start
  then show ?case
    by (auto simp: threads_start_def rw_inv_def tab_inv_def tab_core_def pf_inv_def holds_mutex_def)
next
  case (step s i s')
  then show ?case using rw_inv_step tab_inv_step pf_inv_step by blast
qed

subsection \<open>Somebody can always go on\<close>

lemma reader_steps:
  assumes "reachable s" and "reading (sh_pc s i)"
  shows "\<exists>j s'. sh_pc s j \<noteq> Idle \<and> tstep j s s'"
proof -
  from reachable_inv [OF assms(1)] have tab: "tab_inv s" and pf: "pf_inv s" by simp_all
  have alloc: "\<exists>pf. sh_pfs s p = Some pf" if "uses (sh_pc s j) = Some p" for j p
    using uses_alloc [OF tab that] by blast
  have hold: "\<exists>s'. tstep j s s'" if "sh_pc s j \<in> {Mutex p, Decide p, Fails p}" for j p
  proof -
    from that alloc [of j p] obtain pf where pf: "sh_pfs s p = Some pf" by auto
    from that consider "sh_pc s j = Mutex p" | "sh_pc s j = Decide p" | "sh_pc s j = Fails p" by blast
    then show ?thesis
    proof cases
      case 1
      with pf show ?thesis by (cases "pf_failed_once pf") (blast intro: spent fresh)+
    next
      case 2
      obtain b pf' where "decides pf b pf'" using decides_total by blast
      with 2 pf show ?thesis by (cases b) (auto intro: decide_no decide_yes)
    next
      case 3
      with pf show ?thesis by (blast intro: fail)
    qed
  qed
  show ?thesis
  proof (cases "sh_pc s i")
    case (Lookup name)
    obtain a where "finds (sh_tab s) name a" using finds_total by blast
    then have "\<exists>s'. tstep i s s'" using Lookup by (cases a) (blast intro: found not_found)+
    then show ?thesis using Lookup by (metis pc.distinct(3))
  next
    case (Found p)
    then obtain pf where p: "sh_pfs s p = Some pf" using alloc [of i p] by auto
    show ?thesis
    proof (cases "onetime pf \<and> pf_locked pf")
      case True
      then obtain j where "holds_mutex (sh_once s) (sh_pc s j) p" using pf_invD(2) [OF pf p] by blast
      then have "sh_pc s j \<in> {Mutex p, Decide p, Fails p}" by (auto simp: holds_mutex_def)
      then have "sh_pc s j \<noteq> Idle" "\<exists>s'. tstep j s s'" using hold by auto
      then show ?thesis by blast
    next
      case False
      with Found p show ?thesis by (metis mutex plain pc.distinct(5))
    qed
  next
    case (Mutex p)
    with hold [of i p] show ?thesis by force
  next
    case (Decide p)
    with hold [of i p] show ?thesis by force
  next
    case (Fails p)
    with hold [of i p] show ?thesis by force
  next
    case (Leave r)
    then have "sh_pc s i \<noteq> Idle" "\<exists>s'. tstep i s s'" by (simp, blast intro: leave)
    then show ?thesis by blast
  qed (use assms(2) in simp_all)
qed

lemma writer_steps: "writing (sh_pc s i) \<Longrightarrow> \<exists>j s'. sh_pc s j \<noteq> Idle \<and> tstep j s s'"
  by (cases "sh_pc s i") (force intro: update wunlock)+

text \<open>An execution for the concrete instances: thread 0 stores a one-time point of failure, thread 1 asks for it.\<close>

definition once_pf :: pf_info where
  "once_pf = new_pf ''a'' 1 0 FIU_ONETIME PF_ALWAYS M_unset"

lemma once_pf_fields [simp]: "onetime once_pf" "\<not> pf_locked once_pf" "\<not> pf_failed_once once_pf" "pf_method once_pf = PF_ALWAYS"
  by (simp_all add: once_pf_def onetime_def FIU_ONETIME_def)

lemma example_stored:
  "\<exists>s. reachable s \<and> (\<forall>i. sh_pc s i = Idle \<and> sh_rec s i = 0) \<and> sh_writer s = None \<and> sh_tab s = [''a'' \<mapsto> 0] \<and> sh_pfs s = [0 \<mapsto> once_pf]
     \<and> sh_fails s 0 = 0 \<and> sh_once s = {0}"
proof -
  let ?w = "W_set ''a'' once_pf"
  define s1 where "s1 = go 0 (Want ?w) (threads_start\<lparr>sh_rec := (sh_rec threads_start)(0 := 1)\<rparr>)"
  define s2 where "s2 = go 0 (Write ?w) (s1\<lparr>sh_writer := Some 0\<rparr>)"
  define s3 where "s3 = go 0 Written (write_pf ?w s2)"
  define s4 where "s4 = go 0 Idle (s3\<lparr>sh_writer := None, sh_rec := (sh_rec s3)(0 := 0)\<rparr>)"
  have "reachable s1" unfolding s1_def by (rule reachable.step [OF reachable.start tstep.want]) (simp_all add: threads_start_def)
  then have "reachable s2" unfolding s2_def by (rule reachable.step [OF _ tstep.wlock]) (simp_all add: s1_def threads_start_def)
  then have "reachable s3" unfolding s3_def by (rule reachable.step [OF _ tstep.update]) (simp add: s2_def)
  then have "reachable s4" unfolding s4_def by (rule reachable.step [OF _ tstep.wunlock]) (simp add: s3_def)
  then show ?thesis
    by (intro exI [of _ s4]) (simp add: s4_def s3_def s2_def s1_def threads_start_def store_pf_def)
qed

lemma example_found:
  "\<exists>s. reachable s \<and> sh_pc s 1 = Found 0 \<and> sh_pfs s = [0 \<mapsto> once_pf] \<and> sh_fails s 0 = 0 \<and> sh_once s = {0}"
proof -
  obtain s where s: "reachable s" "\<And>i. sh_pc s i = Idle" "\<And>i. sh_rec s i = 0" "sh_writer s = None" "sh_tab s = [''a'' \<mapsto> 0]"
    "sh_pfs s = [0 \<mapsto> once_pf]" "sh_fails s 0 = 0" "sh_once s = {0}" using example_stored by blast
  define s1 where "s1 = go 1 (Enter ''a'') (s\<lparr>sh_rec := (sh_rec s)(1 := 1)\<rparr>)"
  define s2 where "s2 = go 1 (Lookup ''a'') (s1\<lparr>sh_readers := insert 1 (sh_readers s1)\<rparr>)"
  have "finds (sh_tab s2) ''a'' (Some 0)" by (rule finds.own) (simp_all add: s2_def s1_def s(5) is_pat_def)
  moreover have "reachable s1" unfolding s1_def by (rule reachable.step [OF s(1) tstep.call]) (simp_all add: s(2,3))
  then have "reachable s2" unfolding s2_def by (rule reachable.step [OF _ tstep.rlock]) (simp_all add: s1_def s(4))
  ultimately have "reachable (go 1 (Found 0) s2)" using reachable.step [OF _ tstep.found] by (fastforce simp: s2_def)
  then show ?thesis by (intro exI [of _ "go 1 (Found 0) s2"]) (simp add: s2_def s1_def s(6-8))
qed

lemma example_failed: "\<exists>s. reachable s \<and> 0 \<in> sh_once s \<and> sh_fails s 0 = 1"
proof -
  obtain s where s: "reachable s" "sh_pc s 1 = Found 0" "sh_pfs s = [0 \<mapsto> once_pf]" "sh_fails s 0 = 0" "sh_once s = {0}"
    using example_found by blast
  define s1 where "s1 = go 1 (Mutex 0) (put_pf 0 (once_pf\<lparr>pf_locked := True\<rparr>) s)"
  define s2 where "s2 = go 1 (Decide 0) s1"
  define s3 where "s3 = go 1 (Fails 0) (put_pf 0 (once_pf\<lparr>pf_locked := True\<rparr>) s2)"
  have "reachable s1" unfolding s1_def by (rule reachable.step [OF s(1) tstep.mutex]) (simp_all add: s del: One_nat_def)
  then have r2: "reachable s2" unfolding s2_def
    by (rule reachable.step [OF _ tstep.fresh [where pf = "once_pf\<lparr>pf_locked := True\<rparr>"]]) (simp_all add: s1_def)
  have d: "decides (once_pf\<lparr>pf_locked := True\<rparr>) True (once_pf\<lparr>pf_locked := True\<rparr>)" by (rule decides.always) simp
  have r3: "reachable s3" unfolding s3_def by (rule reachable.step [OF r2 tstep.decide_yes [OF _ _ d]]) (simp_all add: s2_def s1_def)
  have pc: "sh_pc s3 1 = Fails 0" "sh_pfs s3 0 = Some (once_pf\<lparr>pf_locked := True\<rparr>)" by (simp_all add: s3_def)
  have "\<exists>s'. reachable s' \<and> sh_once s' = sh_once s3 \<and> sh_fails s' 0 = sh_fails s3 0 + 1"
    by (rule exI, rule conjI, rule reachable.step [OF r3 tstep.fail [OF pc]], simp)
  then show ?thesis by (auto simp: s3_def s2_def s1_def s(4,5))
qed

subsection \<open>Properties\<close>

text \<open>Property C10: No thread uses a point of failure that another has released: in every execution, a thread that is between its lookup and the end of
  \<open>fiu_fail\<close> finds its point of failure allocated and in the table, whatever the other threads enable and disable; writers are alone, and at most one
  thread holds the mutex of a point of failure.\<close>

theorem threads_use_allocated:
  assumes "reachable s"
  shows "(uses (sh_pc s i) = Some p \<longrightarrow> (\<exists>pf name. sh_pfs s p = Some pf \<and> sh_tab s name = Some p))
    \<and> (writing (sh_pc s i) \<longrightarrow> \<not> reading (sh_pc s j) \<and> (writing (sh_pc s j) \<longrightarrow> i = j))
    \<and> (holds_mutex (sh_once s) (sh_pc s i) p \<and> holds_mutex (sh_once s) (sh_pc s j) p \<longrightarrow> i = j)"
proof -
  from reachable_inv [OF assms] have inv: "rw_inv s" "tab_inv s" "pf_inv s" by simp_all
  have "\<exists>pf name. sh_pfs s p = Some pf \<and> sh_tab s name = Some p" if "uses (sh_pc s i) = Some p"
    by (rule uses_alloc [OF inv(2) that])
  moreover have "\<not> reading (sh_pc s j)" if "writing (sh_pc s i)" by (rule writer_alone(1) [OF inv(1) that])
  moreover have "i = j" if "writing (sh_pc s i)" "writing (sh_pc s j)" using that inv(1) unfolding rw_inv_def by (metis option.inject)
  ultimately show ?thesis using pf_invD(5) [OF inv(3)] by blast
qed

theorem threads_use_allocated_witness:
  "\<exists>s. reachable s \<and> uses (sh_pc s 1) = Some 0 \<and> (\<exists>pf name. sh_pfs s 0 = Some pf \<and> sh_tab s name = Some 0)"
proof -
  obtain s where s: "reachable s" "sh_pc s 1 = Found 0" using example_found by blast
  have u: "uses (sh_pc s 1) = Some 0" unfolding s(2) by simp
  with threads_use_allocated [OF s(1), of 1 0 1] s(1) show ?thesis by blast
qed

text \<open>Property C9: Once is once for all threads together: in every execution, over any number of threads, a point of failure that was created with
  \<open>FIU_ONETIME\<close> causes at most one failure, even after it has been replaced or disabled.\<close>

theorem threads_fail_once:
  assumes "reachable s" and "p \<in> sh_once s"
  shows "sh_fails s p \<le> 1"
  using reachable_inv [OF assms(1)] pf_invD(7) assms(2) by blast

theorem threads_fail_once_witness:
  "\<exists>s. reachable s \<and> sh_fails s 0 = 1 \<and> sh_fails s 0 \<le> 1"
  using example_failed threads_fail_once by blast

text \<open>Property C11: No deadlock: in every reachable state in which some thread is inside the library, some thread that is inside can take its next
  step, so neither the read-write lock nor the mutexes of the points of failure, in the order in which they are taken, can block everybody.\<close>

theorem threads_never_stuck:
  assumes "reachable s" and "sh_pc s i \<noteq> Idle"
  shows "\<exists>j s'. sh_pc s j \<noteq> Idle \<and> tstep j s s'"
proof -
  from reachable_inv [OF assms(1)] have rw: "rw_inv s" by simp
  have blocked: ?thesis if "sh_writer s \<noteq> None \<or> sh_readers s \<noteq> {}"
    using that rw writer_steps reader_steps [OF assms(1)] unfolding rw_inv_def by blast
  show ?thesis
  proof (cases "reading (sh_pc s i) \<or> writing (sh_pc s i)")
    case True
    then show ?thesis using reader_steps [OF assms(1)] writer_steps by blast
  next
    case False
    with assms(2) consider name where "sh_pc s i = Enter name" | w where "sh_pc s i = Want w" by (cases "sh_pc s i") auto
    then show ?thesis
    proof cases
      case 1
      then show ?thesis using blocked rlock assms(2) by blast
    next
      case 2
      then show ?thesis using blocked wlock assms(2) by blast
    qed
  qed
qed

theorem threads_never_stuck_witness:
  "\<exists>s j s'. reachable s \<and> sh_pc s 1 = Found 0 \<and> sh_pc s j \<noteq> Idle \<and> tstep j s s'"
proof -
  obtain s where s: "reachable s" "sh_pc s 1 = Found 0" using example_found by blast
  then have "sh_pc s 1 \<noteq> Idle" by simp
  from threads_never_stuck [OF s(1) this] s show ?thesis by blast
qed

subsection \<open>Forks\<close>

text \<open>A fork: the child has one thread, \<open>i\<close>, and the locks as they were. The library registers nothing to run before the fork, so if another
  thread was writing then, no call of the child that needs the lock ever returns.\<close>

lemma fork_child_stuck:
  assumes "(tstep i)\<^sup>*\<^sup>* s s'" and "sh_writer s = Some j" and "sh_pc s i = Idle"
  shows "sh_writer s' = Some j \<and> (sh_pc s' i = Idle \<or> (\<exists>name. sh_pc s' i = Enter name) \<or> (\<exists>w. sh_pc s' i = Want w))
    \<and> (sh_pc s' i \<noteq> Idle \<longrightarrow> (\<forall>s''. \<not> tstep i s' s''))"
proof -
  have stuck: "\<not> tstep i t u" if "sh_writer t = Some j" "(\<exists>name. sh_pc t i = Enter name) \<or> (\<exists>w. sh_pc t i = Want w)" for t u
    using that by (auto elim!: tstep.cases)
  have "sh_writer s' = Some j \<and> (sh_pc s' i = Idle \<or> (\<exists>name. sh_pc s' i = Enter name) \<or> (\<exists>w. sh_pc s' i = Want w))"
    using assms
  proof (induction rule: rtranclp_induct)
    case (step t u)
    then have t: "sh_writer t = Some j" "sh_pc t i = Idle" using stuck by blast+
    from step.hyps(2) t show ?case by (cases rule: tstep.cases) auto
  qed simp
  with stuck show ?thesis by blast
qed

text \<open>A call of the child after such a fork.\<close>

lemma fork_child_example:
  "\<exists>s s'. reachable s \<and> sh_writer s = Some 2 \<and> sh_pc s 1 = Idle \<and> tstep 1 s s' \<and> sh_pc s' 1 = Enter ''a'' \<and> (\<forall>s''. \<not> tstep 1 s' s'')"
proof -
  let ?s1 = "go 2 (Want (W_del ''a'')) (threads_start\<lparr>sh_rec := (sh_rec threads_start)(2 := 1)\<rparr>)"
  let ?s2 = "go 2 (Write (W_del ''a'')) (?s1\<lparr>sh_writer := Some 2\<rparr>)"
  have "tstep 2 threads_start ?s1" by (rule want) (simp_all add: threads_start_def)
  moreover have "tstep 2 ?s1 ?s2" by (rule wlock) (simp_all add: threads_start_def)
  ultimately have r: "reachable ?s2" using start step by metis
  have pc: "sh_writer ?s2 = Some 2" "sh_pc ?s2 1 = Idle" "sh_rec ?s2 1 = 0" by (simp_all add: threads_start_def)
  have c: "tstep 1 ?s2 (go 1 (Enter ''a'') (?s2\<lparr>sh_rec := (sh_rec ?s2)(1 := 1)\<rparr>))" (is "tstep 1 _ ?s3")
    by (rule tstep.call [OF pc(2,3)])
  have "sh_pc ?s3 1 = Enter ''a''" by simp
  moreover have "(tstep 1)\<^sup>*\<^sup>* ?s2 ?s3" using c by blast
  from fork_child_stuck [OF this pc(1,2)] have "sh_pc ?s3 1 \<noteq> Idle \<longrightarrow> (\<forall>s''. \<not> tstep 1 ?s3 s'')" by blast
  ultimately have "\<forall>s''. \<not> tstep 1 ?s3 s''" "sh_pc ?s3 1 = Enter ''a''" by simp_all
  with r pc(1,2) c show ?thesis by blast
qed

end
