(* ===== verification/Thread_Refine.thy ===== *)
theory Thread_Refine
  imports Fiu_Threads
begin

text \<open>
  The calls of one thread in \<open>Fiu\<close> and the steps of \<open>Fiu_Threads\<close> describe the same code. When no other thread is inside the
  library, every sequence of API calls is an execution of one thread, with the same results and the same table, points of failure and
  error information at its end. So the model of threads has all the behaviour of the library, and what it excludes (a
  second failure of a one-time point, a use after release) the library does not do either.
\<close>

subsection \<open>The two views of a state\<close>

definition tab_of :: "nat wtable \<Rightarrow> string \<rightharpoonup> nat" where
  "tab_of w name = (case wtable_abs w name of Some (Ptr p) \<Rightarrow> Some p | _ \<Rightarrow> None)"

text \<open>Thread \<open>i\<close> is outside the library in \<open>t\<close>, as is everybody else, and its view of the library is \<open>s\<close>.\<close>

definition sees :: "nat \<Rightarrow> fiu \<Rightarrow> shared \<Rightarrow> bool" where
  "sees i s t \<longleftrightarrow> sh_pc t i = Idle \<and> sh_rec t i = 0 \<and> sh_writer t = None \<and> sh_readers t = {} \<and> sh_info t i = last_failinfo s
     \<and> sh_pfs t = pfs s \<and> sh_next t = next_pf s \<and> (case enabled_fails s of NULL \<Rightarrow> False | Ptr w \<Rightarrow> sh_tab t = tab_of w)"

text \<open>A step of thread \<open>i\<close> that does not leave the library.\<close>

definition inside :: "nat \<Rightarrow> shared \<Rightarrow> shared \<Rightarrow> bool" where
  "inside i t t' \<longleftrightarrow> tstep i t t' \<and> sh_pc t' i \<noteq> Idle"

lemma insideI: "tstep i t t' \<Longrightarrow> sh_pc t' i \<noteq> Idle \<Longrightarrow> inside i t t'"
  by (simp add: inside_def)

lemma inside_steps: "(inside i)\<^sup>*\<^sup>* t t' \<Longrightarrow> (tstep i)\<^sup>*\<^sup>* t t'"
  by (induction rule: rtranclp_induct) (auto simp: inside_def intro: rtranclp.rtrancl_into_rtrancl)

text \<open>What a call of the control API asks to be done to the table, if it gets that far, and the variable of \<open>backtrace_works\<close> after it,
  which only the two functions for failures by stack use.\<close>

definition stack_request :: "env \<Rightarrow> string \<Rightarrow> int \<Rightarrow> addr \<Rightarrow> 32 word \<Rightarrow> addr \<Rightarrow> int \<Rightarrow> int \<Rightarrow> write_op option \<times> int" where
  "stack_request env name n j f func pos b =
     (if pos \<noteq> -1 then (None, b)
      else let pl = e_plat env; b1 = backtrace_works pl (e_self_stack env) b
        in (if b1 = 0 \<or> get_func_end pl func = 0 \<and> get_func_start pl func = 0 then None
            else Some (W_set name (new_pf name n j f PF_STACK (M_stack func (get_func_end pl func) pos))), b1))"

fun request :: "env \<Rightarrow> call \<Rightarrow> int \<Rightarrow> write_op option \<times> int" where
  "request env (Enable name n j f) b = (Some (W_set name (new_pf name n j f PF_ALWAYS M_unset)), b)"
| "request env (Enable_random name n j f p) b = (Some (W_set name (new_pf name n j f PF_PROB (M_probability p))), b)"
| "request env (Enable_external name n j f cb) b = (Some (W_set name (new_pf name n j f PF_EXTERNAL (M_external_cb cb))), b)"
| "request env (Enable_stack name n j f func pos) b = stack_request env name n j f func pos b"
| "request env (Enable_stack_by_name name n j f fname pos) b =
     (let pl = e_plat env; b1 = backtrace_works pl (e_self_stack_by_name env) b
      in if b1 = 0 \<or> get_func_addr pl fname = 0 then (None, b1)
         else stack_request env name n j f (get_func_addr pl fname) pos b1)"
| "request env (Disable name) b = (Some (W_del name), b)"
| "request env c b = (None, b)"

fun write_result :: "write_op \<Rightarrow> shared \<Rightarrow> int" where
  "write_result (W_set name pf) t = 0"
| "write_result (W_del name) t = (if sh_tab t name = None then -1 else 0)"

text \<open>One call of thread \<open>i\<close> with its result. \<open>fiu_fail\<close> is the steps from its begin with that name to the return of that value, with no
  other call among them; \<open>fiu_failinfo\<close> reads the variable of the thread; initializing again and setting the seed
  return 0 and take no step; a request is carried out by the four steps of a writer and its result is 0, or -1 for a
  name that was not there; and a call that cannot make its request returns -1 and takes no step.\<close>

inductive served :: "nat \<Rightarrow> shared \<Rightarrow> int \<Rightarrow> env \<Rightarrow> call \<Rightarrow> int \<Rightarrow> shared \<Rightarrow> int \<Rightarrow> bool" for i where
  asked: "tstep i t t1 \<Longrightarrow> sh_pc t1 i = Enter name \<Longrightarrow> (inside i)\<^sup>*\<^sup>* t1 t2 \<Longrightarrow> sh_pc t2 i = Leave r \<Longrightarrow> tstep i t2 t'
    \<Longrightarrow> served i t b env (Fail name) r t' b"
| info: "served i t b env Failinfo (uint (sh_info t i)) t b"
| idle: "c = Init \<or> c = Set_seed seed \<Longrightarrow> served i t b env c 0 t b"
| written: "request env c b = (Some w, b') \<Longrightarrow> tstep i t t1 \<Longrightarrow> sh_pc t1 i = Want w \<Longrightarrow> tstep i t1 t2 \<Longrightarrow> sh_pc t2 i = Write w
    \<Longrightarrow> tstep i t2 t3 \<Longrightarrow> sh_pc t3 i = Written \<Longrightarrow> tstep i t3 t' \<Longrightarrow> served i t b env c (write_result w t) t' b'"
| refused: "request env c b = (None, b') \<Longrightarrow> c = Enable_stack name n j f func pos \<or> c = Enable_stack_by_name name n j f fname pos
    \<Longrightarrow> served i t b env c (-1) t b'"

inductive serves :: "nat \<Rightarrow> shared \<Rightarrow> int \<Rightarrow> ((env \<times> call) \<times> int) list \<Rightarrow> shared \<Rightarrow> int \<Rightarrow> bool" for i where
  no_call: "serves i t b [] t b"
| one_call: "served i t b env c r t1 b1 \<Longrightarrow> serves i t1 b1 cs t' b' \<Longrightarrow> serves i t b (((env, c), r) # cs) t' b'"

lemma served_steps: "served i t b env c r t' b' \<Longrightarrow> (tstep i)\<^sup>*\<^sup>* t t'"
proof (induction rule: served.induct)
  case (asked t t1 name t2 r t' b env)
  then show ?case
    by (meson converse_rtranclp_into_rtranclp inside_steps rtranclp.rtrancl_into_rtrancl)
next
  case (written env c b w b' t t1 t2 t3 t')
  then show ?case by (meson converse_rtranclp_into_rtranclp rtranclp.rtrancl_refl)
qed simp_all

lemma serves_steps: "serves i t b cs t' b' \<Longrightarrow> (tstep i)\<^sup>*\<^sup>* t t'"
  by (induction rule: serves.induct) (auto dest: served_steps intro: rtranclp_trans)

lemma reachable_steps: "(tstep i)\<^sup>*\<^sup>* t t' \<Longrightarrow> reachable t \<Longrightarrow> reachable t'"
  by (induction rule: rtranclp_induct) (auto intro: reachable.step)

subsection \<open>Lookups and decisions\<close>

lemma tab_of_None: "table_pfs w m \<Longrightarrow> tab_of w k = None \<longleftrightarrow> wtable_abs w k = None"
  using table_pfs_live [of w m k] by (fastforce simp: tab_of_def split: option.splits ptr.splits)

lemma finds_answer:
  assumes "table_pfs w m"
  shows "finds (tab_of w) name (case wtable_answer w name of NULL \<Rightarrow> None | Ptr p \<Rightarrow> Some p)"
proof -
  have "wtable_inv w" using assms by (simp add: table_pfs_def wtable_owns_def)
  note pa = wtable_answer_pattern [OF this, of name]
  have val: "\<exists>p. v = Ptr p" if "wtable_abs w k = Some v" for k v using table_pfs_live [OF assms that] by blast
  have tab: "tab_of w k = Some p \<longleftrightarrow> wtable_abs w k = Some (Ptr p)" for k p
    using val [of k] by (auto simp: tab_of_def split: option.splits ptr.splits)
  have none: "tab_of w k = None \<longleftrightarrow> wtable_abs w k = None" for k
    using val [of k] by (auto simp: tab_of_def split: option.splits ptr.splits)
  show ?thesis
  proof (cases "\<not> is_pat name \<and> wtable_abs w name \<noteq> None")
    case True
    then obtain p where p: "wtable_abs w name = Some (Ptr p)" using val [of name] by auto
    with pa True have "wtable_answer w name = Ptr p" by (simp add: pattern_answer_def)
    then show ?thesis using finds.own [of name "tab_of w" p] True p tab by simp
  next
    case False
    then have no: "is_pat name \<or> tab_of w name = None" using none [of name] by auto
    show ?thesis
    proof (cases "\<exists>q \<in> dom (wtable_abs w). pat_matches q name")
      case True
      with pa False obtain q where q: "pat_matches q name" "wtable_abs w q = Some (wtable_answer w name)"
        unfolding pattern_answer_def by metis
      from val [OF q(2)] obtain p where "wtable_answer w name = Ptr p" by blast
      then show ?thesis using finds.pattern [where name = name and tab = "tab_of w" and q = q and p = p] no q tab by simp
    next
      case none': False
      with pa False have "wtable_answer w name = NULL" unfolding pattern_answer_def by metis
      moreover have "\<forall>q \<in> dom (tab_of w). \<not> pat_matches q name" using none' none by (metis domIff)
      ultimately show ?thesis using finds.nothing [where name = name and tab = "tab_of w"] no by simp
    qed
  qed
qed

lemma decides_decision:
  assumes "pf_decision env pf g = (b, pf', g')" and "pf_typed pf" and "callbacks_keep_onetime env"
  shows "decides pf b pf'"
proof (cases "pf_method pf")
  case PF_EXTERNAL
  then obtain cb where cb: "pf_minfo pf = M_external_cb cb" using assms(2) by (auto simp: pf_typed_def split: minfo.splits)
  obtain r n i f where c: "e_callback env cb (pf_name pf) (pf_failnum pf) (pf_failinfo pf) (pf_flags pf) = (r, n, i, f)"
    by (metis prod.exhaust)
  have "f AND FIU_ONETIME = pf_flags pf AND FIU_ONETIME" using assms(3) c unfolding callbacks_keep_onetime_def by (metis snd_conv)
  from decides.external [OF PF_EXTERNAL this, where b = "r \<noteq> 0" and n = n and info = i] show ?thesis using assms(1) PF_EXTERNAL cb c by (auto simp: pf_decision_def)
qed (use assms(1,2) in \<open>auto simp: pf_decision_def pf_typed_def decides_iff split: minfo.splits\<close>)

lemma decides_locked:
  assumes "decides pf b pf'"
  shows "decides (pf\<lparr>pf_locked := x\<rparr>) b (pf'\<lparr>pf_locked := x\<rparr>)"
  using assms
proof (induction rule: decides.induct)
  case (external pf f b info n)
  have eq: "pf\<lparr>pf_failnum := n, pf_failinfo := info, pf_flags := f, pf_locked := x\<rparr>
      = pf\<lparr>pf_locked := x, pf_failnum := n, pf_failinfo := info, pf_flags := f\<rparr>" by (cases pf) simp
  with decides.external [of "pf\<lparr>pf_locked := x\<rparr>" f b info n] external show ?case unfolding eq by simp
qed (auto simp: decides_iff)

subsection \<open>One question\<close>

text \<open>What stays the same while a thread asks.\<close>

definition same_table :: "shared \<Rightarrow> shared \<Rightarrow> bool" where
  "same_table t t' \<longleftrightarrow> sh_tab t' = sh_tab t \<and> sh_next t' = sh_next t \<and> sh_readers t' = sh_readers t \<and> sh_writer t' = sh_writer t
     \<and> sh_rec t' = sh_rec t"

lemma steps_decide:
  assumes "sh_pc t i = Decide p" and "sh_pfs t p = Some pf" and "decides pf b pf'"
  shows "\<exists>t'. (inside i)\<^sup>*\<^sup>* t t' \<and> same_table t t' \<and> sh_pc t' i = Leave (if b then pf_failnum pf' else 0)
    \<and> sh_pfs t' = (sh_pfs t)(p \<mapsto> if onetime pf' then pf'\<lparr>pf_failed_once := b \<or> pf_failed_once pf', pf_locked := False\<rparr> else pf')
    \<and> sh_info t' i = (if b then pf_failinfo pf' else sh_info t i)"
proof (cases b)
  case True
  define t1 where "t1 = go i (Fails p) (put_pf p pf' t)"
  define t2 where "t2 = go i (Leave (pf_failnum pf')) (put_pf p (if onetime pf' then pf'\<lparr>pf_failed_once := True, pf_locked := False\<rparr> else pf')
      (t1\<lparr>sh_info := (sh_info t1)(i := pf_failinfo pf'), sh_fails := (sh_fails t1)(p := sh_fails t1 p + 1)\<rparr>))"
  have "inside i t t1" unfolding t1_def by (rule insideI, rule tstep.decide_yes [OF assms(1,2)]) (use assms(3) True in simp_all)
  moreover have "inside i t1 t2" unfolding t2_def by (rule insideI, rule tstep.fail) (simp_all add: t1_def)
  ultimately have "(inside i)\<^sup>*\<^sup>* t t2" by simp
  then show ?thesis by (rule exI [where x = t2, OF conjI]) (simp add: True same_table_def t2_def t1_def put_pf_def go_def)
next
  case False
  have "inside i t (go i (Leave 0) (put_pf p (release pf') t))"
    by (rule insideI, rule tstep.decide_no [OF assms(1,2)]) (use assms(3) False in simp_all)
  moreover have "pf'\<lparr>pf_failed_once := pf_failed_once pf', pf_locked := False\<rparr> = pf'\<lparr>pf_locked := False\<rparr>" by simp
  ultimately show ?thesis using False
    by (intro exI [of _ "go i (Leave 0) (put_pf p (release pf') t)"]) (auto simp: same_table_def release_def put_pf_def go_def)
qed

lemma steps_mutex:
  assumes "sh_pc t i = Mutex p" and "sh_pfs t p = Some (pf\<lparr>pf_locked := True\<rparr>)" and "decides pf b pf'"
    and "onetime pf" and "\<not> pf_locked pf" and "\<not> pf_failed_once pf"
  shows "\<exists>t'. (inside i)\<^sup>*\<^sup>* t t' \<and> same_table t t' \<and> sh_pc t' i = Leave (if b then pf_failnum pf' else 0)
    \<and> sh_pfs t' = (sh_pfs t)(p \<mapsto> if b then pf'\<lparr>pf_failed_once := True\<rparr> else pf')
    \<and> sh_info t' i = (if b then pf_failinfo pf' else sh_info t i)"
proof -
  let ?lpf = "pf\<lparr>pf_locked := True\<rparr>" and ?lpf' = "pf'\<lparr>pf_locked := True\<rparr>"
  have s: "inside i t (go i (Decide p) t)" by (rule insideI, rule tstep.fresh [OF assms(1,2)]) (use assms(6) in simp_all)
  note f = decides_onetime [OF assms(3)]
  have one: "onetime ?lpf'" using f assms(4) by (simp add: onetime_def)
  have "pf'\<lparr>pf_locked := True, pf_failed_once := b \<or> pf_failed_once ?lpf', pf_locked := False\<rparr> = (if b then pf'\<lparr>pf_failed_once := True\<rparr> else pf')"
    using f assms(5,6) by (cases pf') auto
  with steps_decide [of "go i (Decide p) t" i p ?lpf b ?lpf'] decides_locked [OF assms(3), of True] assms(2) one
  obtain t' where t': "(inside i)\<^sup>*\<^sup>* (go i (Decide p) t) t'" "same_table (go i (Decide p) t) t'" "sh_pc t' i = Leave (if b then pf_failnum pf' else 0)"
      "sh_pfs t' = (sh_pfs t)(p \<mapsto> if b then pf'\<lparr>pf_failed_once := True\<rparr> else pf')"
      "sh_info t' i = (if b then pf_failinfo pf' else sh_info t i)" by auto
  have "same_table t t'" using t'(2) by (simp add: same_table_def)
  with converse_rtranclp_into_rtranclp [where r = "inside i", OF s t'(1)] t'(3-5) show ?thesis by blast
qed

lemma steps_found:
  assumes "sh_pc t i = Found p" and "sh_pfs t p = Some pf" and "pf_ok pf" and "pf_step env pf g = (b, pf', g')" and "callbacks_keep_onetime env"
  shows "\<exists>t'. (inside i)\<^sup>*\<^sup>* t t' \<and> same_table t t' \<and> sh_pc t' i = Leave (if b then pf_failnum pf' else 0)
    \<and> sh_pfs t' = (sh_pfs t)(p \<mapsto> pf') \<and> sh_info t' i = (if b then pf_failinfo pf' else sh_info t i)"
proof -
  have ok: "\<not> pf_locked pf" "pf_typed pf" using assms(3) by (simp_all add: pf_ok_def)
  obtain b1 pf1 g1 where d: "pf_decision env pf g = (b1, pf1, g1)" by (metis prod.exhaust)
  have dec: "decides pf b1 pf1" by (rule decides_decision [OF d ok(2) assms(5)])
  show ?thesis
  proof (cases "onetime pf")
    case False
    let ?t1 = "go i (Decide p) t"
    have s: "inside i t ?t1" by (rule insideI, rule tstep.plain [OF assms(1,2) False]) simp
    have step: "pf' = pf1" "b = b1" "\<not> onetime pf1"
      using False assms(4) d decides_onetime [OF dec] by (simp_all add: pf_step_def)
    with steps_decide [of ?t1 i p pf b1 pf1] dec assms(2) obtain t' where t': "(inside i)\<^sup>*\<^sup>* ?t1 t'" "same_table ?t1 t'"
        "sh_pc t' i = Leave (if b then pf_failnum pf' else 0)" "sh_pfs t' = (sh_pfs t)(p \<mapsto> pf')"
        "sh_info t' i = (if b then pf_failinfo pf' else sh_info t i)" by auto
    have "same_table t t'" using t'(2) by (simp add: same_table_def)
    with converse_rtranclp_into_rtranclp [where r = "inside i", OF s t'(1)] t'(3-5) show ?thesis by blast
  next
    case True
    define t1 where "t1 = go i (Mutex p) (put_pf p (pf\<lparr>pf_locked := True\<rparr>) t)"
    have s: "inside i t t1" unfolding t1_def by (rule insideI, rule tstep.mutex [OF assms(1,2) True ok(1)]) simp
    have pc: "sh_pc t1 i = Mutex p" "sh_pfs t1 p = Some (pf\<lparr>pf_locked := True\<rparr>)" by (simp_all add: t1_def)
    have t1: "same_table t t1" "sh_info t1 = sh_info t" "(sh_pfs t1)(p \<mapsto> x) = (sh_pfs t)(p \<mapsto> x)" for x
      by (simp_all add: t1_def same_table_def put_pf_def go_def)
    show ?thesis
    proof (cases "pf_failed_once pf")
      case spent: True
      have same: "pf\<lparr>pf_locked := True, pf_locked := False\<rparr> = pf" using ok(1) by (cases pf) simp
      have "inside i t1 (go i (Leave 0) (put_pf p pf t1))"
        by (rule insideI) (use tstep.spent [OF pc] spent in \<open>simp_all add: same\<close>)
      with s have "(inside i)\<^sup>*\<^sup>* t (go i (Leave 0) (put_pf p pf t1))" by simp
      moreover have "pf' = pf" "\<not> b" using True spent assms(4) by (simp_all add: pf_step_def)
      ultimately show ?thesis using t1
        by (intro exI [of _ "go i (Leave 0) (put_pf p pf t1)"]) (simp add: same_table_def put_pf_def)
    next
      case fresh: False
      have step: "b = b1" "pf' = (if b1 then pf1\<lparr>pf_failed_once := True\<rparr> else pf1)"
        using True fresh assms(4) d by (auto simp: pf_step_def split: if_splits)
      have nums: "b1 \<Longrightarrow> pf_failnum pf' = pf_failnum pf1 \<and> pf_failinfo pf' = pf_failinfo pf1" using step(2) by simp
      from steps_mutex [OF pc dec True ok(1) fresh] obtain t' where t': "(inside i)\<^sup>*\<^sup>* t1 t'" "same_table t1 t'"
          "sh_pc t' i = Leave (if b then pf_failnum pf' else 0)" "sh_pfs t' = (sh_pfs t)(p \<mapsto> pf')"
          "sh_info t' i = (if b then pf_failinfo pf' else sh_info t i)"
        unfolding step t1(2,3) by (auto split: if_splits)
      have "same_table t t'" using t'(2) t1(1) by (simp add: same_table_def)
      with converse_rtranclp_into_rtranclp [where r = "inside i", OF s t'(1)] t'(3-5) show ?thesis by blast
    qed
  qed
qed

lemma tab_of_cache [simp]: "tab_of (w\<lparr>wcache := c\<rparr>) = tab_of w"
  by (simp add: tab_of_def fun_eq_iff)

lemma fail_served:
  assumes "fiu_ready s" and "env_ok env" and "sees i s t" and "fiu_fail env name s = Some (r, s')"
  shows "\<exists>t1 t2 t3. tstep i t t1 \<and> sh_pc t1 i = Enter name \<and> (inside i)\<^sup>*\<^sup>* t1 t2 \<and> sh_pc t2 i = Leave r \<and> tstep i t2 t3 \<and> sees i s' t3
    \<and> bt_works s' = bt_works s"
proof -
  have e: "callbacks_keep_onetime env" "e_mem env = mem_ok" using assms(2) by (simp_all add: env_ok_def)
  obtain w where w: "enabled_fails s = Ptr w" "sh_tab t = tab_of w" "table_pfs w (pfs s)" "fiu_inv s"
    using assms(1,3) by (auto simp: sees_def fiu_ready_at_def fiu_at_def split: ptr.splits)
  from assms(3) have t: "sh_pc t i = Idle" "sh_rec t i = 0" "sh_writer t = None" "sh_readers t = {}" "sh_info t i = last_failinfo s"
      "sh_pfs t = pfs s" "sh_next t = next_pf s" by (simp_all add: sees_def)
  define t1 where "t1 = go i (Enter name) (t\<lparr>sh_rec := (sh_rec t)(i := 1)\<rparr>)"
  define t2 where "t2 = go i (Lookup name) (t1\<lparr>sh_readers := insert i (sh_readers t1)\<rparr>)"
  have s1: "tstep i t t1" unfolding t1_def by (rule tstep.call [OF t(1,2)])
  have s2: "inside i t1 t2" unfolding t2_def by (rule insideI, rule tstep.rlock) (simp_all add: t1_def t(3))
  have pc: "sh_pc t1 i = Enter name" "sh_pc t2 i = Lookup name" by (simp_all add: t1_def t2_def)
  have t2: "sh_tab t2 = tab_of w" "sh_pfs t2 = pfs s" "sh_info t2 i = last_failinfo s" "sh_next t2 = next_pf s" "sh_writer t2 = None"
      "sh_readers t2 = {i}" by (simp_all add: t2_def t1_def t w(2))
  have last: "tstep i u (go i Idle (u\<lparr>sh_readers := sh_readers u - {i}, sh_rec := (sh_rec u)(i := 0)\<rparr>))"
    "sees i x (go i Idle (u\<lparr>sh_readers := sh_readers u - {i}, sh_rec := (sh_rec u)(i := 0)\<rparr>))"
    if "sh_pc u i = Leave r" "same_table t2 u" "sh_pfs u = pfs x" "sh_info u i = last_failinfo x" "enabled_fails x = Ptr (w\<lparr>wcache := c\<rparr>)"
      "next_pf x = next_pf s" for u x c
    using tstep.leave [OF that(1)] that t2 by (simp_all add: sees_def same_table_def)
  from fiu_fail_run [OF w(4,1) e] obtain c where
    run: "fiu_fail env name s = Some (case wtable_answer w name of NULL \<Rightarrow> (0, s\<lparr>enabled_fails := Ptr (w\<lparr>wcache := c\<rparr>)\<rparr>)
      | Ptr p \<Rightarrow> after_step env p (w\<lparr>wcache := c\<rparr>) s)" by blast
  note find = finds_answer [OF w(3), of name]
  show ?thesis
  proof (cases "wtable_answer w name")
    case NULL
    define u where "u = go i (Leave 0) t2"
    from NULL find have "inside i t2 u" unfolding u_def by (intro insideI tstep.not_found [OF pc(2)]) (simp_all add: t2(1))
    with s2 have chain: "(inside i)\<^sup>*\<^sup>* t1 u" by simp
    have r: "r = 0" "s' = s\<lparr>enabled_fails := Ptr (w\<lparr>wcache := c\<rparr>)\<rparr>" using run NULL assms(4) by simp_all
    have "sh_pc u i = Leave r" "same_table t2 u" "sh_pfs u = pfs s'" "sh_info u i = last_failinfo s'"
      by (simp_all add: u_def r same_table_def t2)
    moreover have "enabled_fails s' = Ptr (w\<lparr>wcache := c\<rparr>)" "next_pf s' = next_pf s" "bt_works s' = bt_works s" by (simp_all add: r(2))
    ultimately show ?thesis using last [of u s' c] chain s1 pc(1) by blast
  next
    case (Ptr p)
    obtain pf where pf: "pfs s p = Some pf" "pf_ok pf" using table_pfs_answer [OF w(3) Ptr] by blast
    obtain b pf' g' where st: "pf_step env pf (gen s) = (b, pf', g')" by (metis prod.exhaust)
    define t4 where "t4 = go i (Found p) t2"
    from Ptr find have s4: "inside i t2 t4" unfolding t4_def by (intro insideI tstep.found [OF pc(2)]) (simp_all add: t2(1))
    have f4: "sh_pc t4 i = Found p" "sh_pfs t4 p = Some pf" "same_table t2 t4" "sh_pfs t4 = pfs s" "sh_info t4 i = last_failinfo s"
      by (simp_all add: t4_def t2 pf same_table_def)
    from steps_found [OF f4(1,2) pf(2) st e(1)] obtain u where u: "(inside i)\<^sup>*\<^sup>* t4 u" "same_table t4 u"
        "sh_pc u i = Leave (if b then pf_failnum pf' else 0)" "sh_pfs u = (pfs s)(p \<mapsto> pf')"
        "sh_info u i = (if b then pf_failinfo pf' else last_failinfo s)" unfolding f4(4,5) by blast
    have r: "r = (if b then pf_failnum pf' else 0)" "s' = s\<lparr>enabled_fails := Ptr (w\<lparr>wcache := c\<rparr>), pfs := (pfs s)(p \<mapsto> pf'), gen := g',
        last_failinfo := if b then pf_failinfo pf' else last_failinfo s\<rparr>"
      using run Ptr assms(4) st pf(1) by (simp_all add: after_step_def)
    have chain: "(inside i)\<^sup>*\<^sup>* t1 u"
      by (rule converse_rtranclp_into_rtranclp [where r = "inside i", OF s2 converse_rtranclp_into_rtranclp [where r = "inside i", OF s4 u(1)]])
    have "sh_pc u i = Leave r" "same_table t2 u" "sh_pfs u = pfs s'" "sh_info u i = last_failinfo s'"
      using u f4(3) by (simp_all add: r same_table_def)
    moreover have "enabled_fails s' = Ptr (w\<lparr>wcache := c\<rparr>)" "next_pf s' = next_pf s" "bt_works s' = bt_works s" by (simp_all add: r(2))
    ultimately show ?thesis using last [of u s' c] chain s1 pc(1) by blast
  qed
qed

subsection \<open>Enabling and disabling\<close>

text \<open>The four steps of a writer.\<close>

definition writes :: "nat \<Rightarrow> write_op \<Rightarrow> shared \<Rightarrow> shared \<Rightarrow> bool" where
  "writes i w t t' \<longleftrightarrow> (\<exists>t1 t2 t3. tstep i t t1 \<and> sh_pc t1 i = Want w \<and> tstep i t1 t2 \<and> sh_pc t2 i = Write w
     \<and> tstep i t2 t3 \<and> sh_pc t3 i = Written \<and> tstep i t3 t')"

lemma served_write: "request env c b = (Some w, b') \<Longrightarrow> writes i w t t' \<Longrightarrow> served i t b env c (write_result w t) t' b'"
  unfolding writes_def by (auto intro: served.written)

lemma writes_served:
  assumes "sees i s t" and "fresh_op op"
  shows "\<exists>t'. writes i op t t' \<and> sh_pc t' i = Idle \<and> sh_rec t' i = 0 \<and> sh_writer t' = None \<and> sh_readers t' = {} \<and> sh_info t' i = sh_info t i
    \<and> sh_pfs t' = sh_pfs (write_pf op t) \<and> sh_next t' = sh_next (write_pf op t) \<and> sh_tab t' = sh_tab (write_pf op t)"
proof -
  from assms(1) have t: "sh_pc t i = Idle" "sh_rec t i = 0" "sh_writer t = None" "sh_readers t = {}" by (simp_all add: sees_def)
  define t1 where "t1 = go i (Want op) (t\<lparr>sh_rec := (sh_rec t)(i := 1)\<rparr>)"
  define t2 where "t2 = go i (Write op) (t1\<lparr>sh_writer := Some i\<rparr>)"
  define t3 where "t3 = go i Written (write_pf op t2)"
  define t4 where "t4 = go i Idle (t3\<lparr>sh_writer := None, sh_rec := (sh_rec t3)(i := 0)\<rparr>)"
  have "tstep i t t1" unfolding t1_def by (rule tstep.want [OF t(1,2) assms(2)])
  moreover have "tstep i t1 t2" unfolding t2_def by (rule tstep.wlock) (simp_all add: t1_def t)
  moreover have "tstep i t2 t3" unfolding t3_def by (rule tstep.update) (simp add: t2_def)
  moreover have "tstep i t3 t4" unfolding t4_def by (rule tstep.wunlock) (simp add: t3_def)
  moreover have "sh_pc t1 i = Want op" "sh_pc t2 i = Write op" "sh_pc t3 i = Written" by (simp_all add: t1_def t2_def t3_def)
  ultimately have "writes i op t t4" unfolding writes_def by blast
  moreover have "sh_info (write_pf op u) = sh_info u" "sh_pfs (write_pf op t2) = sh_pfs (write_pf op t)"
    "sh_next (write_pf op t2) = sh_next (write_pf op t)" "sh_tab (write_pf op t2) = sh_tab (write_pf op t)" for u
    by (cases op; simp add: store_pf_def drop_pf_def t2_def t1_def go_def split: option.splits)+
  ultimately show ?thesis by (intro exI [of _ t4]) (simp add: t4_def t3_def t, simp add: t2_def t1_def t)
qed

lemma drop_old_tab: "drop_old w name m = (case tab_of w name of None \<Rightarrow> m | Some q \<Rightarrow> m(q := None))"
  by (simp add: drop_old_def tab_of_def split: option.splits ptr.splits)

lemma create_served:
  assumes "fiu_ready s" and "env_ok env" and "sees i s t" and "name \<noteq> []" and "pf_typed (new_pf name n j f me mi)"
    and "create_and_insert env name n j f me mi s = Some (r, s')"
  shows "\<exists>t'. writes i (W_set name (new_pf name n j f me mi)) t t' \<and> r = 0 \<and> bt_works s' = bt_works s \<and> sees i s' t'"
proof -
  let ?pf = "new_pf name n j f me mi"
  obtain w where w: "enabled_fails s = Ptr w" "sh_tab t = tab_of w" "fiu_inv s" "e_mem env = mem_ok" "sh_pfs t = pfs s" "sh_next t = next_pf s"
      "sh_info t i = last_failinfo s"
    using assms(1-3) by (auto simp: sees_def fiu_ready_at_def env_ok_def split: ptr.splits)
  from create_and_insert_run [OF w(3,1) assms(4) w(4) refl assms(5)] assms(6) obtain w' where
    s': "r = 0" "s' = s\<lparr>enabled_fails := Ptr w', pfs := (drop_old w name (pfs s))(next_pf s \<mapsto> ?pf), next_pf := next_pf s + 1\<rparr>"
      "wtable_abs w' = (wtable_abs w)(name \<mapsto> Ptr (next_pf s))" by auto
  let ?op = "W_set name ?pf"
  have "tab_of w' = (tab_of w)(name \<mapsto> next_pf s)" by (simp add: tab_of_def s'(3) fun_eq_iff)
  then have eff: "sh_pfs (write_pf ?op t) = pfs s'" "sh_next (write_pf ?op t) = next_pf s'" "sh_tab (write_pf ?op t) = tab_of w'"
    by (simp_all add: store_pf_def drop_old_tab s'(2) w cong: option.case_cong)
  have "fresh_op ?op" by simp
  from writes_served [OF assms(3) this] show ?thesis unfolding eff by (auto simp: sees_def s'(1,2) w(7))
qed

lemma disable_served:
  assumes "fiu_ready s" and "env_ok env" and "sees i s t" and "name \<noteq> []" and "fiu_disable env name s = Some (r, s')"
  shows "\<exists>t'. writes i (W_del name) t t' \<and> r = write_result (W_del name) t \<and> bt_works s' = bt_works s \<and> sees i s' t'"
proof -
  obtain w where w: "enabled_fails s = Ptr w" "sh_tab t = tab_of w" "fiu_inv s" "e_mem env = mem_ok" "sh_pfs t = pfs s" "sh_next t = next_pf s"
      "sh_info t i = last_failinfo s" "table_pfs w (pfs s)"
    using assms(1-3) by (auto simp: sees_def fiu_ready_at_def fiu_at_def env_ok_def split: ptr.splits)
  from fiu_disable_run [OF w(3,1) assms(4) w(4)] assms(5) obtain w' where
    s': "r = (if wtable_abs w name = None then -1 else 0)" "s' = s\<lparr>enabled_fails := Ptr w', pfs := drop_old w name (pfs s)\<rparr>"
      "wtable_abs w' = (wtable_abs w)(name := None)" by auto
  have tab: "tab_of w' = (tab_of w)(name := None)" by (simp add: tab_of_def s'(3) fun_eq_iff)
  have r: "r = write_result (W_del name) t" by (simp add: s'(1) w(2) tab_of_None [OF w(8)])
  have "tab_of w name = None \<Longrightarrow> (tab_of w)(name := None) = tab_of w" by (simp add: fun_upd_idem)
  with tab have eff: "sh_pfs (write_pf (W_del name) t) = pfs s'" "sh_next (write_pf (W_del name) t) = next_pf s'"
      "sh_tab (write_pf (W_del name) t) = tab_of w'"
    by (cases "tab_of w name"; simp add: drop_pf_def drop_old_tab s'(2) w)+
  have "fresh_op (W_del name)" by simp
  from writes_served [OF assms(3) this] r show ?thesis unfolding eff by (auto simp: sees_def s'(2) w(7))
qed

subsection \<open>Any call\<close>

lemma sees_update [simp]: "sees i (s\<lparr>bt_works := b\<rparr>) t = sees i s t" "sees i (s\<lparr>gen := g\<rparr>) t = sees i s t"
  by (simp_all add: sees_def)

text \<open>A call that makes a request or is refused.\<close>

definition requested :: "nat \<Rightarrow> shared \<Rightarrow> write_op option \<times> int \<Rightarrow> int \<Rightarrow> fiu \<Rightarrow> bool" where
  "requested i t rq r s' \<longleftrightarrow> (case rq of
       (None, b) \<Rightarrow> r = -1 \<and> bt_works s' = b \<and> sees i s' t
     | (Some w, b) \<Rightarrow> \<exists>t'. writes i w t t' \<and> r = write_result w t \<and> bt_works s' = b \<and> sees i s' t')"

lemma stack_served:
  assumes "fiu_ready s" and "env_ok env" and "sees i s t" and "name \<noteq> []" and "fiu_enable_stack env name n j f func pos s = Some (r, s')"
  shows "requested i t (stack_request env name n j f func pos (bt_works s)) r s'"
proof -
  have "fiu_ready (s\<lparr>bt_works := b\<rparr>)" "sees i (s\<lparr>bt_works := b\<rparr>) t" for b using assms(1,3) by (simp_all add: ready_update)
  then have "\<exists>t'. writes i (W_set name (new_pf name n j f PF_STACK (M_stack x y z))) t t' \<and> r = 0 \<and> bt_works s' = b \<and> sees i s' t'"
    if "create_and_insert env name n j f PF_STACK (M_stack x y z) (s\<lparr>bt_works := b\<rparr>) = Some (r, s')" for x y z b
    using create_served [OF _ assms(2) _ assms(4) _ that] by simp
  with assms(3,5) show ?thesis
    by (auto simp: fiu_enable_stack_def stack_request_def requested_def Let_def split: if_splits)
qed

lemma stack_by_name_served:
  assumes "fiu_ready s" and "env_ok env" and "sees i s t" and "name \<noteq> []" and "fiu_enable_stack_by_name env name n j f fn pos s = Some (r, s')"
  shows "requested i t (request env (Enable_stack_by_name name n j f fn pos) (bt_works s)) r s'"
proof -
  have "fiu_ready (s\<lparr>bt_works := b\<rparr>)" "sees i (s\<lparr>bt_works := b\<rparr>) t" for b using assms(1,3) by (simp_all add: ready_update)
  from stack_served [OF this(1) assms(2) this(2) assms(4)] assms(3,5) show ?thesis
    by (auto simp: fiu_enable_stack_by_name_def Let_def requested_def [of _ _ "(None, _)"] split: if_splits)
qed

lemma request_served:
  assumes "fiu_ready s" and "env_ok env" and "call_name_ok c" and "sees i s t" and "do_call env c s = Some (r, s')"
    and "\<forall>name seed. c \<noteq> Fail name \<and> c \<noteq> Failinfo \<and> c \<noteq> Init \<and> c \<noteq> Set_seed seed"
  shows "requested i t (request env c (bt_works s)) r s'"
proof -
  note create = create_served [OF assms(1,2,4)]
  show ?thesis
  proof (cases c)
    case (Enable name n j f)
    with assms(3,5) create [OF _ typed_always(1)] show ?thesis by (simp add: requested_def fiu_enable_def)
  next
    case (Enable_random name n j f p)
    with assms(3,5) create [OF _ typed_always(2)] show ?thesis by (simp add: requested_def fiu_enable_random_def)
  next
    case (Enable_external name n j f cb)
    with assms(3,5) create [OF _ typed_always(3)] show ?thesis by (simp add: requested_def fiu_enable_external_def)
  next
    case (Disable name)
    with disable_served [OF assms(1,2,4)] assms(3,5) show ?thesis by (simp add: requested_def)
  next
    case (Enable_stack name n j f func pos)
    with stack_served [OF assms(1,2,4)] assms(3,5) show ?thesis by simp
  next
    case (Enable_stack_by_name name n j f fn pos)
    with stack_by_name_served [OF assms(1,2,4)] assms(3,5) show ?thesis by simp
  qed (use assms(6) in blast)+
qed

lemma request_None: "request env c b = (None, b') \<Longrightarrow> \<forall>name seed. c \<noteq> Fail name \<and> c \<noteq> Failinfo \<and> c \<noteq> Init \<and> c \<noteq> Set_seed seed \<Longrightarrow>
    \<exists>name n j f func fname pos. c = Enable_stack name n j f func pos \<or> c = Enable_stack_by_name name n j f fname pos"
  by (cases c) auto

lemma call_served:
  assumes "fiu_ready s" and "env_ok env" and "call_name_ok c" and "sees i s t" and "do_call env c s = Some (r, s')"
  shows "\<exists>t'. served i t (bt_works s) env c r t' (bt_works s') \<and> sees i s' t'"
proof -
  consider (fail) name where "c = Fail name" | (info) "c = Failinfo" | (init) "c = Init" | (seed) seed where "c = Set_seed seed"
    | (request) "\<forall>name seed. c \<noteq> Fail name \<and> c \<noteq> Failinfo \<and> c \<noteq> Init \<and> c \<noteq> Set_seed seed" by blast
  then show ?thesis
  proof cases
    case fail
    with assms(5) have run: "fiu_fail env name s = Some (r, s')" by simp
    from fail_served [OF assms(1,2,4) run] obtain t1 t2 t3 where
      st: "tstep i t t1" "sh_pc t1 i = Enter name" "(inside i)\<^sup>*\<^sup>* t1 t2" "sh_pc t2 i = Leave r" "tstep i t2 t3" "sees i s' t3"
      "bt_works s' = bt_works s" by blast
    from served.asked [OF st(1-5)] st(6,7) fail show ?thesis by auto
  next
    case info
    with assms(5) have "r = uint (last_failinfo s)" "s' = s" by (auto simp: fiu_failinfo_def split: if_splits)
    with assms(4) info served.info [of i t "bt_works s" env] show ?thesis by (auto simp: sees_def)
  next
    case init
    with assms(4,5) fiu_init_again [OF assms(1), of env] served.idle [of c _ i t] show ?thesis by auto
  next
    case seed
    with assms(4,5) served.idle [of c seed i t] show ?thesis by (intro exI [of _ t]) auto
  next
    case request
    note rq = request_served [OF assms request]
    obtain w b where w: "request env c (bt_works s) = (w, b)" by (cases "request env c (bt_works s)")
    show ?thesis
    proof (cases w)
      case None
      from request_None [OF w [unfolded None] request] have "served i t (bt_works s) env c (-1) t b"
        using served.refused [OF w [unfolded None]] by blast
      then show ?thesis using rq None w by (intro exI [of _ t]) (simp add: requested_def)
    next
      case (Some op)
      with rq w served_write [of env c "bt_works s" op b i t] show ?thesis by (auto simp: requested_def)
    qed
  qed
qed

text \<open>Property C12: The model of threads has every behaviour of the sequential one. From states that agree, any sequence of API calls is an execution of one
  thread, call by call and with the same results: each \<open>fiu_fail\<close> enters with its name and leaves with its result; each call that enables or disables is the four steps of a
  writer that stores or removes exactly the point of failure that its arguments describe, and returns 0, or -1 for a disabled name that was not
  there; a failure by stack that cannot be had is refused with -1 and changes nothing; \<open>fiu_failinfo\<close> returns what the thread's last failure left. At the
  end the thread sees the same table, points of failure and failure information, and if it began in a state that threads can reach, it ends in one.\<close>

theorem calls_are_executions:
  assumes "fiu_ready s" and "sees i s t" and "\<forall>(env, c)\<in>set cs. env_ok env \<and> call_name_ok c" and "do_calls cs s = Some (rs, s')"
  shows "\<exists>t'. serves i t (bt_works s) (zip cs rs) t' (bt_works s') \<and> length rs = length cs \<and> sees i s' t' \<and> (reachable t \<longrightarrow> reachable t')"
proof -
  have "\<exists>t'. serves i t (bt_works s) (zip cs rs) t' (bt_works s') \<and> length rs = length cs \<and> sees i s' t'"
    using assms
  proof (induction cs arbitrary: s t rs)
    case Nil
    then show ?case by (auto intro: serves.no_call)
  next
    case (Cons ec cs)
    obtain env c where ec: "ec = (env, c)" by (cases ec)
    from Cons.prems(3) ec have ok: "env_ok env" "call_name_ok c" "\<forall>(env, c)\<in>set cs. env_ok env \<and> call_name_ok c" by simp_all
    from do_call_ready [OF Cons.prems(1) ok(1,2)] obtain r s1 where s1: "do_call env c s = Some (r, s1)" "fiu_ready s1" by blast
    from Cons.prems(4) ec s1(1) obtain rs' where rs: "rs = r # rs'" "do_calls cs s1 = Some (rs', s')" by (auto simp: bind_eq_Some)
    from call_served [OF Cons.prems(1) ok(1,2) Cons.prems(2) s1(1)] obtain t1 where
      t1: "served i t (bt_works s) env c r t1 (bt_works s1)" "sees i s1 t1" by blast
    from Cons.IH [OF s1(2) t1(2) ok(3) rs(2)] obtain t' where
      "serves i t1 (bt_works s1) (zip cs rs') t' (bt_works s')" "length rs' = length cs" "sees i s' t'" by blast
    with serves.one_call [OF t1(1)] ec rs(1) show ?case by auto
  qed
  then show ?thesis using serves_steps reachable_steps by blast
qed

lemma sees_start:
  obtains s where "fiu_init quiet_env fiu_start = Some (0, s)" and "fiu_ready s" and "sees i s threads_start"
proof -
  obtain t :: "nat wtable" where t: "wtable_create True True True True True True True (e_junk quiet_env) (Ptr plain_destructor) = Ptr t"
    by (rule new_wtable)
  obtain s where s: "fiu_init quiet_env fiu_start = Some (0, s)" "fiu_ready s" by (rule quiet_start)
  from t s(1) have "enabled_fails s = Ptr t" "last_failinfo s = 0" "pfs s = Map.empty" "next_pf s = 0"
    by (auto simp: fiu_init_def quiet_env_def rec_inc_def ef_wlock_def ef_unlock_def rec_dec_def fiu_start_def Let_def)
  moreover have "tab_of t = Map.empty" using wtable_create_inv(2) [OF t] by (simp add: tab_of_def fun_eq_iff)
  ultimately have "sees i s threads_start" by (simp add: sees_def threads_start_def)
  with s show ?thesis using that by blast
qed

theorem calls_are_executions_witness:
  "\<exists>s s' t' x y z. fiu_init quiet_env fiu_start = Some (0, s)
    \<and> do_calls [(quiet_env, Enable ''a'' 7 5 FIU_ONETIME), (quiet_env, Fail ''a''), (quiet_env, Disable ''a'')] s = Some ([x, y, z], s')
    \<and> serves 1 threads_start (bt_works s) [((quiet_env, Enable ''a'' 7 5 FIU_ONETIME), x), ((quiet_env, Fail ''a''), y),
         ((quiet_env, Disable ''a''), z)] t' (bt_works s') \<and> reachable t' \<and> sees 1 s' t'"
proof -
  let ?cs = "[(quiet_env, Enable ''a'' 7 5 FIU_ONETIME), (quiet_env, Fail ''a''), (quiet_env, Disable ''a'')]"
  obtain s where s: "fiu_init quiet_env fiu_start = Some (0, s)" "fiu_ready s" "sees 1 s threads_start" by (rule sees_start)
  have ok: "\<forall>(env, c)\<in>set ?cs. env_ok env \<and> call_name_ok c" using quiet_env_ok(1) by simp
  from do_calls_ready [OF s(2) ok] obtain rs s' where run: "do_calls ?cs s = Some (rs, s')" by blast
  from calls_are_executions [OF s(2,3) ok run] reachable.start obtain t' where
    t': "serves 1 threads_start (bt_works s) (zip ?cs rs) t' (bt_works s')" "length rs = 3" "sees 1 s' t'" "reachable t'" by auto
  obtain x y z where "rs = [x, y, z]" using t'(2) by (auto simp: numeral_3_eq_3 length_Suc_conv)
  with s(1) run t' show ?thesis by auto
qed

end
