(* ===== verification/Rc.thy ===== *)
theory Rc
  imports Fiu_API
begin

text \<open>
  The remote control of libfiu/fiu-rc.c: reading a line, executing the command in it, and the thread that
  serves a pair of named pipes. What the system calls return is an argument: a file descriptor
  is the list of what the coming calls of \<open>read\<close> return, at its end \<open>read\<close> returns 0.
\<close>

definition MAX_LINE :: nat where "MAX_LINE = 512"

subsection \<open>Reading a line\<close>

datatype read_result = Byte char | End_of_file | Read_error

text \<open>The loop of \<open>read_line\<close>: \<open>n\<close> is what \<open>len\<close> lacks to \<open>MAX_LINE\<close>, \<open>buf\<close> what has been stored. The
  result is NULL if a \<open>read\<close> has failed.\<close>

fun read_loop :: "nat \<Rightarrow> read_result list \<Rightarrow> string \<Rightarrow> string ptr \<times> read_result list" where
  "read_loop 0 fd buf = (Ptr buf, fd)"
| "read_loop (Suc n) [] buf = (Ptr buf, [])"
| "read_loop (Suc n) (r # fd) buf =
     (case r of
        Read_error \<Rightarrow> (NULL, fd)
      | End_of_file \<Rightarrow> (Ptr buf, fd)
      | Byte c \<Rightarrow> if c \<noteq> CHR 0x0A \<and> c \<noteq> CHR 0x00 then read_loop n fd (buf @ [c]) else (Ptr (buf @ [c]), fd))"

text \<open>The length that is returned, the characters in the buffer (a final newline is overwritten by a zero
  byte), and what is left to read.\<close>

definition read_line :: "read_result list \<Rightarrow> int \<times> string \<times> read_result list" where
  "read_line fd = (case read_loop MAX_LINE fd [] of
       (NULL, fd') \<Rightarrow> (-1, [], fd')
     | (Ptr buf, fd') \<Rightarrow>
         if buf \<noteq> [] \<and> last buf = CHR 0x0A then (int (length buf) - 1, butlast buf, fd') else (int (length buf), buf, fd'))"

text \<open>The C string that begins with the buffer.\<close>

definition c_string :: "string \<Rightarrow> string" where
  "c_string buf = takeWhile (\<lambda>c. c \<noteq> CHR 0x00) buf"

subsection \<open>Commands\<close>

record rc_params =
  p_name :: "string ptr"
  p_failnum :: int
  p_failinfo :: addr
  p_flags :: "32 word"
  p_probability :: rat
  p_func_name :: "string ptr"
  p_func_pos :: int

definition rc_defaults :: rc_params where
  "rc_defaults = \<lparr>p_name = NULL, p_failnum = 1, p_failinfo = 0, p_flags = 0, p_probability = -1, p_func_name = NULL, p_func_pos = -1\<rparr>"

definition rc_tokens :: "string list" where
  "rc_tokens = [''name'', ''failnum'', ''failinfo'', ''probability'', ''func_name'', ''pos_in_stack'', ''onetime'']"

text \<open>One turn of the \<open>switch\<close>; \<open>Inl\<close> is the default branch.\<close>

definition rc_param :: "nat option \<Rightarrow> string ptr \<Rightarrow> rc_params \<Rightarrow> (string + rc_params) option" where
  "rc_param tok value ps =
     (if tok = Some 0 then Some (Inr (ps\<lparr>p_name := value\<rparr>))
      else if tok = Some 1 then map_option (\<lambda>n. Inr (ps\<lparr>p_failnum := n\<rparr>)) (atoi value)
      else if tok = Some 2 then map_option (\<lambda>n. Inr (ps\<lparr>p_failinfo := n\<rparr>)) (strtoul value)
      else if tok = Some 3 then map_option (\<lambda>q. Inr (ps\<lparr>p_probability := q\<rparr>)) (strtod value)
      else if tok = Some 4 then Some (Inr (ps\<lparr>p_func_name := value\<rparr>))
      else if tok = Some 5 then map_option (\<lambda>n. Inr (ps\<lparr>p_func_pos := n\<rparr>)) (atoi value)
      else if tok = Some 6 then Some (Inr (ps\<lparr>p_flags := p_flags ps OR FIU_ONETIME\<rparr>))
      else Some (Inl ''Unknown parameter''))"

lemma getsubopt_rest: "(tok, value, rest) = getsubopt tokens opts \<Longrightarrow> opts \<noteq> [] \<Longrightarrow> length rest < length opts"
  using getsubopt_shorter [of opts tokens] by (simp add: prod_eq_iff)

function parse_params :: "string \<Rightarrow> rc_params \<Rightarrow> (string + rc_params) option" where
  "parse_params opts ps =
     (if opts = [] then Some (Inr ps)
      else case getsubopt rc_tokens opts of (tok, value, rest) \<Rightarrow>
        (case rc_param tok value ps of
           None \<Rightarrow> None
         | Some (Inl e) \<Rightarrow> Some (Inl e)
         | Some (Inr ps') \<Rightarrow> parse_params rest ps'))"
  by pat_completeness auto
termination
  by (relation "measure (\<lambda>(opts, ps). length opts)") (auto dest: getsubopt_rest)

declare parse_params.simps [simp del]

text \<open>What the enabling functions do when they get NULL for the name: the point of failure is allocated before the name is copied.\<close>

definition enable_null :: "env \<Rightarrow> fiu \<Rightarrow> (int \<times> fiu) option" where
  "enable_null env s = (if e_mem env A_pf then None else Some (-1, s))"

definition rc_enable_stack_by_name ::
  "env \<Rightarrow> string ptr \<Rightarrow> int \<Rightarrow> addr \<Rightarrow> 32 word \<Rightarrow> string ptr \<Rightarrow> int \<Rightarrow> fiu \<Rightarrow> (int \<times> fiu) option" where
  "rc_enable_stack_by_name env name failnum failinfo flags func pos s =
     (case (name, func) of
        (Ptr n, Ptr f) \<Rightarrow> fiu_enable_stack_by_name env n failnum failinfo flags f pos s
      | _ \<Rightarrow>
        let pl = e_plat env; s1 = s\<lparr>bt_works := backtrace_works pl (e_self_stack_by_name env) (bt_works s)\<rparr>
        in if bt_works s1 = 0 then Some (-1, s1)
           else do {
             f \<leftarrow> deref func;
             let fp = get_func_addr pl f;
             if fp = 0 \<or> pos \<noteq> -1 \<or> get_func_end pl fp = 0 \<and> get_func_start pl fp = 0 then Some (-1, s1)
             else enable_null env s1 })"

text \<open>The execution of a command: the result, the message that \<open>*error\<close> points to, the state.\<close>

definition rc_execute :: "env \<Rightarrow> string \<Rightarrow> rc_params \<Rightarrow> fiu \<Rightarrow> (int \<times> string \<times> fiu) option" where
  "rc_execute env command ps s =
     (let failed = (\<lambda>error. map_option (\<lambda>(r :: int, s' :: fiu). (r, error, s'))) in
      if command = ''disable'' then
        failed ''Error in disable'' (do { n \<leftarrow> deref (p_name ps); fiu_disable env n s })
      else if command = ''enable'' then
        failed ''Error in enable'' (case p_name ps of NULL \<Rightarrow> enable_null env s
          | Ptr n \<Rightarrow> fiu_enable env n (p_failnum ps) (p_failinfo ps) (p_flags ps) s)
      else if command = ''enable_random'' then
        failed ''Error in enable_random'' (case p_name ps of NULL \<Rightarrow> enable_null env s
          | Ptr n \<Rightarrow> fiu_enable_random env n (p_failnum ps) (p_failinfo ps) (p_flags ps) (to_float (p_probability ps)) s)
      else if command = ''enable_stack_by_name'' then
        failed ''Error in enable_stack_by_name'' (rc_enable_stack_by_name env (p_name ps) (p_failnum ps) (p_failinfo ps)
          (p_flags ps) (p_func_name ps) (p_func_pos ps) s)
      else Some (-1, ''Unknown command'', s))"

definition fiu_rc_string :: "env \<Rightarrow> string \<Rightarrow> fiu \<Rightarrow> (int \<times> string \<times> fiu) option" where
  "fiu_rc_string env cmd s =
     (let m_cmd = strncpy (MAX_LINE - 1) cmd; delim = [CHR '' '', CHR 0x09] in
      case strtok delim m_cmd of
        None \<Rightarrow> Some (-1, ''Cannot get command'', s)
      | Some (command, state) \<Rightarrow>
          (case strtok delim state of
             None \<Rightarrow> Some (-1, ''Cannot get parameters'', s)
           | Some (parameters, state') \<Rightarrow> do {
               p \<leftarrow> parse_params parameters rc_defaults;
               case p of
                 Inl error \<Rightarrow> Some (-1, error, s)
               | Inr ps \<Rightarrow> rc_execute env command ps s }))"

text \<open>\<open>w\<close> is what \<open>write\<close> returns when it is given a reply. The result: what the function returns, the
  reply (if one was written), what is left to read, the state.\<close>

definition rc_do_command :: "env \<Rightarrow> (string \<Rightarrow> int) \<Rightarrow> read_result list \<Rightarrow> fiu
    \<Rightarrow> (int \<times> string option \<times> read_result list \<times> fiu) option" where
  "rc_do_command env w fdr s =
     (case read_line fdr of (len, buf, fdr') \<Rightarrow>
        if len \<le> 0 then Some (len, None, fdr', s)
        else do {
          (r, error, s') \<leftarrow> fiu_rc_string env (c_string buf) s;
          let reply = take (MAX_LINE - 1) (dec_int r @ [CHR 0x0A]);
          let r' = w reply;
          Some (if r' \<le> 0 then r' else len, Some reply, fdr', s') })"

subsection \<open>The thread\<close>

text \<open>One opening of the two pipes: what the two calls of \<open>open\<close> return, what can be read, and for each
  command in turn what \<open>write\<close> returns and whether \<open>errno\<close> is \<open>EPIPE\<close> when the command has ended.\<close>

record session =
  s_open_in :: int
  s_open_out :: int
  s_input :: "read_result list"
  s_calls :: "(env \<times> (string \<Rightarrow> int) \<times> bool) list"

datatype loop_end = Waiting | Closed | Failed

text \<open>The \<open>for\<close> loop; it waits for the next command when the calls of the session are used up.\<close>

fun rc_loop :: "(env \<times> (string \<Rightarrow> int) \<times> bool) list \<Rightarrow> read_result list \<Rightarrow> fiu \<Rightarrow> (loop_end \<times> string list \<times> fiu) option" where
  "rc_loop [] fdr s = Some (Waiting, [], s)"
| "rc_loop ((env, w, epipe) # calls) fdr s = do {
     (r, reply, fdr', s1) \<leftarrow> rc_do_command env w fdr s;
     let rs = (case reply of None \<Rightarrow> [] | Some x \<Rightarrow> [x]);
     if r < 0 \<and> \<not> epipe then Some (Failed, rs, s1)
     else if r = 0 \<or> (r < 0 \<and> epipe) then Some (Closed, rs, s1)
     else do {
       (e, rs', s2) \<leftarrow> rc_loop calls fdr' s1;
       Some (e, rs @ rs', s2) } }"

datatype thread_state = Serving | Ended

fun rc_reopen :: "session list \<Rightarrow> int \<Rightarrow> fiu \<Rightarrow> (thread_state \<times> int \<times> string list \<times> fiu) option" where
  "rc_reopen [] errcount s = Some (if errcount > 10 then Ended else Serving, errcount, [], s)"
| "rc_reopen (ses # rest) errcount s =
     (if errcount > 10 then Some (Ended, errcount, [], s)
      else if s_open_in ses < 0 then Some (Ended, errcount, [], s)
      else if s_open_out ses < 0 then Some (Ended, errcount, [], s)
      else do {
        (e, rs, s1) \<leftarrow> rc_loop (s_calls ses) (s_input ses) s;
        case e of
          Waiting \<Rightarrow> Some (Serving, errcount, rs, s1)
        | _ \<Rightarrow> do {
            (t, n, rs', s2) \<leftarrow> rc_reopen rest (if e = Failed then errcount + 1 else errcount) s1;
            Some (t, n, rs @ rs', s2) } })"

text \<open>The recursion count of the thread is raised before it does anything.\<close>

definition rc_fifo_thread :: "session list \<Rightarrow> fiu \<Rightarrow> (thread_state \<times> int \<times> string list \<times> fiu) option" where
  "rc_fifo_thread sessions s = rc_reopen sessions 0 (rec_inc s)"

subsection \<open>Creating the pipes\<close>

text \<open>The static variables of the file and what the process has registered: \<open>pipe_files\<close> are the paths of the
  pipes that exist, \<open>serving\<close> counts the threads that were started, \<open>atexits\<close> and \<open>atforks\<close> the handlers.\<close>

record pipes =
  npipe_basename :: "string ptr"
  npipe_path_in :: "string ptr"
  npipe_path_out :: "string ptr"
  pipe_files :: "string list"
  serving :: nat
  atexits :: nat
  atforks :: nat

datatype mkfifo_result = Fifo_made | Fifo_exists | Fifo_error

text \<open>What the system answers: the two allocations, the process id, the two calls of \<open>mkfifo\<close>,
  \<open>pthread_create\<close>, and the copy of the basename.\<close>

record sys =
  sys_malloc_in :: bool
  sys_malloc_out :: bool
  sys_pid :: int
  sys_mkfifo_in :: mkfifo_result
  sys_mkfifo_out :: mkfifo_result
  sys_thread :: bool
  sys_strdup :: bool

text \<open>\<open>snprintf (path, strlen (basename) + 40, "%s-%d.in", basename, getpid ())\<close>\<close>

definition pipe_path :: "string \<Rightarrow> int \<Rightarrow> string \<Rightarrow> string" where
  "pipe_path base pid ext = take (length base + 39) (base @ ''-'' @ dec_int pid @ ext)"

definition mkfifo :: "mkfifo_result \<Rightarrow> string \<Rightarrow> pipes \<Rightarrow> pipes" where
  "mkfifo r path ps = (if r = Fifo_made then ps\<lparr>pipe_files := path # pipe_files ps\<rparr> else ps)"

definition unlink :: "string ptr \<Rightarrow> pipes \<Rightarrow> pipes" where
  "unlink p ps = (case p of NULL \<Rightarrow> ps | Ptr path \<Rightarrow> ps\<lparr>pipe_files := removeAll path (pipe_files ps)\<rparr>)"

definition fifo_atexit :: "pipes \<Rightarrow> pipes" where
  "fifo_atexit ps = unlink (npipe_path_out ps) (unlink (npipe_path_in ps) ps)"

text \<open>\<open>_fiu_rc_fifo\<close>\<close>

definition rc_fifo :: "sys \<Rightarrow> string \<Rightarrow> pipes \<Rightarrow> fiu \<Rightarrow> (int \<times> pipes \<times> fiu) option" where
  "rc_fifo sys base ps s =
     (let s1 = rec_inc s;
          p_in = pipe_path base (sys_pid sys) ''.in'';
          p_out = pipe_path base (sys_pid sys) ''.out''
      in if \<not> sys_malloc_in sys \<or> \<not> sys_malloc_out sys then None
         else
           let ps1 = mkfifo (sys_mkfifo_in sys) p_in (ps\<lparr>npipe_path_in := Ptr p_in, npipe_path_out := Ptr p_out\<rparr>)
           in if sys_mkfifo_in sys = Fifo_error then Some (-1, ps1, rec_dec s1)
              else
                let ps2 = mkfifo (sys_mkfifo_out sys) p_out ps1
                in if sys_mkfifo_out sys = Fifo_error then Some (-1, unlink (npipe_path_in ps2) ps2, rec_dec s1)
                   else if \<not> sys_thread sys then
                     Some (-1, unlink (npipe_path_out ps2) (unlink (npipe_path_in ps2) ps2), rec_dec s1)
                   else Some (0, ps2\<lparr>serving := serving ps2 + 1, atexits := atexits ps2 + 1\<rparr>, rec_dec s1))"

definition fifo_atfork_child :: "sys \<Rightarrow> pipes \<Rightarrow> fiu \<Rightarrow> (pipes \<times> fiu) option" where
  "fifo_atfork_child sys ps s = do {
     base \<leftarrow> deref (npipe_basename ps);
     (r, ps', s') \<leftarrow> rc_fifo sys base ps s;
     Some (ps', s') }"

definition fiu_rc_fifo :: "sys \<Rightarrow> string \<Rightarrow> pipes \<Rightarrow> fiu \<Rightarrow> (int \<times> pipes \<times> fiu) option" where
  "fiu_rc_fifo sys base ps s = do {
     (r, ps1, s1) \<leftarrow> rc_fifo sys base ps s;
     if r < 0 then Some (r, ps1, s1)
     else Some (r, ps1\<lparr>npipe_basename := (if sys_strdup sys then Ptr base else NULL), atforks := atforks ps1 + 1\<rparr>, s1) }"

end
