(* ===== verification/Rc_Correct.thy ===== *)
theory Rc_Correct
  imports Rc
begin

text \<open>
  What the remote control does with its input: the text of a command is read, split and parsed into the call that
  it stands for, a stream of commands has the effect of the same calls, and errors of any kind leave the points of failure
  alone.
\<close>

subsection \<open>Lines\<close>

text \<open>What the loop reads: bytes of a line up to its end, to the end of the buffer, or to what \<open>read\<close> returns instead of one.\<close>

lemma read_loop_reads:
  "\<exists>t rest. fd = map Byte t @ rest \<and> length t \<le> n \<and> set t \<inter> {CHR 0x0A, CHR 0x00} = {}
    \<and> (if length t = n then read_loop n fd buf = (Ptr (buf @ t), rest)
       else case rest of
         [] \<Rightarrow> read_loop n fd buf = (Ptr (buf @ t), [])
       | End_of_file # fd' \<Rightarrow> read_loop n fd buf = (Ptr (buf @ t), fd')
       | Read_error # fd' \<Rightarrow> read_loop n fd buf = (NULL, fd')
       | Byte c # fd' \<Rightarrow> c \<in> {CHR 0x0A, CHR 0x00} \<and> read_loop n fd buf = (Ptr (buf @ t @ [c]), fd'))"
proof (induction n fd buf rule: read_loop.induct)
  case (3 n r fd buf)
  show ?case
  proof (cases "\<exists>c. r = Byte c \<and> c \<noteq> CHR 0x0A \<and> c \<noteq> CHR 0x00")
    case True
    then obtain c where c: "r = Byte c" "c \<noteq> CHR 0x0A \<and> c \<noteq> CHR 0x00" by blast
    from "3.IH" [OF c] obtain t rest where t: "fd = map Byte t @ rest" "length t \<le> n" "set t \<inter> {CHR 0x0A, CHR 0x00} = {}"
      "if length t = n then read_loop n fd (buf @ [c]) = (Ptr ((buf @ [c]) @ t), rest)
       else case rest of
         [] \<Rightarrow> read_loop n fd (buf @ [c]) = (Ptr ((buf @ [c]) @ t), [])
       | End_of_file # fd' \<Rightarrow> read_loop n fd (buf @ [c]) = (Ptr ((buf @ [c]) @ t), fd')
       | Read_error # fd' \<Rightarrow> read_loop n fd (buf @ [c]) = (NULL, fd')
       | Byte d # fd' \<Rightarrow> d \<in> {CHR 0x0A, CHR 0x00} \<and> read_loop n fd (buf @ [c]) = (Ptr ((buf @ [c]) @ t @ [d]), fd')" by blast
    have "read_loop (Suc n) (r # fd) buf = read_loop n fd (buf @ [c])" using c by simp
    with t c show ?thesis by (intro exI [of _ "c # t"] exI [of _ rest]) (auto split: if_splits list.splits read_result.splits)
  next
    case False
    then show ?thesis by (intro exI [of _ "[]"] exI [of _ "r # fd"]) (cases r; auto)
  qed
qed auto

lemma read_loop_text:
  "length t < n \<Longrightarrow> CHR 0x0A \<notin> set t \<Longrightarrow> CHR 0x00 \<notin> set t \<Longrightarrow>
     read_loop n (map Byte t @ Byte (CHR 0x0A) # fd) buf = (Ptr (buf @ t @ [CHR 0x0A]), fd)"
proof (induction t arbitrary: n buf)
  case Nil
  then show ?case by (cases n) auto
next
  case (Cons c t)
  then show ?case by (cases n) auto
qed

lemma read_line_text:
  assumes "length t < MAX_LINE" and "CHR 0x0A \<notin> set t" and "CHR 0x00 \<notin> set t"
  shows "read_line (map Byte t @ Byte (CHR 0x0A) # fd) = (int (length t), t, fd)"
  using read_loop_text [OF assms, of fd "[]"] by (simp add: read_line_def)

lemma c_string_text: "CHR 0x00 \<notin> set t \<Longrightarrow> c_string t = t"
  by (auto simp: c_string_def takeWhile_eq_all_conv)

subsection \<open>Words and suboptions\<close>

lemma dropWhile_front: "\<forall>c\<in>set t. P c \<Longrightarrow> \<not> P d \<Longrightarrow> dropWhile P (t @ d # r) = d # r"
  by (induction t) auto

lemma takeWhile_front: "\<forall>c\<in>set t. P c \<Longrightarrow> \<not> P d \<Longrightarrow> takeWhile P (t @ d # r) = t"
  by (induction t) auto

lemma strtok_word:
  assumes "t \<noteq> []" and "\<forall>c\<in>set t. c \<notin> set delim" and "d \<in> set delim"
  shows "strtok delim (t @ d # r) = Some (t, r)" and "strtok delim t = Some (t, [])"
proof -
  have front: "dropWhile (\<lambda>c. c \<in> set delim) (t @ u) = t @ u" for u using assms(1,2) by (cases t) auto
  have all: "dropWhile (\<lambda>c. c \<notin> set delim) t = []" "takeWhile (\<lambda>c. c \<notin> set delim) t = t"
    using assms(2) by (simp_all add: dropWhile_eq_Nil_conv takeWhile_eq_all_conv)
  show "strtok delim t = Some (t, [])" using front [of "[]"] all assms(1) by (simp add: strtok_def del: dropWhile_eq_Nil_conv takeWhile_eq_all_conv)
  show "strtok delim (t @ d # r) = Some (t, r)"
    using front [of "d # r"] dropWhile_front [of t "\<lambda>c. c \<notin> set delim" d r]
      takeWhile_front [of t "\<lambda>c. c \<notin> set delim" d r] assms by (simp add: strtok_def)
qed

definition token_index :: "string \<Rightarrow> nat option" where
  "token_index name = (let i = length (takeWhile (\<lambda>t. t \<noteq> name) rc_tokens) in if i < length rc_tokens then Some i else None)"

definition plain :: "string \<Rightarrow> bool" where
  "plain v \<longleftrightarrow> CHR '','' \<notin> set v"

lemma getsubopt_value:
  assumes "plain k" and "CHR ''='' \<notin> set k" and "plain v"
  shows "getsubopt rc_tokens (k @ CHR ''='' # v @ CHR '','' # rest) = (token_index k, Ptr v, rest)"
    and "getsubopt rc_tokens (k @ CHR ''='' # v) = (token_index k, Ptr v, [])"
proof -
  let ?s = "k @ CHR ''='' # v"
  have p: "\<forall>c\<in>set ?s. c \<noteq> CHR '',''" using assms by (auto simp: plain_def)
  have comma: "dropWhile (\<lambda>c. c \<noteq> CHR '','') (?s @ CHR '','' # rest) = CHR '','' # rest"
    "takeWhile (\<lambda>c. c \<noteq> CHR '','') (?s @ CHR '','' # rest) = ?s"
    by (rule dropWhile_front [OF p], simp) (rule takeWhile_front [OF p], simp)
  have q: "\<forall>c\<in>set k. c \<noteq> CHR ''=''" using assms(2) by auto
  have eq: "dropWhile (\<lambda>c. c \<noteq> CHR ''='') ?s = CHR ''='' # v" "takeWhile (\<lambda>c. c \<noteq> CHR ''='') ?s = k"
    by (rule dropWhile_front [OF q], simp) (rule takeWhile_front [OF q], simp)
  have "getsubopt rc_tokens (?s @ CHR '','' # rest) = (token_index k, Ptr v, rest)"
    unfolding getsubopt_def comma Let_def eq by (simp add: token_index_def Let_def)
  then show "getsubopt rc_tokens (k @ CHR ''='' # v @ CHR '','' # rest) = (token_index k, Ptr v, rest)" by simp
  have no_comma: "dropWhile (\<lambda>c. c \<noteq> CHR '','') ?s = []" "takeWhile (\<lambda>c. c \<noteq> CHR '','') ?s = ?s"
    using p by (simp_all add: dropWhile_eq_Nil_conv takeWhile_eq_all_conv)
  show "getsubopt rc_tokens ?s = (token_index k, Ptr v, [])"
    unfolding getsubopt_def no_comma Let_def eq by (simp add: token_index_def Let_def)
qed

text \<open>The cases of the \<open>switch\<close>.\<close>

lemma token_index_tokens:
  "token_index ''name'' = Some 0" "token_index ''failnum'' = Some 1" "token_index ''failinfo'' = Some 2"
  "token_index ''probability'' = Some 3" "token_index ''func_name'' = Some 4" "token_index ''pos_in_stack'' = Some 5"
  "token_index ''onetime'' = Some 6"
  by (simp_all add: token_index_def rc_tokens_def)

lemma getsubopt_flag: "getsubopt rc_tokens ''onetime'' = (Some 6, NULL, [])"
  by (simp add: getsubopt_def rc_tokens_def)

lemma parse_value:
  assumes "plain k" and "CHR ''='' \<notin> set k" and "plain v" and "rc_param (token_index k) (Ptr v) ps = Some (Inr ps')"
  shows "parse_params (k @ CHR ''='' # v @ CHR '','' # rest) ps = parse_params rest ps'"
    and "parse_params (k @ CHR ''='' # v) ps = Some (Inr ps')"
  using assms(4) getsubopt_value [OF assms(1-3)]
  by (simp_all add: parse_params.simps [of "k @ x" for x] parse_params.simps [of "[]"])

lemma parse_flag: "parse_params ''onetime'' ps = Some (Inr (ps\<lparr>p_flags := p_flags ps OR FIU_ONETIME\<rparr>))"
  by (subst parse_params.simps) (simp add: getsubopt_flag rc_param_def parse_params.simps [of "[]"])

subsection \<open>The text of a command\<close>

datatype rc_line =
    L_enable string int addr bool
  | L_random string int addr string bool
  | L_disable string

definition once_text :: "bool \<Rightarrow> string" where
  "once_text once = (if once then '',onetime'' else [])"

fun rc_text :: "rc_line \<Rightarrow> string" where
  "rc_text (L_enable name n i once) =
     ''enable name='' @ name @ '',failnum='' @ dec_int n @ '',failinfo='' @ dec_nat (unat i) @ once_text once"
| "rc_text (L_random name n i p once) =
     ''enable_random name='' @ name @ '',failnum='' @ dec_int n @ '',failinfo='' @ dec_nat (unat i) @ '',probability='' @ p @ once_text once"
| "rc_text (L_disable name) = ''disable name='' @ name"

definition once_flags :: "bool \<Rightarrow> 32 word" where
  "once_flags once = (if once then FIU_ONETIME else 0)"

text \<open>The call that a command stands for.\<close>

fun rc_ctl :: "rc_line \<Rightarrow> pf_args ctl" where
  "rc_ctl (L_enable name n i once) = CtlEnable name (n, i, once_flags once, PF_ALWAYS, M_unset)"
| "rc_ctl (L_random name n i p once) =
     CtlEnable name (n, i, once_flags once, PF_PROB, M_probability (to_float (case strtod (Ptr p) of Some q \<Rightarrow> q | None \<Rightarrow> 0)))"
| "rc_ctl (L_disable name) = CtlDisable name"

text \<open>Words that can be the value of a parameter: they are not empty and have no separator in them.\<close>

definition word_ok :: "string \<Rightarrow> bool" where
  "word_ok v \<longleftrightarrow> v \<noteq> [] \<and> set v \<inter> {CHR '','', CHR '' '', CHR 0x09, CHR 0x0A, CHR 0x00} = {}"

fun line_ok :: "rc_line \<Rightarrow> bool" where
  "line_ok (L_enable name n i once) \<longleftrightarrow> word_ok name \<and> - (2 ^ 31) \<le> n \<and> n < 2 ^ 31"
| "line_ok (L_random name n i p once) \<longleftrightarrow> word_ok name \<and> - (2 ^ 31) \<le> n \<and> n < 2 ^ 31 \<and> word_ok p \<and> strtod (Ptr p) \<noteq> None"
| "line_ok (L_disable name) \<longleftrightarrow> word_ok name"

lemma dec_nat_word: "word_ok (dec_nat n)"
  using dec_nat_chars [of _ n] by (fastforce simp: word_ok_def digit_val_def)

lemma dec_int_word: "word_ok (dec_int n)"
  using dec_nat_word by (auto simp: dec_int_def word_ok_def)

lemma word_ok_plain: "word_ok v \<Longrightarrow> plain v"
  by (auto simp: word_ok_def plain_def)

subsection \<open>Commands have the effect of the calls\<close>

lemma plain_app: "plain (u @ v) \<longleftrightarrow> plain u \<and> plain v"
  by (auto simp: plain_def)

lemmas params = rc_param_def token_index_tokens plain_def rc_defaults_def once_flags_def

lemma parse_once:
  assumes "plain k" and "CHR ''='' \<notin> set k" and "plain v" and "rc_param (token_index k) (Ptr v) ps = Some (Inr ps')"
    and "p_flags ps' = 0"
  shows "parse_params (k @ CHR ''='' # v @ once_text once) ps = Some (Inr (ps'\<lparr>p_flags := once_flags once\<rparr>))"
  using parse_value(1) [OF assms(1-4), of "''onetime''"] parse_value(2) [OF assms(1-4)] parse_flag [of ps'] assms(5)
  by (cases ps'; cases once) (simp_all add: once_text_def once_flags_def)

text \<open>The parameters of the text of a command, and what they are parsed to.\<close>

fun rc_args :: "rc_line \<Rightarrow> string" where
  "rc_args (L_enable name n i once) = ''name='' @ name @ '',failnum='' @ dec_int n @ '',failinfo='' @ dec_nat (unat i) @ once_text once"
| "rc_args (L_random name n i p once) =
     ''name='' @ name @ '',failnum='' @ dec_int n @ '',failinfo='' @ dec_nat (unat i) @ '',probability='' @ p @ once_text once"
| "rc_args (L_disable name) = ''name='' @ name"

fun rc_word :: "rc_line \<Rightarrow> string" where
  "rc_word (L_enable name n i once) = ''enable''"
| "rc_word (L_random name n i p once) = ''enable_random''"
| "rc_word (L_disable name) = ''disable''"

fun rc_parsed :: "rc_line \<Rightarrow> rc_params" where
  "rc_parsed (L_enable name n i once) = rc_defaults\<lparr>p_name := Ptr name, p_failnum := n, p_failinfo := i, p_flags := once_flags once\<rparr>"
| "rc_parsed (L_random name n i p once) = rc_defaults\<lparr>p_name := Ptr name, p_failnum := n, p_failinfo := i,
     p_probability := (case strtod (Ptr p) of Some q \<Rightarrow> q | None \<Rightarrow> 0), p_flags := once_flags once\<rparr>"
| "rc_parsed (L_disable name) = rc_defaults\<lparr>p_name := Ptr name\<rparr>"

lemma rc_text_split: "rc_text l = rc_word l @ CHR '' '' # rc_args l"
  by (cases l) simp_all

lemma parse_name:
  assumes "word_ok name"
  shows "parse_params (''name='' @ name @ CHR '','' # rest) ps = parse_params rest (ps\<lparr>p_name := Ptr name\<rparr>)"
    and "parse_params (''name='' @ name) ps = Some (Inr (ps\<lparr>p_name := Ptr name\<rparr>))"
  using parse_value [of "''name''" name ps "ps\<lparr>p_name := Ptr name\<rparr>"] word_ok_plain [OF assms] by (simp_all add: params)

lemma parse_failnum:
  assumes "- (2 ^ 31) \<le> n" and "n < 2 ^ 31"
  shows "parse_params (''failnum='' @ dec_int n @ CHR '','' # rest) ps = parse_params rest (ps\<lparr>p_failnum := n\<rparr>)"
  using parse_value(1) [of "''failnum''" "dec_int n" ps "ps\<lparr>p_failnum := n\<rparr>"] word_ok_plain [OF dec_int_word] atoi_dec [OF assms]
  by (simp add: params)

lemma parse_failinfo:
  "parse_params (''failinfo='' @ dec_nat (unat i) @ CHR '','' # rest) ps = parse_params rest (ps\<lparr>p_failinfo := i\<rparr>)"
  using parse_value(1) [of "''failinfo''" "dec_nat (unat i)" ps "ps\<lparr>p_failinfo := i\<rparr>"] word_ok_plain [OF dec_nat_word]
  by (simp add: params strtoul_dec)

lemma parse_failinfo_once:
  "p_flags ps = 0 \<Longrightarrow> parse_params (''failinfo='' @ dec_nat (unat i) @ once_text once) ps
     = Some (Inr (ps\<lparr>p_failinfo := i, p_flags := once_flags once\<rparr>))"
  using parse_once [of "''failinfo''" "dec_nat (unat i)" ps "ps\<lparr>p_failinfo := i\<rparr>"] word_ok_plain [OF dec_nat_word]
  by (simp add: rc_param_def token_index_tokens plain_def strtoul_dec)

lemma parse_probability_once:
  assumes "word_ok p" and "strtod (Ptr p) = Some q" and "p_flags ps = 0"
  shows "parse_params (''probability='' @ p @ once_text once) ps = Some (Inr (ps\<lparr>p_probability := q, p_flags := once_flags once\<rparr>))"
  using parse_once [of "''probability''" p ps "ps\<lparr>p_probability := q\<rparr>"] word_ok_plain [OF assms(1)] assms(2,3)
  by (simp add: rc_param_def token_index_tokens plain_def)

lemma parse_args:
  assumes "line_ok l"
  shows "parse_params (rc_args l) rc_defaults = Some (Inr (rc_parsed l))"
proof (cases l)
  case (L_enable name n i once)
  with assms show ?thesis using parse_name(1) parse_failnum parse_failinfo_once by (simp add: rc_defaults_def)
next
  case (L_random name n i p once)
  with assms obtain q where "strtod (Ptr p) = Some q" by auto
  with assms L_random show ?thesis
    using parse_name(1) parse_failnum parse_failinfo parse_probability_once by (simp add: rc_defaults_def)
next
  case (L_disable name)
  with assms show ?thesis using parse_name(2) by simp
qed

fun rc_message :: "rc_line \<Rightarrow> string" where
  "rc_message (L_enable name n i once) = ''Error in enable''"
| "rc_message (L_random name n i p once) = ''Error in enable_random''"
| "rc_message (L_disable name) = ''Error in disable''"

lemma rc_execute_line:
  "rc_execute env (rc_word l) (rc_parsed l) s
     = map_option (\<lambda>(r, s'). (r, rc_message l, s')) (ctl_step fiu_add fiu_disable env (rc_ctl l) s)"
  by (cases l) (simp_all add: rc_execute_def Let_def fiu_enable_def fiu_enable_random_def rc_defaults_def)

text \<open>No separator is in the words of a command.\<close>

definition blanks :: string where
  "blanks = [CHR '' '', CHR 0x09, CHR 0x0A, CHR 0x00]"

definition blankless :: "string \<Rightarrow> bool" where
  "blankless v \<longleftrightarrow> (\<forall>c\<in>set v. c \<notin> set blanks)"

lemma blankless_app [simp]: "blankless (u @ v) \<longleftrightarrow> blankless u \<and> blankless v"
  "blankless (c # v) \<longleftrightarrow> c \<notin> set blanks \<and> blankless v" "blankless []"
  by (auto simp: blankless_def)

lemma word_ok_blankless: "word_ok v \<Longrightarrow> blankless v"
  by (auto simp: word_ok_def blanks_def blankless_def)

lemma rc_args_blankless: "line_ok l \<Longrightarrow> blankless (rc_args l)"
  using word_ok_blankless [OF dec_int_word] word_ok_blankless [OF dec_nat_word] word_ok_blankless
  by (cases l) (simp_all add: once_text_def blanks_def)

lemma rc_word_blankless: "blankless (rc_word l)" "rc_word l \<noteq> []" "rc_args l \<noteq> []"
  by (cases l; simp add: blanks_def)+

lemma rc_text_chars:
  assumes "line_ok l"
  shows "CHR 0x0A \<notin> set (rc_text l)" "CHR 0x00 \<notin> set (rc_text l)"
proof -
  have "CHR 0x0A \<notin> set v \<and> CHR 0x00 \<notin> set v" if "blankless v" for v using that by (auto simp: blankless_def blanks_def)
  from this [OF rc_args_blankless [OF assms]] this [OF rc_word_blankless(1) [of l]]
  show "CHR 0x0A \<notin> set (rc_text l)" "CHR 0x00 \<notin> set (rc_text l)" by (simp_all add: rc_text_split)
qed

lemma strtok_pair:
  assumes "blankless u" and "blankless v" and "u \<noteq> []" and "v \<noteq> []"
  shows "strtok [CHR '' '', CHR 0x09] (u @ CHR '' '' # v) = Some (u, v)" and "strtok [CHR '' '', CHR 0x09] v = Some (v, [])"
proof -
  have "\<forall>c\<in>set w. c \<notin> set [CHR '' '', CHR 0x09]" if "blankless w" for w using that by (simp add: blankless_def blanks_def)
  note no_delim = this [OF assms(1)] this [OF assms(2)]
  show "strtok [CHR '' '', CHR 0x09] (u @ CHR '' '' # v) = Some (u, v)" by (rule strtok_word(1) [OF assms(3) no_delim(1)]) simp
  show "strtok [CHR '' '', CHR 0x09] v = Some (v, [])" by (rule strtok_word(2) [OF assms(4) no_delim(2), of "CHR '' ''"]) simp
qed

lemma rc_string_line:
  assumes "line_ok l" and "length (rc_text l) < MAX_LINE"
  shows "fiu_rc_string env (rc_text l) s
    = map_option (\<lambda>(r, s'). (r, rc_message l, s')) (ctl_step fiu_add fiu_disable env (rc_ctl l) s)"
proof -
  have "strncpy (MAX_LINE - 1) (rc_text l) = rc_text l" using assms(2) by (simp add: strncpy_def)
  moreover have "strtok [CHR '' '', CHR 0x09] (rc_text l) = Some (rc_word l, rc_args l)"
    "strtok [CHR '' '', CHR 0x09] (rc_args l) = Some (rc_args l, [])"
    unfolding rc_text_split using strtok_pair [of "rc_word l" "rc_args l"] rc_args_blankless [OF assms(1)] rc_word_blankless by simp_all
  ultimately show ?thesis using parse_args [OF assms(1)] rc_execute_line by (simp add: fiu_rc_string_def)
qed

definition rc_reply :: "int \<Rightarrow> string" where
  "rc_reply r = dec_int r @ [CHR 0x0A]"

lemma rc_reply_read: "strtol_value (rc_reply r) = r"
  unfolding rc_reply_def by (rule strtol_dec) (simp add: no_digit_def digit_val_def)

definition rc_stream :: "rc_line list \<Rightarrow> read_result list" where
  "rc_stream ls = concat (map (\<lambda>l. map Byte (rc_text l) @ [Byte (CHR 0x0A)]) ls)"

lemma dec_nat_length: "n < 10 ^ k \<Longrightarrow> 0 < k \<Longrightarrow> length (dec_nat n) \<le> k"
proof (induction k arbitrary: n)
  case (Suc k)
  show ?case
  proof (cases "n < 10")
    case False
    with Suc.prems have "n div 10 < 10 ^ k" "0 < k" by (auto intro: Suc_lessI) (cases k; auto)
    from Suc.IH [OF this] False show ?thesis by (subst dec_nat.simps) simp
  qed (simp add: dec_nat.simps)
qed simp

lemma dec_int_length:
  assumes "- (2 ^ 31) \<le> n" and "n < 2 ^ 31"
  shows "length (dec_int n) \<le> 11"
proof -
  have "nat (- n) < 10 ^ 10" "nat n < 10 ^ 10" using assms by (simp_all add: nat_less_iff)
  from dec_nat_length [OF this(1)] dec_nat_length [OF this(2)] show ?thesis by (auto simp: dec_int_def)
qed

lemma ctl_result_range: "ctl_result c m = 0 \<or> ctl_result c m = -1"
  by (cases c) auto

lemma rc_do_command_line:
  assumes "line_ok l" and "length (rc_text l) < MAX_LINE" and "0 < w (rc_reply r)"
    and "ctl_step fiu_add fiu_disable env (rc_ctl l) s = Some (r, s')" and "r = 0 \<or> r = -1"
  shows "rc_do_command env w (map Byte (rc_text l) @ Byte (CHR 0x0A) # fd) s
    = Some (int (length (rc_text l)), Some (rc_reply r), fd, s')"
proof -
  note chars = rc_text_chars [OF assms(1)]
  have "length (dec_int r) \<le> 11" using assms(5) by (auto intro!: dec_int_length)
  then have rep: "take (MAX_LINE - 1) (dec_int r @ [CHR 0x0A]) = rc_reply r" by (simp add: rc_reply_def MAX_LINE_def)
  have "rc_text l \<noteq> []" by (cases l) simp_all
  then show ?thesis using rep assms(3,4)
      rc_string_line [OF assms(1,2), of env s] read_line_text [OF assms(2) chars, of fd] c_string_text [OF chars(2)]
    by (simp add: rc_do_command_def Let_def)
qed

lemma line_ok_ctl: "line_ok l \<Longrightarrow> ctl_ok args_typed (rc_ctl l)"
  by (cases l) (auto simp: word_ok_def)

lemma rc_loop_lines:
  assumes "fiu_ready_at rc s"
    and "\<forall>(env, w, e, l)\<in>set cs. env_ok env \<and> line_ok l \<and> length (rc_text l) < MAX_LINE \<and> (\<forall>x. 0 < w x)"
  shows "\<exists>s'. rc_loop (map (\<lambda>(env, w, e, l). (env, w, e)) cs) (rc_stream (map (\<lambda>(env, w, e, l). l) cs)) s
      = Some (Waiting, map rc_reply (fst (ctl_maps args_pf (map (\<lambda>(env, w, e, l). rc_ctl l) cs) (points s))), s')
    \<and> fiu_ready_at rc s' \<and> points s' = snd (ctl_maps args_pf (map (\<lambda>(env, w, e, l). rc_ctl l) cs) (points s))"
  using assms
proof (induction cs arbitrary: s)
  case (Cons c cs)
  obtain env w e l where c: "c = (env, w, e, l)" by (cases c)
  with Cons.prems(2) have ok: "env_ok env" "line_ok l" "length (rc_text l) < MAX_LINE" "\<forall>x. 0 < w x" by simp_all
  from fiu_control.step_law [OF ok(1) Cons.prems(1) line_ok_ctl [OF ok(2)]] obtain s1 where
    s1: "ctl_step fiu_add fiu_disable env (rc_ctl l) s = Some (ctl_result (rc_ctl l) (points s), s1)" "fiu_ready_at rc s1"
      "points s1 = ctl_map args_pf (rc_ctl l) (points s)" by blast
  let ?fd = "rc_stream (map (\<lambda>(env, w, e, l). l) cs)"
  have "rc_text l \<noteq> []" by (cases l) simp_all
  then have run: "rc_do_command env w (map Byte (rc_text l) @ Byte (CHR 0x0A) # ?fd) s
      = Some (int (length (rc_text l)), Some (rc_reply (ctl_result (rc_ctl l) (points s))), ?fd, s1)"
    "0 < int (length (rc_text l))"
    using rc_do_command_line [OF ok(2,3) _ s1(1) ctl_result_range, of w] ok(4) by simp_all
  from Cons.IH [OF s1(2)] Cons.prems(2) obtain s' where
    "rc_loop (map (\<lambda>(env, w, e, l). (env, w, e)) cs) ?fd s1
       = Some (Waiting, map rc_reply (fst (ctl_maps args_pf (map (\<lambda>(env, w, e, l). rc_ctl l) cs) (points s1))), s')"
    "fiu_ready_at rc s'" "points s' = snd (ctl_maps args_pf (map (\<lambda>(env, w, e, l). rc_ctl l) cs) (points s1))" by auto
  with c run s1(3) show ?case by (auto simp: rc_stream_def split: prod.splits)
qed (simp add: rc_stream_def)

subsection \<open>Commands that crash, and all others\<close>

fun split_commas :: "string \<Rightarrow> string list" where
  "split_commas [] = [[]]"
| "split_commas (c # cs) = (if c = CHR '','' then [] # split_commas cs
     else case split_commas cs of [] \<Rightarrow> [[c]] | sub # subs \<Rightarrow> (c # sub) # subs)"

definition opt_key :: "string \<Rightarrow> string" where
  "opt_key sub = takeWhile (\<lambda>c. c \<noteq> CHR ''='') sub"

definition opt_value :: "string \<Rightarrow> string ptr" where
  "opt_value sub = (if CHR ''='' \<in> set sub then Ptr (drop 1 (dropWhile (\<lambda>c. c \<noteq> CHR ''='') sub)) else NULL)"

text \<open>A parameter whose value is missing or no number of its type.\<close>

definition opt_bad :: "string \<Rightarrow> bool" where
  "opt_bad sub \<longleftrightarrow>
     opt_key sub \<in> {''failnum'', ''pos_in_stack''} \<and> atoi (opt_value sub) = None
   \<or> opt_key sub = ''failinfo'' \<and> strtoul (opt_value sub) = None
   \<or> opt_key sub = ''probability'' \<and> strtod (opt_value sub) = None
   \<or> opt_key sub \<in> {''name'', ''func_name''} \<and> opt_value sub \<in> {NULL, Ptr []}"

lemma getsubopt_parts:
  "getsubopt rc_tokens opts = (token_index (opt_key (takeWhile (\<lambda>c. c \<noteq> CHR '','') opts)),
     opt_value (takeWhile (\<lambda>c. c \<noteq> CHR '','') opts), drop 1 (dropWhile (\<lambda>c. c \<noteq> CHR '','') opts))"
  by (simp add: getsubopt_def token_index_def opt_key_def opt_value_def Let_def)

lemma split_commas_step:
  "split_commas opts = takeWhile (\<lambda>c. c \<noteq> CHR '','') opts
     # (if CHR '','' \<in> set opts then split_commas (drop 1 (dropWhile (\<lambda>c. c \<noteq> CHR '','') opts)) else [])"
  by (induction opts) auto

lemma token_index_iff:
  "token_index k = Some 0 \<longleftrightarrow> k = ''name''" "token_index k = Some 1 \<longleftrightarrow> k = ''failnum''"
  "token_index k = Some 2 \<longleftrightarrow> k = ''failinfo''" "token_index k = Some 3 \<longleftrightarrow> k = ''probability''"
  "token_index k = Some 4 \<longleftrightarrow> k = ''func_name''" "token_index k = Some 5 \<longleftrightarrow> k = ''pos_in_stack''"
  by (auto simp: token_index_def rc_tokens_def)

definition has_key :: "string \<Rightarrow> string \<Rightarrow> bool" where
  "has_key k opts \<longleftrightarrow> (\<exists>sub\<in>set (split_commas opts). opt_key sub = k)"

definition no_bad_opt :: "string \<Rightarrow> bool" where
  "no_bad_opt opts \<longleftrightarrow> (\<forall>sub\<in>set (split_commas opts). \<not> opt_bad sub)"

lemma first_opt:
  fixes opts :: string
  defines "sub \<equiv> takeWhile (\<lambda>c. c \<noteq> CHR '','') opts" and "rest \<equiv> drop 1 (dropWhile (\<lambda>c. c \<noteq> CHR '','') opts)"
  shows "no_bad_opt opts \<longleftrightarrow> \<not> opt_bad sub \<and> no_bad_opt rest"
    and "k \<noteq> [] \<Longrightarrow> has_key k opts \<longleftrightarrow> opt_key sub = k \<or> has_key k rest"
proof -
  have empty: "no_bad_opt []" "k \<noteq> [] \<Longrightarrow> \<not> has_key k []" by (simp_all add: no_bad_opt_def has_key_def opt_bad_def opt_key_def)
  have rest: "rest = []" if "CHR '','' \<notin> set opts"
  proof -
    have "dropWhile (\<lambda>c. c \<noteq> CHR '','') opts = []" using that by (auto simp: dropWhile_eq_Nil_conv)
    then show ?thesis unfolding rest_def by (simp del: dropWhile_eq_Nil_conv)
  qed
  note step = split_commas_step [of opts, folded sub_def rest_def]
  show "no_bad_opt opts \<longleftrightarrow> \<not> opt_bad sub \<and> no_bad_opt rest"
  proof (cases "CHR '','' \<in> set opts")
    case True
    then show ?thesis using step by (simp add: no_bad_opt_def)
  next
    case False
    then show ?thesis using step empty(1) rest by (simp add: no_bad_opt_def)
  qed
  show "has_key k opts \<longleftrightarrow> opt_key sub = k \<or> has_key k rest" if "k \<noteq> []"
  proof (cases "CHR '','' \<in> set opts")
    case True
    then show ?thesis using step by (simp add: has_key_def)
  next
    case False
    then show ?thesis using step empty(2) rest that by (simp add: has_key_def)
  qed
qed

definition named :: "string \<Rightarrow> rc_params \<Rightarrow> rc_params \<Rightarrow> bool" where
  "named opts ps ps' \<longleftrightarrow> p_name ps' \<noteq> Ptr [] \<and> (p_name ps \<noteq> NULL \<or> has_key ''name'' opts \<longrightarrow> p_name ps' \<noteq> NULL)
     \<and> (p_func_name ps \<noteq> NULL \<or> has_key ''func_name'' opts \<longrightarrow> p_func_name ps' \<noteq> NULL)"

lemma rc_param_None:
  "rc_param tok v ps = None \<longleftrightarrow> tok = Some 1 \<and> atoi v = None \<or> tok = Some 2 \<and> strtoul v = None
     \<or> tok = Some 3 \<and> strtod v = None \<or> tok = Some 5 \<and> atoi v = None"
  by (auto simp: rc_param_def)

lemma rc_param_names:
  "rc_param tok v ps = Some (Inr ps') \<Longrightarrow> p_name ps' = (if tok = Some 0 then v else p_name ps)
     \<and> p_func_name ps' = (if tok = Some 4 then v else p_func_name ps)"
  by (auto simp: rc_param_def split: if_splits)

lemma rc_param_good:
  assumes "\<not> opt_bad sub" and "p_name ps \<noteq> Ptr []"
  shows "\<exists>res. rc_param (token_index (opt_key sub)) (opt_value sub) ps = Some res \<and>
    (\<forall>ps'. res = Inr ps' \<longrightarrow> p_name ps' \<noteq> Ptr [] \<and> (p_name ps \<noteq> NULL \<or> opt_key sub = ''name'' \<longrightarrow> p_name ps' \<noteq> NULL)
      \<and> (p_func_name ps \<noteq> NULL \<or> opt_key sub = ''func_name'' \<longrightarrow> p_func_name ps' \<noteq> NULL))"
proof -
  have "rc_param (token_index (opt_key sub)) (opt_value sub) ps \<noteq> None"
    using assms(1) unfolding rc_param_None token_index_iff opt_bad_def by blast
  then obtain res where res: "rc_param (token_index (opt_key sub)) (opt_value sub) ps = Some res" by blast
  have given: "opt_key sub = ''name'' \<or> opt_key sub = ''func_name'' \<Longrightarrow> opt_value sub \<noteq> NULL \<and> opt_value sub \<noteq> Ptr []"
    using assms(1) unfolding opt_bad_def by blast
  have "p_name ps' \<noteq> Ptr [] \<and> (p_name ps \<noteq> NULL \<or> opt_key sub = ''name'' \<longrightarrow> p_name ps' \<noteq> NULL)
      \<and> (p_func_name ps \<noteq> NULL \<or> opt_key sub = ''func_name'' \<longrightarrow> p_func_name ps' \<noteq> NULL)" if "res = Inr ps'" for ps'
  proof -
    from rc_param_names [OF res [unfolded that]] have names: "p_name ps' = (if opt_key sub = ''name'' then opt_value sub else p_name ps)"
      "p_func_name ps' = (if opt_key sub = ''func_name'' then opt_value sub else p_func_name ps)"
      unfolding token_index_iff by blast+
    show ?thesis unfolding names using given assms(2) by presburger
  qed
  with res show ?thesis by blast
qed

lemma parse_safe:
  assumes "no_bad_opt opts" and "p_name ps \<noteq> Ptr []"
  shows "\<exists>res. parse_params opts ps = Some res \<and> (\<forall>ps'. res = Inr ps' \<longrightarrow> named opts ps ps')"
  using assms
proof (induction opts ps rule: parse_params.induct)
  case (1 opts ps)
  show ?case
  proof (cases "opts = []")
    case True
    with "1.prems" show ?thesis by (simp add: parse_params.simps named_def has_key_def opt_key_def)
  next
    case False
    define sub where "sub = takeWhile (\<lambda>c. c \<noteq> CHR '','') opts"
    define rest where "rest = drop 1 (dropWhile (\<lambda>c. c \<noteq> CHR '','') opts)"
    note first = first_opt [where opts = opts, folded sub_def rest_def]
    have opt: "getsubopt rc_tokens opts = (token_index (opt_key sub), opt_value sub, rest)"
      by (simp add: getsubopt_parts sub_def rest_def)
    from "1.prems"(1) first(1) have good: "\<not> opt_bad sub" "no_bad_opt rest" by blast+
    from rc_param_good [OF good(1) "1.prems"(2)] obtain res where
      res: "rc_param (token_index (opt_key sub)) (opt_value sub) ps = Some res"
        "\<And>ps'. res = Inr ps' \<Longrightarrow> p_name ps' \<noteq> Ptr [] \<and> (p_name ps \<noteq> NULL \<or> opt_key sub = ''name'' \<longrightarrow> p_name ps' \<noteq> NULL)
          \<and> (p_func_name ps \<noteq> NULL \<or> opt_key sub = ''func_name'' \<longrightarrow> p_func_name ps' \<noteq> NULL)" by blast
    show ?thesis
    proof (cases res)
      case (Inl e)
      with False opt res(1) show ?thesis by (simp add: parse_params.simps [of opts])
    next
      case (Inr ps1)
      note n = res(2) [OF Inr]
      from "1.IH" [OF False opt [symmetric] refl res(1) Inr good(2)] n obtain res1 where
        res1: "parse_params rest ps1 = Some res1" "\<And>ps'. res1 = Inr ps' \<Longrightarrow> named rest ps1 ps'" by blast
      have "named opts ps ps'" if "res1 = Inr ps'" for ps'
        using res1(2) [OF that] n first(2) [where k = "''name''"] first(2) [where k = "''func_name''"] by (auto simp: named_def)
      with False opt res(1) Inr res1(1) show ?thesis by (simp add: parse_params.simps [of opts])
    qed
  qed
qed

subsection \<open>The words of a line\<close>

text \<open>The words of a command: what stands between blanks and tabs in the part of it that is copied.\<close>

fun split_blanks :: "string \<Rightarrow> string list" where
  "split_blanks [] = [[]]"
| "split_blanks (c # cs) = (if c \<in> {CHR '' '', CHR 0x09} then [] # split_blanks cs
     else case split_blanks cs of [] \<Rightarrow> [[c]] | w # ws \<Rightarrow> (c # w) # ws)"

definition full_words :: "string \<Rightarrow> string list" where
  "full_words s = filter (\<lambda>w. w \<noteq> []) (split_blanks s)"

definition cmd_words :: "string \<Rightarrow> string list" where
  "cmd_words cmd = full_words (take (MAX_LINE - 1) cmd)"

definition blank_delim :: string where
  "blank_delim = [CHR '' '', CHR 0x09]"

lemma split_blanks_blank: "c \<in> set blank_delim \<Longrightarrow> split_blanks (c # cs) = [] # split_blanks cs"
  by (simp add: blank_delim_def)

lemma split_blanks_word:
  assumes "c \<notin> set blank_delim"
  shows "split_blanks (c # cs) = (c # takeWhile (\<lambda>d. d \<notin> set blank_delim) cs)
     # (case dropWhile (\<lambda>d. d \<notin> set blank_delim) cs of [] \<Rightarrow> [] | _ # rest \<Rightarrow> split_blanks rest)"
  using assms by (induction cs arbitrary: c) (simp_all add: blank_delim_def)

lemma strtok_full_words:
  "case strtok blank_delim s of None \<Rightarrow> full_words s = [] | Some (w, r) \<Rightarrow> full_words s = w # full_words r"
proof (induction s)
  case (Cons c s)
  show ?case
  proof (cases "c \<in> set blank_delim")
    case True
    then have "strtok blank_delim (c # s) = strtok blank_delim s" by (simp add: strtok_def)
    moreover have "full_words (c # s) = full_words s" by (simp add: full_words_def split_blanks_blank [OF True] del: split_blanks.simps)
    ultimately show ?thesis using Cons.IH by (simp only:)
  next
    case False
    then have "strtok blank_delim (c # s) = Some (c # takeWhile (\<lambda>d. d \<notin> set blank_delim) s, drop 1 (dropWhile (\<lambda>d. d \<notin> set blank_delim) s))"
      by (simp add: strtok_def)
    then show ?thesis
      by (cases "dropWhile (\<lambda>d. d \<notin> set blank_delim) s")
        (simp_all add: full_words_def split_blanks_word [OF False] del: split_blanks.simps(2) dropWhile_eq_Nil_conv)
  qed
qed (simp add: strtok_def full_words_def)

subsection \<open>Unknown commands and parameters\<close>

definition rc_commands :: "string set" where
  "rc_commands = {''disable'', ''enable'', ''enable_random'', ''enable_stack_by_name''}"

text \<open>The parameters: a comma at the end is not followed by another one.\<close>

definition rc_opts :: "string \<Rightarrow> string list" where
  "rc_opts opts = (if last (split_commas opts) = [] then butlast (split_commas opts) else split_commas opts)"

definition known_opts :: "string \<Rightarrow> bool" where
  "known_opts opts \<longleftrightarrow> opt_key ` set (rc_opts opts) \<subseteq> set rc_tokens"

text \<open>The name is the value of the last parameter of that key.\<close>

definition given_name :: "string ptr \<Rightarrow> string \<Rightarrow> string ptr" where
  "given_name n opts = fold (\<lambda>sub n. if opt_key sub = ''name'' then opt_value sub else n) (rc_opts opts) n"

lemma rc_opts_step:
  "rc_opts opts = (if opts = [] then []
     else takeWhile (\<lambda>c. c \<noteq> CHR '','') opts # rc_opts (drop 1 (dropWhile (\<lambda>c. c \<noteq> CHR '','') opts)))"
proof (cases "CHR '','' \<in> set opts")
  case True
  have "split_commas x \<noteq> []" for x by (cases x) (auto split: list.splits)
  with True split_commas_step [of opts] show ?thesis by (auto simp: rc_opts_def)
next
  case False
  then have "takeWhile (\<lambda>c. c \<noteq> CHR '','') opts = opts" "dropWhile (\<lambda>c. c \<noteq> CHR '','') opts = []"
    by (auto simp: takeWhile_eq_all_conv dropWhile_eq_Nil_conv)
  with False split_commas_step [of opts] show ?thesis by (auto simp: rc_opts_def simp del: takeWhile_eq_all_conv dropWhile_eq_Nil_conv)
qed

lemma rc_param_unknown:
  "rc_param (token_index k) v ps = Some (Inl e) \<longleftrightarrow> k \<notin> set rc_tokens \<and> e = ''Unknown parameter''"
proof -
  have "k \<in> set rc_tokens \<longleftrightarrow> token_index k \<in> {Some 0, Some 1, Some 2, Some 3, Some 4, Some 5, Some 6}"
    by (auto simp: token_index_def rc_tokens_def)
  then show ?thesis by (auto simp: rc_param_def)
qed

lemma parse_known:
  assumes "parse_params opts ps = Some res"
  shows "if known_opts opts then \<exists>ps'. res = Inr ps' \<and> p_name ps' = given_name (p_name ps) opts else res = Inl ''Unknown parameter''"
  using assms
proof (induction opts ps rule: parse_params.induct)
  case (1 opts ps)
  show ?case
  proof (cases "opts = []")
    case True
    with "1.prems" have "res = Inr ps" by (simp add: parse_params.simps)
    with True show ?thesis by (simp add: known_opts_def given_name_def rc_opts_def)
  next
    case False
    define sub where "sub = takeWhile (\<lambda>c. c \<noteq> CHR '','') opts"
    define rest where "rest = drop 1 (dropWhile (\<lambda>c. c \<noteq> CHR '','') opts)"
    have opt: "getsubopt rc_tokens opts = (token_index (opt_key sub), opt_value sub, rest)"
      by (simp add: getsubopt_parts sub_def rest_def)
    have step: "known_opts opts \<longleftrightarrow> opt_key sub \<in> set rc_tokens \<and> known_opts rest"
      "given_name n opts = given_name (if opt_key sub = ''name'' then opt_value sub else n) rest" for n
      using rc_opts_step [of opts, folded sub_def rest_def] False by (simp_all add: known_opts_def given_name_def)
    from "1.prems" False opt obtain r where r: "rc_param (token_index (opt_key sub)) (opt_value sub) ps = Some r"
      by (auto simp: parse_params.simps [of opts] split: option.splits)
    show ?thesis
    proof (cases r)
      case (Inl e)
      with r rc_param_unknown have "opt_key sub \<notin> set rc_tokens" "e = ''Unknown parameter''" by blast+
      with Inl r "1.prems" False opt step(1) show ?thesis by (simp add: parse_params.simps [of opts])
    next
      case (Inr ps1)
      from r Inr have key: "opt_key sub \<in> set rc_tokens" using rc_param_unknown [of "opt_key sub" "opt_value sub" ps] by fastforce
      have n: "p_name ps1 = (if opt_key sub = ''name'' then opt_value sub else p_name ps)"
        using rc_param_names [OF r [unfolded Inr]] unfolding token_index_iff by blast
      from "1.prems" False opt r Inr have "parse_params rest ps1 = Some res" by (simp add: parse_params.simps [of opts])
      from "1.IH" [OF False opt [symmetric] refl r Inr this] show ?thesis unfolding step n using key by simp
    qed
  qed
qed

lemma rc_execute_unknown: "c \<notin> rc_commands \<Longrightarrow> rc_execute env c ps s = Some (-1, ''Unknown command'', s)"
  by (simp add: rc_execute_def rc_commands_def)

text \<open>A call of the library that changes at most one point of failure, and if it is \<open>gone\<close> leaves none of that name.\<close>

definition changes_only :: "int \<Rightarrow> string \<Rightarrow> bool \<Rightarrow> fiu \<Rightarrow> (int \<times> fiu) option \<Rightarrow> bool" where
  "changes_only rc n gone s x \<longleftrightarrow> (\<exists>r s' pf. x = Some (r, s') \<and> r \<in> {0, -1} \<and> fiu_ready_at rc s' \<and> points s' = (points s)(n := pf)
     \<and> (gone \<longrightarrow> pf = None))"

lemma changes_same: "fiu_ready_at rc s' \<Longrightarrow> points s' = points s \<Longrightarrow> r \<in> {0, -1} \<Longrightarrow> changes_only rc n False s (Some (r, s'))"
  by (auto simp: changes_only_def intro!: exI [of _ "points s n"])

lemma points_bt_works [simp]: "points (s\<lparr>bt_works := b\<rparr>) = points s"
  by (auto simp: points_def fun_eq_iff split: ptr.split option.split)

lemma create_changes:
  assumes "fiu_ready_at rc s" and "env_ok env" and "n \<noteq> []" and "pf_typed (new_pf n i j f me mi)"
  shows "changes_only rc n False s (create_and_insert env n i j f me mi s)"
  using create_and_insert_ok [of rc s n env i j f me mi] assms
  by (auto simp: changes_only_def env_ok_def fiu_ready_at_def)

lemma stack_changes:
  assumes "fiu_ready_at rc s" and "env_ok env" and "n \<noteq> []"
  shows "changes_only rc n False s (fiu_enable_stack env n i j f func pos s)"
proof -
  have "changes_only rc n False s (create_and_insert env n i j f PF_STACK (M_stack g e p) (s\<lparr>bt_works := b\<rparr>))" for g e p b
    using create_changes [of rc "s\<lparr>bt_works := b\<rparr>" env n i j f PF_STACK] assms by (simp add: ready_update changes_only_def)
  with assms(1) show ?thesis by (simp add: fiu_enable_stack_def Let_def changes_same ready_update)
qed

lemma stack_by_name_changes:
  assumes "fiu_ready_at rc s" and "env_ok env" and "n \<noteq> []"
  shows "changes_only rc n False s (fiu_enable_stack_by_name env n i j f func pos s)"
proof -
  have "changes_only rc n False s (fiu_enable_stack env n i j f fp pos (s\<lparr>bt_works := b\<rparr>))" for fp b
    using stack_changes [of rc "s\<lparr>bt_works := b\<rparr>" env n] assms by (simp add: ready_update changes_only_def)
  with assms(1) show ?thesis by (simp add: fiu_enable_stack_by_name_def Let_def changes_same ready_update)
qed

lemma disable_changes:
  assumes "fiu_ready_at rc s" and "env_ok env" and "n \<noteq> []"
  shows "changes_only rc n True s (fiu_disable env n s)"
  using fiu_control.del_law [OF assms(2,1,3)] by (auto simp: changes_only_def)

lemma rc_execute_known:
  assumes "fiu_ready_at rc s" and "env_ok env" and "p_name ps = Ptr n" and "n \<noteq> []" and "c \<in> rc_commands"
    and "c = ''enable_stack_by_name'' \<Longrightarrow> p_func_name ps \<noteq> NULL"
  shows "\<exists>x. rc_execute env c ps s = map_option (\<lambda>(r, s'). (r, ''Error in '' @ c, s')) x \<and> changes_only rc n (c = ''disable'') s x"
proof -
  note calls = disable_changes [OF assms(1,2,4)] create_changes [OF assms(1,2,4)] stack_by_name_changes [OF assms(1,2,4)]
  consider "c = ''disable''" | "c = ''enable''" | "c = ''enable_random''"
    | f where "c = ''enable_stack_by_name''" "p_func_name ps = Ptr f"
    using assms(5,6) unfolding rc_commands_def by (cases "p_func_name ps") blast+
  then show ?thesis
  proof cases
    case 1
    then show ?thesis using assms(3) calls(1) by (intro exI [of _ "fiu_disable env n s"]) (simp add: rc_execute_def)
  next
    case 2
    then show ?thesis using assms(3) calls(2) [OF typed_always(1)] by (simp add: rc_execute_def fiu_enable_def) blast
  next
    case 3
    then show ?thesis using assms(3) calls(2) [OF typed_always(2)] by (simp add: rc_execute_def fiu_enable_random_def) blast
  next
    case 4
    then show ?thesis using assms(3) calls(3) by (simp add: rc_execute_def rc_enable_stack_by_name_def) blast
  qed
qed

text \<open>What a command has to have so that it does no damage.\<close>

definition harmless :: "string list \<Rightarrow> bool" where
  "harmless ws \<longleftrightarrow> (case ws of c # opts # _ \<Rightarrow> no_bad_opt opts \<and> (c \<in> rc_commands \<and> known_opts opts \<longrightarrow>
       has_key ''name'' opts \<and> (c = ''enable_stack_by_name'' \<longrightarrow> has_key ''func_name'' opts)) | _ \<Rightarrow> True)"

lemma rc_string_words:
  "fiu_rc_string env cmd s = (case cmd_words cmd of
      [] \<Rightarrow> Some (-1, ''Cannot get command'', s)
    | [c] \<Rightarrow> Some (-1, ''Cannot get parameters'', s)
    | c # opts # _ \<Rightarrow> parse_params opts rc_defaults \<bind>
        (\<lambda>p. case p of Inl error \<Rightarrow> Some (-1, error, s) | Inr ps \<Rightarrow> rc_execute env c ps s))"
proof -
  let ?d = "blank_delim" and ?m = "take (MAX_LINE - 1) cmd"
  note w = strtok_full_words [of ?m]
  show ?thesis
  proof (cases "strtok ?d ?m")
    case None
    with w show ?thesis by (simp add: fiu_rc_string_def strncpy_def cmd_words_def blank_delim_def)
  next
    case (Some cr)
    obtain c r where cr: "cr = (c, r)" by (cases cr)
    with strtok_full_words [of r] Some w show ?thesis
      by (auto simp: fiu_rc_string_def strncpy_def cmd_words_def blank_delim_def split: option.splits)
  qed
qed

lemma rc_string_words_safe:
  assumes "fiu_ready_at rc s" and "env_ok env" and "harmless (cmd_words cmd)"
  shows "\<exists>r e s'. fiu_rc_string env cmd s = Some (r, e, s') \<and> fiu_ready_at rc s' \<and>
    (case cmd_words cmd of
       [] \<Rightarrow> (r, e, s') = (-1, ''Cannot get command'', s)
     | [c] \<Rightarrow> (r, e, s') = (-1, ''Cannot get parameters'', s)
     | c # opts # _ \<Rightarrow>
         if \<not> known_opts opts then (r, e, s') = (-1, ''Unknown parameter'', s)
         else if c \<notin> rc_commands then (r, e, s') = (-1, ''Unknown command'', s)
         else r \<in> {0, -1} \<and> e = ''Error in '' @ c \<and> (\<exists>n pf. given_name NULL opts = Ptr n \<and> points s' = (points s)(n := pf) \<and> (c = ''disable'' \<longrightarrow> pf = None)))"
proof (cases "\<exists>c opts more. cmd_words cmd = c # opts # more")
  case False
  with assms(1) show ?thesis by (auto simp: rc_string_words split: list.splits)
next
  case True
  then obtain c opts more where words: "cmd_words cmd = c # opts # more" by blast
  with assms(3) have good: "no_bad_opt opts" "c \<in> rc_commands \<and> known_opts opts \<longrightarrow>
       has_key ''name'' opts \<and> (c = ''enable_stack_by_name'' \<longrightarrow> has_key ''func_name'' opts)" unfolding harmless_def by simp_all blast+
  from parse_safe [OF good(1), of rc_defaults] obtain res where
    res: "parse_params opts rc_defaults = Some res" "\<And>ps'. res = Inr ps' \<Longrightarrow> named opts rc_defaults ps'" by (auto simp: rc_defaults_def)
  note known = parse_known [OF res(1)]
  have run: "fiu_rc_string env cmd s = (case res of Inl error \<Rightarrow> Some (-1, error, s) | Inr ps \<Rightarrow> rc_execute env c ps s)"
    by (simp add: rc_string_words words res(1))
  show ?thesis
  proof (cases "known_opts opts")
    case False
    with known run words assms(1) show ?thesis by simp
  next
    case k: True
    with known obtain ps where ps: "res = Inr ps" "p_name ps = given_name NULL opts" by (auto simp: rc_defaults_def)
    show ?thesis
    proof (cases "c \<in> rc_commands")
      case False
      with k ps(1) run words assms(1) rc_execute_unknown [OF False] show ?thesis by simp
    next
      case True
      with good(2) k have keys: "has_key ''name'' opts" "c = ''enable_stack_by_name'' \<Longrightarrow> has_key ''func_name'' opts" by blast+
      with res(2) [OF ps(1)] have "p_name ps \<noteq> NULL" "p_name ps \<noteq> Ptr []" "c = ''enable_stack_by_name'' \<Longrightarrow> p_func_name ps \<noteq> NULL"
        by (simp_all add: named_def)
      moreover from this obtain n where n: "p_name ps = Ptr n" "n \<noteq> []" by (cases "p_name ps") auto
      ultimately obtain x where x: "rc_execute env c ps s = map_option (\<lambda>(r, s'). (r, ''Error in '' @ c, s')) x" "changes_only rc n (c = ''disable'') s x"
        using rc_execute_known [OF assms(1,2) n True] by blast
      then obtain r s' pf where "x = Some (r, s')" "r \<in> {0, -1}" "fiu_ready_at rc s'" "points s' = (points s)(n := pf)"
          "c = ''disable'' \<longrightarrow> pf = None" unfolding changes_only_def by blast
      moreover have "given_name NULL opts = Ptr n" using ps(2) n(1) by simp
      ultimately show ?thesis using k True ps(1) words run x(1) by auto
    qed
  qed
qed

subsection \<open>The thread\<close>

definition session_broken :: "session \<Rightarrow> bool" where
  "session_broken ses \<longleftrightarrow> 0 \<le> s_open_in ses \<and> 0 \<le> s_open_out ses \<and>
     (case (s_input ses, s_calls ses) of (Read_error # _, (env, w, epipe) # _) \<Rightarrow> \<not> epipe | _ \<Rightarrow> False)"

definition session_closed :: "session \<Rightarrow> bool" where
  "session_closed ses \<longleftrightarrow> 0 \<le> s_open_in ses \<and> 0 \<le> s_open_out ses \<and> s_input ses = [] \<and> s_calls ses \<noteq> []"

lemma rc_loop_broken: "session_broken ses \<Longrightarrow> rc_loop (s_calls ses) (s_input ses) s = Some (Failed, [], s)"
  by (auto simp: session_broken_def rc_do_command_def read_line_def MAX_LINE_def numeral_eq_Suc
      split: list.splits read_result.splits)

lemma rc_loop_closed: "session_closed ses \<Longrightarrow> rc_loop (s_calls ses) (s_input ses) s = Some (Closed, [], s)"
  by (cases "s_calls ses") (auto simp: session_closed_def rc_do_command_def read_line_def MAX_LINE_def numeral_eq_Suc)

lemma rc_reopen_ends:
  assumes "\<forall>ses\<in>set sessions. session_broken ses \<or> session_closed ses" and "0 \<le> n" and "n \<le> 11"
  shows "rc_reopen sessions n s = Some (if 10 < n + int (length (filter session_broken sessions)) then Ended else Serving,
    min 11 (n + int (length (filter session_broken sessions))), [], s)"
  using assms
proof (induction sessions arbitrary: n)
  case (Cons ses rest)
  show ?case
  proof (cases "10 < n")
    case True
    with Cons.prems show ?thesis by auto
  next
    case False
    with Cons.prems have opens: "\<not> s_open_in ses < 0" "\<not> s_open_out ses < 0" "\<forall>ses\<in>set rest. session_broken ses \<or> session_closed ses"
      by (auto simp: session_broken_def session_closed_def)
    show ?thesis
    proof (cases "session_broken ses")
      case True
      with False opens Cons.prems Cons.IH [OF opens(3), of "n + 1"] rc_loop_broken [OF True] show ?thesis
        by (simp add: algebra_simps)
    next
      case not_broken: False
      with Cons.prems have "session_closed ses" by simp
      with False not_broken opens Cons.prems Cons.IH [OF opens(3), of n] rc_loop_closed show ?thesis by simp
    qed
  qed
qed auto

lemma rec_inc_ready: "fiu_ready s \<Longrightarrow> fiu_ready_at 1 (rec_inc s)" "points (rec_inc s) = points s"
  by (simp_all add: rec_inc_def fiu_ready_at_def fiu_at_def points_def fun_eq_iff cong: ptr.case_cong option.case_cong)

subsection \<open>The pipes\<close>

lemma pipe_path_whole:
  assumes "- (2 ^ 31) \<le> pid" and "pid < 2 ^ 31" and "length ext \<le> 4"
  shows "pipe_path base pid ext = base @ ''-'' @ dec_int pid @ ext"
  using dec_int_length [OF assms(1,2)] assms(3) by (simp add: pipe_path_def)

lemma dec_int_inj: "dec_int m @ CHR ''.'' # e = dec_int n @ CHR ''.'' # e' \<Longrightarrow> m = n \<and> e = e'"
proof -
  assume eq: "dec_int m @ CHR ''.'' # e = dec_int n @ CHR ''.'' # e'"
  have "strtol_value (dec_int k @ CHR ''.'' # e) = k" for k e by (rule strtol_dec) (simp add: no_digit_def digit_val_def)
  then have "m = n" using eq by metis
  with eq show ?thesis by simp
qed

subsection \<open>Inputs that surprise\<close>

text \<open>The format that doc/remote_control.rst describes is not the one that is parsed.\<close>

lemma rc_documented_format: "fiu_rc_string env ''enable a 1 0'' s = Some (-1, ''Unknown parameter'', s)"
proof -
  have "parse_params ''a'' rc_defaults = Some (Inl ''Unknown parameter'')"
    by (simp add: parse_params.simps [of "''a''"] getsubopt_def rc_tokens_def rc_param_def)
  then show ?thesis by (simp add: fiu_rc_string_def strncpy_def MAX_LINE_def strtok_def)
qed

text \<open>An empty line ends the session like the end of the input.\<close>

lemma rc_empty_line: "rc_do_command env w (Byte (CHR 0x0A) # fd) s = Some (0, None, fd, s)"
  by (simp add: rc_do_command_def read_line_def MAX_LINE_def numeral_eq_Suc)

text \<open>Setting up the pipes does not change the library.\<close>

lemma fiu_rc_fifo_same: "sys_malloc_in sys \<Longrightarrow> sys_malloc_out sys \<Longrightarrow> \<exists>r ps'. fiu_rc_fifo sys base ps l = Some (r, ps', l)"
  by (cases l; cases "sys_mkfifo_in sys"; cases "sys_mkfifo_out sys"; cases "sys_thread sys")
    (simp_all add: fiu_rc_fifo_def rc_fifo_def Let_def rec_inc_def rec_dec_def)

subsection \<open>Properties\<close>

text \<open>Property C34: What \<open>read_line\<close> reads. Let \<open>t\<close> be the bytes from the pipe up to the first newline, zero byte, end of the
  input or error of \<open>read\<close>, or the first \<open>MAX_LINE\<close> of them. If there are \<open>MAX_LINE\<close>, they are the line, and what
  follows is left to be read. Otherwise it depends on what comes after \<open>t\<close>: at a newline, which is read and removed, or at the end of the input, the line is
  \<open>t\<close>; at a zero byte it is \<open>t\<close> with this byte; if \<open>read\<close> has failed, the result is -1. Never is more read than this, and
  never more than \<open>MAX_LINE\<close> bytes stored.\<close>

theorem read_line_bounds:
  "\<exists>t rest. fd = map Byte t @ rest \<and> length t \<le> MAX_LINE \<and> set t \<inter> {CHR 0x0A, CHR 0x00} = {}
    \<and> (if length t = MAX_LINE then read_line fd = (int MAX_LINE, t, rest)
       else case rest of
         [] \<Rightarrow> read_line fd = (int (length t), t, [])
       | End_of_file # fd' \<Rightarrow> read_line fd = (int (length t), t, fd')
       | Read_error # fd' \<Rightarrow> read_line fd = (-1, [], fd')
       | Byte c # fd' \<Rightarrow> c = CHR 0x0A \<and> read_line fd = (int (length t), t, fd')
           \<or> c = CHR 0x00 \<and> read_line fd = (int (length t) + 1, t @ [c], fd'))"
proof -
  from read_loop_reads [of fd MAX_LINE "[]"] obtain t rest where
    t: "fd = map Byte t @ rest" "length t \<le> MAX_LINE" "set t \<inter> {CHR 0x0A, CHR 0x00} = {}"
    and run: "if length t = MAX_LINE then read_loop MAX_LINE fd [] = (Ptr t, rest)
       else case rest of
         [] \<Rightarrow> read_loop MAX_LINE fd [] = (Ptr t, [])
       | End_of_file # fd' \<Rightarrow> read_loop MAX_LINE fd [] = (Ptr t, fd')
       | Read_error # fd' \<Rightarrow> read_loop MAX_LINE fd [] = (NULL, fd')
       | Byte c # fd' \<Rightarrow> c \<in> {CHR 0x0A, CHR 0x00} \<and> read_loop MAX_LINE fd [] = (Ptr (t @ [c]), fd')"
    unfolding append_Nil by blast
  have last: "t \<noteq> [] \<Longrightarrow> last t \<noteq> CHR 0x0A" using t(3) last_in_set by fastforce
  show ?thesis
    by (intro exI [of _ t] exI [of _ rest])
      (use t run last in \<open>auto simp: read_line_def split: if_splits list.splits read_result.splits\<close>)
qed

text \<open>Property C27: Commands and replies survive the text: the text of an enabling or disabling command, as the clients write it, is parsed to
  exactly the call it stands for, with its number, its information, its probability and its flag, and the reply to it is read back as
  the result of that call.\<close>

theorem rc_command_roundtrip:
  assumes "line_ok l" and "length (rc_text l) < MAX_LINE"
  shows "fiu_rc_string env (rc_text l) s
    = map_option (\<lambda>(r, s'). (r, rc_message l, s')) (ctl_step fiu_add fiu_disable env (rc_ctl l) s)
    \<and> strtol_value (rc_reply r) = r"
  using rc_string_line [OF assms] rc_reply_read by blast

theorem rc_command_roundtrip_witness:
  "fiu_rc_string quiet_env ''enable name=posix/io/*,failnum=-1,failinfo=28,onetime'' fiu_start
    = map_option (\<lambda>(r, s'). (r, ''Error in enable'', s')) (fiu_enable quiet_env ''posix/io/*'' (-1) 28 FIU_ONETIME fiu_start)"
proof -
  let ?l = "L_enable ''posix/io/*'' (-1) 28 True"
  have rendered: "rc_text ?l = ''enable name=posix/io/*,failnum=-1,failinfo=28,onetime''"
    by (simp add: once_text_def dec_int_def dec_nat.simps char_of_def bit_0)
  have "line_ok ?l" by (simp add: word_ok_def)
  from rc_command_roundtrip [OF this, of quiet_env fiu_start 0] show ?thesis
    unfolding rendered by (simp add: MAX_LINE_def fiu_enable_def once_flags_def)
qed

text \<open>Property C26: A client's session: whatever sequence of commands a client writes into the pipe, the thread executes them one by one; the replies are
  the results, and the points of failure afterwards those, that the same sequence has on a map; the thread goes on waiting
  with its recursion count at 1, so none of the failures can hit the remote control itself.\<close>

theorem rc_session_refines:
  assumes "fiu_ready s"
    and "\<forall>(env, w, e, l)\<in>set cs. env_ok env \<and> line_ok l \<and> length (rc_text l) < MAX_LINE \<and> (\<forall>x. 0 < w x)"
  shows "\<exists>s'. rc_fifo_thread [\<lparr>s_open_in = 3, s_open_out = 4, s_input = rc_stream (map (\<lambda>(env, w, e, l). l) cs),
        s_calls = map (\<lambda>(env, w, e, l). (env, w, e)) cs\<rparr>] s
      = Some (Serving, 0, map rc_reply (fst (ctl_maps args_pf (map (\<lambda>(env, w, e, l). rc_ctl l) cs) (points s))), s')
    \<and> fiu_ready_at 1 s' \<and> rec_count s' = 1
    \<and> points s' = snd (ctl_maps args_pf (map (\<lambda>(env, w, e, l). rc_ctl l) cs) (points s))"
  using rc_loop_lines [OF rec_inc_ready(1) [OF assms(1)] assms(2)]
  unfolding rec_inc_ready(2) by (auto simp: rc_fifo_thread_def fiu_ready_at_def fiu_at_def)

theorem rc_session_refines_witness:
  "\<exists>s s'. fiu_init quiet_env fiu_start = Some (0, s)
     \<and> rc_fifo_thread [\<lparr>s_open_in = 3, s_open_out = 4, s_input = rc_stream [L_enable ''a'' 1 0 False, L_disable ''a'', L_disable ''a''],
         s_calls = replicate 3 (quiet_env, (\<lambda>_. 1), False)\<rparr>] s = Some (Serving, 0, [rc_reply 0, rc_reply 0, rc_reply (-1)], s')
     \<and> rec_count s' = 1 \<and> points s' = Map.empty"
proof -
  obtain s where s: "fiu_init quiet_env fiu_start = Some (0, s)" "fiu_ready s" "points s = Map.empty" by (rule quiet_start)
  let ?c = "\<lambda>l. (quiet_env, (\<lambda>_ :: string. 1 :: int), False, l)"
  let ?ls = "[L_enable ''a'' 1 0 False, L_disable ''a'', L_disable ''a'']"
  have len: "length (dec_int 1) = 1" "length (dec_nat (unat (0 :: addr))) = 1" by (simp_all add: dec_int_def dec_nat.simps)
  have ok: "\<forall>(env, w, e, l)\<in>set (map ?c ?ls). env_ok env \<and> line_ok l \<and> length (rc_text l) < MAX_LINE \<and> (\<forall>x. 0 < w x)"
    using quiet_env_ok(1) len by (simp add: word_ok_def MAX_LINE_def once_text_def)
  from rc_session_refines [OF s(2) ok] s(1,3) show ?thesis
    by (auto simp: numeral_3_eq_3 fun_upd_def fun_eq_iff)
qed

text \<open>Property C29: What the remote control does with any line. One without words, or with one word only, is answered with -1. In any other the first word is
  the command and the second the parameters (what follows is ignored): if some parameter is not one that the library
  knows, or else if the command is not one of the four, the answer is -1 with the message that says so and the library is exactly
  as it was; and a known command returns 0 or -1 and changes at most the point of failure that the last parameter \<open>name\<close> gives, which
  \<open>disable\<close> leaves without one.
  The library is ready again in all cases. This excludes the lines that crash the process: those with a parameter that lacks its value or has one that is no number of its
  type, or an empty name of a point of failure or a function (\<open>no_bad_opt\<close>), and those with a known command and known parameters that do not give a
  name, or for a failure by stack no function.\<close>

theorem rc_string_safe:
  assumes "fiu_ready_at rc s" and "env_ok env" and "harmless (cmd_words cmd)"
  shows "\<exists>r e s'. fiu_rc_string env cmd s = Some (r, e, s') \<and> fiu_ready_at rc s' \<and>
    (case cmd_words cmd of
       [] \<Rightarrow> (r, e, s') = (-1, ''Cannot get command'', s)
     | [c] \<Rightarrow> (r, e, s') = (-1, ''Cannot get parameters'', s)
     | c # opts # _ \<Rightarrow>
         if \<not> known_opts opts then (r, e, s') = (-1, ''Unknown parameter'', s)
         else if c \<notin> rc_commands then (r, e, s') = (-1, ''Unknown command'', s)
         else r \<in> {0, -1} \<and> e = ''Error in '' @ c \<and> (\<exists>n pf. given_name NULL opts = Ptr n \<and> points s' = (points s)(n := pf) \<and> (c = ''disable'' \<longrightarrow> pf = None)))"
  by (rule rc_string_words_safe [OF assms])

theorem rc_string_safe_witness:
  "\<exists>s. fiu_init quiet_env fiu_start = Some (0, s)
     \<and> fiu_rc_string quiet_env '' enable_random   name=a*,bogus,onetime and more'' s = Some (-1, ''Unknown parameter'', s)
     \<and> fiu_rc_string quiet_env ''reboot name=a'' s = Some (-1, ''Unknown command'', s)
     \<and> (\<exists>r s' pf. fiu_rc_string quiet_env ''enable name=a,name=b,failnum=2,'' s = Some (r, ''Error in enable'', s')
          \<and> points s' = (points s)(''b'' := pf))"
proof -
  obtain s where s: "fiu_init quiet_env fiu_start = Some (0, s)" "fiu_ready s" by (rule quiet_start)
  note words = cmd_words_def full_words_def MAX_LINE_def
  note opts = no_bad_opt_def opt_bad_def opt_key_def opt_value_def has_key_def rc_opts_def known_opts_def rc_tokens_def rc_commands_def
    given_name_def atoi_def strtol_value_def sign_part_def is_space_def digit_val_def
  have w: "cmd_words '' enable_random   name=a*,bogus,onetime and more'' = [''enable_random'', ''name=a*,bogus,onetime'', ''and'', ''more'']"
    "cmd_words ''reboot name=a'' = [''reboot'', ''name=a'']"
    "cmd_words ''enable name=a,name=b,failnum=2,'' = [''enable'', ''name=a,name=b,failnum=2,'']" by (simp_all add: words)
  note safe = rc_string_safe [OF s(2) quiet_env_ok(1)]
  have "harmless (cmd_words '' enable_random   name=a*,bogus,onetime and more'')" "\<not> known_opts ''name=a*,bogus,onetime''"
    unfolding w harmless_def by (simp_all add: opts)
  from safe [OF this(1)] this(2)
  have "fiu_rc_string quiet_env '' enable_random   name=a*,bogus,onetime and more'' s = Some (-1, ''Unknown parameter'', s)"
    unfolding w by auto
  moreover have "harmless (cmd_words ''reboot name=a'')" "known_opts ''name=a''" "''reboot'' \<notin> rc_commands"
    unfolding w harmless_def by (simp_all add: opts)
  with safe [OF this(1)] have "fiu_rc_string quiet_env ''reboot name=a'' s = Some (-1, ''Unknown command'', s)"
    unfolding w by auto
  moreover have "harmless (cmd_words ''enable name=a,name=b,failnum=2,'')" "known_opts ''name=a,name=b,failnum=2,''" "''enable'' \<in> rc_commands"
    "given_name NULL ''name=a,name=b,failnum=2,'' = Ptr ''b''"
    unfolding w harmless_def by (simp_all add: opts digits.simps)
  with safe [OF this(1)] have "\<exists>r s' pf. fiu_rc_string quiet_env ''enable name=a,name=b,failnum=2,'' s = Some (r, ''Error in enable'', s')
          \<and> points s' = (points s)(''b'' := pf)"
    unfolding w by auto
  ultimately show ?thesis using s(1) by blast
qed

text \<open>The inputs that the previous property leaves out do damage: an option without its value, or a command without a
  name, dereferences a NULL pointer, an empty name is read before its beginning, and so the thread of the remote control takes the process with it.\<close>

theorem rc_missing_value:
  "fiu_rc_string env ''enable name=x,failnum'' s = None
    \<and> fiu_rc_string env ''enable_random name=x,probability'' s = None
    \<and> fiu_rc_string env ''disable onetime'' s = None
    \<and> fiu_rc_string env ''disable name='' s = None"
proof -
  note step = parse_params.simps [of "''name=x,failnum''"] parse_params.simps [of "''failnum''"] parse_params.simps [of "''onetime''"]
    parse_params.simps [of "''name=x,probability''"] parse_params.simps [of "''probability''"] parse_params.simps [of "''name=''"]
    parse_params.simps [of "[]"]
  note parse = step getsubopt_def rc_tokens_def rc_param_def
  have failnum: "parse_params ''name=x,failnum'' rc_defaults = None" by (simp add: parse atoi_def)
  have probability: "parse_params ''name=x,probability'' rc_defaults = None" by (simp add: parse strtod_def)
  have flag: "parse_params ''onetime'' rc_defaults = Some (Inr (rc_defaults\<lparr>p_flags := FIU_ONETIME\<rparr>))"
    using parse_flag [of rc_defaults] by (simp add: rc_defaults_def)
  have no_name: "parse_params ''name='' rc_defaults = Some (Inr (rc_defaults\<lparr>p_name := Ptr []\<rparr>))" by (simp add: parse)
  have disable: "fiu_disable env [] s = None"
    by (simp add: fiu_disable_def wtable_del_def is_wildcard_def Option.bind_rzero)
  have words: "fiu_rc_string env (c @ '' '' @ opts) s = (parse_params opts rc_defaults \<bind>
      (\<lambda>p. case p of Inl error \<Rightarrow> Some (-1, error, s) | Inr ps \<Rightarrow> rc_execute env c ps s))"
    if "blankless c" "blankless opts" "c \<noteq> []" "opts \<noteq> []" "length (c @ '' '' @ opts) < MAX_LINE" for c opts
    using that strtok_pair [OF that(1-4)] by (simp add: fiu_rc_string_def strncpy_def)
  note run = words [of "''enable''" "''name=x,failnum''"] words [of "''enable_random''" "''name=x,probability''"]
    words [of "''disable''" "''onetime''"] words [of "''disable''" "''name=''"]
  have "rc_execute env ''disable'' (rc_defaults\<lparr>p_flags := FIU_ONETIME\<rparr>) s = None"
    "rc_execute env ''disable'' (rc_defaults\<lparr>p_name := Ptr []\<rparr>) s = None"
    using disable by (simp_all add: rc_execute_def rc_defaults_def)
  with run failnum probability flag no_name show ?thesis by (simp add: blanks_def MAX_LINE_def)
qed

text \<open>Property C32: The thread does not spin: it gives up after eleven sessions that broke with a read error; sessions that the client only closes do not
  count, so it serves as many of them as there are.\<close>

theorem rc_thread_gives_up:
  assumes "\<forall>ses\<in>set sessions. session_broken ses \<or> session_closed ses"
  shows "rc_fifo_thread sessions s =
    (let broken = int (length (filter session_broken sessions))
     in Some (if 10 < broken then Ended else Serving, min 11 broken, [], rec_inc s))"
  using rc_reopen_ends [OF assms, of 0 "rec_inc s"] by (simp add: rc_fifo_thread_def Let_def)

definition read_error_session :: session where
  "read_error_session = \<lparr>s_open_in = 3, s_open_out = 4, s_input = [Read_error], s_calls = [(quiet_env, (\<lambda>_. 1), False)]\<rparr>"

definition eof_session :: session where
  "eof_session = \<lparr>s_open_in = 3, s_open_out = 4, s_input = [], s_calls = [(quiet_env, (\<lambda>_. 1), False)]\<rparr>"

theorem rc_thread_gives_up_witness:
  "rc_fifo_thread (replicate 7 read_error_session @ eof_session # replicate 9 read_error_session) fiu_start
     = Some (Ended, 11, [], rec_inc fiu_start)
   \<and> rc_fifo_thread (replicate 7 read_error_session @ replicate 20 eof_session) fiu_start = Some (Serving, 7, [], rec_inc fiu_start)"
proof -
  have s: "session_broken read_error_session" "\<not> session_broken eof_session" "session_closed eof_session"
    by (simp_all add: session_broken_def session_closed_def read_error_session_def eof_session_def)
  have f: "filter session_broken (replicate n read_error_session) = replicate n read_error_session"
    "filter session_broken (replicate n eof_session) = []" for n using s by (induction n) auto
  show ?thesis
    using rc_thread_gives_up [of "replicate 7 read_error_session @ eof_session # replicate 9 read_error_session" fiu_start]
      rc_thread_gives_up [of "replicate 7 read_error_session @ replicate 20 eof_session" fiu_start] s f by simp
qed

text \<open>Setting up the remote control: with the two path names allocated, \<open>_fiu_rc_fifo\<close> leaves the library as it
  was; if it succeeds, both pipes of this process exist, one thread more serves them and they are removed at exit, and if it fails,
  no thread was started and every pipe that exists was there before.\<close>

theorem rc_fifo_sets_up:
  assumes "sys_malloc_in sys" and "sys_malloc_out sys"
    and "sys_mkfifo_in sys = Fifo_exists \<Longrightarrow> pipe_path base (sys_pid sys) ''.in'' \<in> set (pipe_files ps)"
    and "sys_mkfifo_out sys = Fifo_exists \<Longrightarrow> pipe_path base (sys_pid sys) ''.out'' \<in> set (pipe_files ps)"
  shows "\<exists>r ps'. rc_fifo sys base ps s = Some (r, ps', s) \<and>
    (r = 0 \<and> {pipe_path base (sys_pid sys) ''.in'', pipe_path base (sys_pid sys) ''.out''} \<subseteq> set (pipe_files ps')
        \<and> serving ps' = serving ps + 1
        \<and> set (pipe_files (fifo_atexit ps')) = set (pipe_files ps') - {pipe_path base (sys_pid sys) ''.in'', pipe_path base (sys_pid sys) ''.out''}
     \<or> r = -1 \<and> set (pipe_files ps') \<subseteq> set (pipe_files ps) \<and> serving ps' = serving ps)"
  using assms
  by (cases s; cases "sys_mkfifo_in sys"; cases "sys_mkfifo_out sys"; cases "sys_thread sys")
    (auto simp: rc_fifo_def Let_def rec_inc_def rec_dec_def mkfifo_def unlink_def fifo_atexit_def)

theorem rc_fifo_sets_up_witness:
  "\<exists>r ps'. rc_fifo \<lparr>sys_malloc_in = True, sys_malloc_out = True, sys_pid = 7, sys_mkfifo_in = Fifo_made, sys_mkfifo_out = Fifo_error,
      sys_thread = True, sys_strdup = True\<rparr> ''x'' \<lparr>npipe_basename = NULL, npipe_path_in = NULL, npipe_path_out = NULL,
        pipe_files = [], serving = 0, atexits = 0, atforks = 0\<rparr> fiu_start = Some (r, ps', fiu_start)"
  using rc_fifo_sets_up [of "\<lparr>sys_malloc_in = True, sys_malloc_out = True, sys_pid = 7, sys_mkfifo_in = Fifo_made, sys_mkfifo_out = Fifo_error,
      sys_thread = True, sys_strdup = True\<rparr>"] by simp blast

text \<open>Processes do not share pipes: the path names are never truncated, and those of two processes (a process and its
  forked child, say) or of the two directions are different.\<close>

theorem rc_pipes_distinct:
  assumes "- (2 ^ 31) \<le> pid" and "pid < 2 ^ 31" and "- (2 ^ 31) \<le> pid'" and "pid' < 2 ^ 31"
    and "ext \<in> {''.in'', ''.out''}" and "ext' \<in> {''.in'', ''.out''}"
  shows "pipe_path base pid ext = base @ ''-'' @ dec_int pid @ ext
    \<and> (pipe_path base pid ext = pipe_path base pid' ext' \<longleftrightarrow> pid = pid' \<and> ext = ext')"
proof -
  have short: "length ext \<le> 4" "length ext' \<le> 4" using assms(5,6) by auto
  obtain e e' where ext: "ext = CHR ''.'' # e" "ext' = CHR ''.'' # e'" using assms(5,6) by auto
  note paths = pipe_path_whole [OF assms(1,2) short(1), of base] pipe_path_whole [OF assms(3,4) short(2), of base]
  show ?thesis unfolding paths using dec_int_inj [of pid e pid' e'] ext by auto
qed

theorem rc_pipes_distinct_witness:
  "pipe_path ''/tmp/fiu-ctrl'' 100 ''.in'' \<noteq> pipe_path ''/tmp/fiu-ctrl'' 101 ''.in''"
  by (subst conjunct2 [OF rc_pipes_distinct]) simp_all

end
