(* ===== verification/Run_Preload.thy ===== *)
theory Run_Preload
  imports Rc_Correct
begin

text \<open>
  The run preloader, src/preload/run/run.c: the constructor that initializes the library and configures it from two variables of the
  environment.
\<close>

datatype run_end = Run_done | Run_failed string | Run_no_memory

text \<open>The \<open>while\<close> loop, from the call of \<open>strtok_r\<close> on; \<open>envs i\<close> is the environment of the \<open>i\<close>-th command.\<close>

function run_commands :: "(nat \<Rightarrow> env) \<Rightarrow> nat \<Rightarrow> string \<Rightarrow> fiu \<Rightarrow> (run_end \<times> fiu) option" where
  "run_commands envs i state s =
     (case strtok [CHR 0x0A] state of
        None \<Rightarrow> Some (Run_done, s)
      | Some (tok, state') \<Rightarrow> do {
          (r, rc_error, s') \<leftarrow> fiu_rc_string (envs i) tok s;
          if r \<noteq> 0 then Some (Run_failed rc_error, s') else run_commands envs (i + 1) state' s' })"
  by pat_completeness auto
termination
  by (relation "measure (\<lambda>(envs, i, state, s). length state)") (auto dest: strtok_shorter)

declare run_commands.simps [simp del]

definition fiu_run_init :: "env \<Rightarrow> sys \<Rightarrow> (nat \<Rightarrow> env) \<Rightarrow> bool \<Rightarrow> string ptr \<Rightarrow> string ptr \<Rightarrow> pipes \<Rightarrow> fiu
    \<Rightarrow> (run_end \<times> pipes \<times> fiu) option" where
  "fiu_run_init env sys envs strdup_ok fiu_fifo_env fiu_enable_env ps s = do {
     (_, s1) \<leftarrow> fiu_init env s;
     (ps1, s2) \<leftarrow> (case fiu_fifo_env of
         NULL \<Rightarrow> Some (ps, s1)
       | Ptr base \<Rightarrow> if base = [] then Some (ps, s1)
           else do { (r, ps', s') \<leftarrow> fiu_rc_fifo sys base ps s1; Some (ps', s') });
     case fiu_enable_env of
       NULL \<Rightarrow> Some (Run_done, ps1, s2)
     | Ptr commands \<Rightarrow>
         if commands = [] then Some (Run_done, ps1, s2)
         else if \<not> strdup_ok then Some (Run_no_memory, ps1, s2)
         else do { (e, s3) \<leftarrow> run_commands envs 0 commands s2; Some (e, ps1, s3) } }"

text \<open>What a list of commands does to a map, up to the first that fails.\<close>

fun until_failure :: "(string \<Rightarrow> 'a \<Rightarrow> 'p) \<Rightarrow> 'a ctl list \<Rightarrow> (string \<rightharpoonup> 'p) \<Rightarrow> (string \<rightharpoonup> 'p) \<times> bool" where
  "until_failure mk [] m = (m, True)"
| "until_failure mk (c # cs) m =
     (if ctl_result c m = 0 then until_failure mk cs (ctl_map mk c m) else (ctl_map mk c m, False))"

definition rc_lines :: "rc_line list \<Rightarrow> string" where
  "rc_lines ls = concat (map (\<lambda>l. rc_text l @ [CHR 0x0A]) ls)"

lemma rc_message_disable: "ctl_result (rc_ctl l) m \<noteq> 0 \<Longrightarrow> rc_message l = ''Error in disable''"
  by (cases l) (auto split: if_splits)

text \<open>What running a list of commands from \<open>s\<close> must give.\<close>

definition commands_done :: "rc_line list \<Rightarrow> int \<Rightarrow> fiu \<Rightarrow> (run_end \<times> fiu) option \<Rightarrow> bool" where
  "commands_done ls rc s x \<longleftrightarrow>
     (\<exists>s'. x = Some (if snd (until_failure args_pf (map rc_ctl ls) (points s)) then Run_done else Run_failed ''Error in disable'', s')
        \<and> fiu_ready_at rc s' \<and> points s' = fst (until_failure args_pf (map rc_ctl ls) (points s)))"

text \<open>One command: the token \<open>w\<close> may be the text of \<open>l\<close> with white space around it.\<close>

lemma run_command_step:
  assumes "fiu_ready_at rc s" and "\<forall>j. env_ok (envs j)" and "line_ok l" and "length (rc_text l) < MAX_LINE"
    and "strtok [CHR 0x0A] state = Some (w, state')" and "fiu_rc_string (envs i) w s = fiu_rc_string (envs i) (rc_text l) s"
    and rest: "\<And>s1. fiu_ready_at rc s1 \<Longrightarrow> commands_done ls rc s1 (run_commands envs (i + 1) state' s1)"
  shows "commands_done (l # ls) rc s (run_commands envs i state s)"
proof -
  have env: "env_ok (envs i)" using assms(2) by blast
  from fiu_control.step_law [OF env assms(1) line_ok_ctl [OF assms(3)]] obtain s1 where
    s1: "ctl_step fiu_add fiu_disable (envs i) (rc_ctl l) s = Some (ctl_result (rc_ctl l) (points s), s1)" "fiu_ready_at rc s1"
      "points s1 = ctl_map args_pf (rc_ctl l) (points s)" by blast
  have run: "fiu_rc_string (envs i) w s = Some (ctl_result (rc_ctl l) (points s), rc_message l, s1)"
    using rc_string_line [OF assms(3,4), of "envs i" s] s1(1) assms(6) by simp
  show ?thesis
  proof (cases "ctl_result (rc_ctl l) (points s) = 0")
    case True
    with rest [OF s1(2)] assms(5) run s1(3) show ?thesis by (simp add: commands_done_def run_commands.simps [of envs i])
  next
    case False
    with assms(5) run s1 rc_message_disable [OF False] show ?thesis by (simp add: commands_done_def run_commands.simps [of envs i])
  qed
qed

lemma run_commands_none: "fiu_ready_at rc s \<Longrightarrow> commands_done [] rc s (run_commands envs i [] s)"
  by (simp add: commands_done_def run_commands.simps strtok_def)

lemma run_commands_lines:
  assumes "fiu_ready_at rc s" and "\<forall>j. env_ok (envs j)" and "\<forall>l\<in>set ls. line_ok l \<and> length (rc_text l) < MAX_LINE"
  shows "commands_done ls rc s (run_commands envs i (rc_lines ls) s)"
  using assms(1,3)
proof (induction ls arbitrary: s i)
  case Nil
  then show ?case by (simp add: rc_lines_def run_commands_none)
next
  case (Cons l ls)
  from Cons.prems(2) have l: "line_ok l" "length (rc_text l) < MAX_LINE" by simp_all
  have "rc_text l \<noteq> []" by (cases l) simp_all
  moreover have "\<forall>c\<in>set (rc_text l). c \<notin> set [CHR 0x0A]" using rc_text_chars(1) [OF l(1)] by auto
  ultimately have tok: "strtok [CHR 0x0A] (rc_lines (l # ls)) = Some (rc_text l, rc_lines ls)"
    using strtok_word(1) [of "rc_text l" "[CHR 0x0A]" "CHR 0x0A" "rc_lines ls"] by (simp add: rc_lines_def)
  have "commands_done ls rc s1 (run_commands envs (i + 1) (rc_lines ls) s1)" if "fiu_ready_at rc s1" for s1
    using Cons.IH [OF that] Cons.prems(2) by simp
  from run_command_step [OF Cons.prems(1) assms(2) l tok refl this] show ?case .
qed

lemma run_init_lines:
  assumes "env_good env" and "\<forall>j. env_ok (envs j)" and "ls \<noteq> []" and "\<forall>l\<in>set ls. line_ok l \<and> length (rc_text l) < MAX_LINE"
  shows "\<exists>s. fiu_run_init env sys envs True NULL (Ptr (rc_lines ls)) ps fiu_start
      = Some (if snd (until_failure args_pf (map rc_ctl ls) Map.empty) then Run_done else Run_failed ''Error in disable'', ps, s)
    \<and> fiu_ready s \<and> points s = fst (until_failure args_pf (map rc_ctl ls) Map.empty)"
proof -
  obtain s0 where s0: "fiu_init env fiu_start = Some (0, s0)" "fiu_ready s0" "points s0 = Map.empty"
    using fiu_init_start [OF assms(1)] by blast
  have "rc_lines ls \<noteq> []" using assms(3) by (cases ls) (simp_all add: rc_lines_def)
  with run_commands_lines [OF s0(2) assms(2,4), of 0] s0 show ?thesis by (auto simp: fiu_run_init_def commands_done_def)
qed

text \<open>Starting a program under \<open>fiu-run\<close>: the commands in \<open>FIU_ENABLE\<close> are executed in their order, up to and including the first that
  fails, from a library that has just been initialized; the points of failure are then those that these commands have made on an
  empty map, and the constructor ends.\<close>

theorem run_init_enables:
  assumes "env_good env" and "\<forall>j. env_ok (envs j)" and "ls \<noteq> []" and "\<forall>l\<in>set ls. line_ok l \<and> length (rc_text l) < MAX_LINE"
  shows "\<exists>s. fiu_run_init env sys envs True NULL (Ptr (rc_lines ls)) ps fiu_start
      = Some (if snd (until_failure args_pf (map rc_ctl ls) Map.empty) then Run_done else Run_failed ''Error in disable'', ps, s)
    \<and> fiu_ready s \<and> points s = fst (until_failure args_pf (map rc_ctl ls) Map.empty)"
  by (rule run_init_lines [OF assms])

theorem run_init_enables_witness:
  "\<forall>sys ps. \<exists>s. fiu_run_init quiet_env sys (\<lambda>_. quiet_env) True NULL (Ptr (rc_lines [L_enable ''a'' 1 0 False, L_disable ''b'', L_enable ''c'' 1 0 False]))
      ps fiu_start = Some (Run_failed ''Error in disable'', ps, s) \<and> points s = [''a'' \<mapsto> args_pf ''a'' (1, 0, 0, PF_ALWAYS, M_unset)]"
proof (intro allI)
  fix sys ps
  have len: "length (dec_int 1) = 1" "length (dec_nat (unat (0 :: addr))) = 1" by (simp_all add: dec_int_def dec_nat.simps)
  have "\<forall>l\<in>set [L_enable ''a'' 1 0 False, L_disable ''b'', L_enable ''c'' 1 0 False]. line_ok l \<and> length (rc_text l) < MAX_LINE"
    using len by (simp add: word_ok_def MAX_LINE_def once_text_def)
  from run_init_enables [OF quiet_env_ok(2) _ _ this, of "\<lambda>_. quiet_env" sys ps] quiet_env_ok(1) 
  show "\<exists>s. fiu_run_init quiet_env sys (\<lambda>_. quiet_env) True NULL
      (Ptr (rc_lines [L_enable ''a'' 1 0 False, L_disable ''b'', L_enable ''c'' 1 0 False])) ps fiu_start
      = Some (Run_failed ''Error in disable'', ps, s) \<and> points s = [''a'' \<mapsto> args_pf ''a'' (1, 0, 0, PF_ALWAYS, M_unset)]"
    by (auto simp: once_flags_def fun_upd_def fun_eq_iff)
qed

end
