(* ===== verification/Preload.thy ===== *)
theory Preload
  imports Fiu_API
begin

text \<open>
  The POSIX preloader, src/preload/posix: the table of streams with a simulated error (the part of
  modules/posix.custom.c that codegen.h relies on) and the macros of codegen.h, from which the wrapper of each function is
  put together. A macro is a definition; the function that it wraps is an argument, an address with a behaviour.
\<close>

subsection \<open>State\<close>

text \<open>What the wrapped functions work on: \<open>errno\<close> and the rest of the process.\<close>

record 'w proc =
  errno :: int
  outside :: 'w

text \<open>The state of the preloader for one thread: the recursion counter, for each function the pointer to the original (0 is
  NULL) and the counter of its initialization, the library, and the variables of the table of streams.\<close>

record 'w preload =
  fiu_called :: int
  orig :: "string \<Rightarrow> addr"
  in_init :: "string \<Rightarrow> int"
  lib :: fiu
  ferror_table :: "addr hash ptr"
  ferror_locked :: bool
  ferror_once :: bool
  proc :: "'w proc"

text \<open>What a call of a wrapper finds outside: \<open>dlsym\<close>, the environments of its calls of \<open>fiu_fail\<close>, what \<open>random\<close>
  returns, and the allocations of the hash table.\<close>

record wcall =
  wc_dlsym :: "string \<Rightarrow> addr"
  wc_reduce_env :: env
  wc_reduce_random :: nat
  wc_env :: env
  wc_random :: nat
  wc_malloc_h :: bool
  wc_malloc_entries :: bool
  wc_mem :: mem

type_synonym ('a, 'r, 'w) cfun = "addr \<Rightarrow> 'a \<Rightarrow> 'w proc \<Rightarrow> 'r \<times> 'w proc"

definition called_inc :: "'w preload \<Rightarrow> 'w preload" where
  "called_inc s = s\<lparr>fiu_called := fiu_called s + 1\<rparr>"

definition called_dec :: "'w preload \<Rightarrow> 'w preload" where
  "called_dec s = s\<lparr>fiu_called := fiu_called s - 1\<rparr>"

subsection \<open>The streams with a simulated error\<close>

text \<open>\<open>%lx\<close> into 17 bytes.\<close>

fun hex_nat :: "nat \<Rightarrow> string" where
  "hex_nat n = (let d = (\<lambda>k. if k < 10 then char_of (48 + k) else char_of (87 + k)) in
     if n < 16 then [d n] else hex_nat (n div 16) @ [d (n mod 16)])"

declare hex_nat.simps [simp del]

definition stream_to_key :: "addr \<Rightarrow> string" where
  "stream_to_key stream = take 16 (hex_nat (unat stream))"

definition ferror_lock :: "'w preload \<Rightarrow> 'w preload option" where
  "ferror_lock s = (if ferror_locked s then None else Some (s\<lparr>ferror_locked := True\<rparr>))"

definition ferror_unlock :: "'w preload \<Rightarrow> 'w preload option" where
  "ferror_unlock s = (if ferror_locked s then Some (s\<lparr>ferror_locked := False\<rparr>) else None)"

definition fiu_init_ferror_hash_table :: "wcall \<Rightarrow> 'w preload \<Rightarrow> 'w preload option" where
  "fiu_init_ferror_hash_table cx s = do {
     s1 \<leftarrow> ferror_lock (called_inc s);
     let s2 = s1\<lparr>ferror_table := hash_create (wc_malloc_h cx) (wc_malloc_entries cx) NULL\<rparr>;
     s3 \<leftarrow> ferror_unlock s2;
     Some (called_dec s3) }"

definition ferror_init_once :: "wcall \<Rightarrow> 'w preload \<Rightarrow> 'w preload option" where
  "ferror_init_once cx s =
     (if ferror_once s then Some s else fiu_init_ferror_hash_table cx (s\<lparr>ferror_once := True\<rparr>))"

definition set_ferror :: "wcall \<Rightarrow> addr \<Rightarrow> 'w preload \<Rightarrow> 'w preload option" where
  "set_ferror cx stream s = do {
     let key = stream_to_key stream;
     s1 \<leftarrow> ferror_init_once cx s;
     s2 \<leftarrow> ferror_lock s1;
     h \<leftarrow> deref (ferror_table s2);
     (_, h') \<leftarrow> hash_set (wc_mem cx) h key (Ptr 0xDEAD);
     ferror_unlock (s2\<lparr>ferror_table := Ptr h'\<rparr>) }"

definition get_ferror :: "wcall \<Rightarrow> addr \<Rightarrow> 'w preload \<Rightarrow> (bool \<times> 'w preload) option" where
  "get_ferror cx stream s = do {
     let key = stream_to_key stream;
     s1 \<leftarrow> ferror_init_once cx s;
     s2 \<leftarrow> ferror_lock s1;
     h \<leftarrow> deref (ferror_table s2);
     v \<leftarrow> hash_get h key;
     s3 \<leftarrow> ferror_unlock s2;
     Some (\<not> is_null v, s3) }"

definition clear_ferror :: "wcall \<Rightarrow> addr \<Rightarrow> 'w preload \<Rightarrow> 'w preload option" where
  "clear_ferror cx stream s = do {
     let key = stream_to_key stream;
     s1 \<leftarrow> ferror_init_once cx s;
     s2 \<leftarrow> ferror_lock s1;
     h \<leftarrow> deref (ferror_table s2);
     (_, h') \<leftarrow> hash_del (wc_mem cx) h key;
     ferror_unlock (s2\<lparr>ferror_table := Ptr h'\<rparr>) }"

subsection \<open>The macros\<close>

text \<open>\<open>libc_symbol\<close>, on platforms with \<open>RTLD_NEXT\<close>.\<close>

definition libc_symbol :: "wcall \<Rightarrow> string \<Rightarrow> addr" where
  "libc_symbol cx symbol = wc_dlsym cx symbol"

text \<open>The initialization that \<open>mkwrap_init\<close> generates; \<open>dlsym\<close> is called in the state after \<open>begin_init\<close>.\<close>

definition begin_init :: "string \<Rightarrow> 'w preload \<Rightarrow> 'w preload" where
  "begin_init name s = (called_inc s)\<lparr>in_init := (in_init s)(name := in_init s name + 1)\<rparr>"

definition wrap_init :: "wcall \<Rightarrow> string \<Rightarrow> 'w preload \<Rightarrow> 'w preload" where
  "wrap_init cx name s =
     (let s1 = begin_init name s;
          s2 = s1\<lparr>orig := (orig s1)(name := libc_symbol cx name)\<rparr>;
          s3 = s2\<lparr>in_init := (in_init s2)(name := in_init s2 name - 1)\<rparr>
      in called_dec s3)"

text \<open>A call through the pointer to the original.\<close>

definition call_orig :: "('a, 'r, 'w) cfun \<Rightarrow> string \<Rightarrow> 'a \<Rightarrow> 'w preload \<Rightarrow> ('r \<times> 'w preload) option" where
  "call_orig call name args s =
     (if orig s name = 0 then None
      else let (r, p) = call (orig s name) args (proc s) in Some (r, s\<lparr>proc := p\<rparr>))"

text \<open>\<open>mkwrap_body_called\<close>: the value that is returned, if the function ends here.\<close>

definition body_called :: "wcall \<Rightarrow> ('a, 'r, 'w) cfun \<Rightarrow> string \<Rightarrow> 'r \<Rightarrow> 'a \<Rightarrow> 'w preload \<Rightarrow> ('r option \<times> 'w preload) option" where
  "body_called cx call name on_err args s =
     (if fiu_called s \<noteq> 0 then
        (if orig s name = 0 \<and> in_init s name \<noteq> 0 then Some (Some on_err, s)
         else do {
           let s1 = (if orig s name = 0 then wrap_init cx name s else s);
           (r, s2) \<leftarrow> call_orig call name args s1;
           Some (Some r, s2) })
      else Some (None, called_inc s))"

definition wrap_fail :: "env \<Rightarrow> string \<Rightarrow> 'w preload \<Rightarrow> (int \<times> 'w preload) option" where
  "wrap_fail env fname s = do { (r, l) \<leftarrow> fiu_fail env fname (lib s); Some (r, s\<lparr>lib := l\<rparr>) }"

text \<open>The bodies: the value of \<open>r\<close> if they jump to \<open>exit\<close>.\<close>

definition body_failinfo :: "wcall \<Rightarrow> string \<Rightarrow> (addr \<Rightarrow> 'r) \<Rightarrow> 'w preload \<Rightarrow> ('r option \<times> 'w preload) option" where
  "body_failinfo cx fname cast s = do {
     (fstatus, s1) \<leftarrow> wrap_fail (wc_env cx) fname s;
     if fstatus \<noteq> 0 then do { finfo \<leftarrow> fiu_failinfo (lib s1); Some (Some (cast finfo), s1) }
     else Some (None, s1) }"

definition body_hardcoded :: "wcall \<Rightarrow> string \<Rightarrow> 'r \<Rightarrow> 'w preload \<Rightarrow> ('r option \<times> 'w preload) option" where
  "body_hardcoded cx fname fail_ret s = do {
     (fstatus, s1) \<leftarrow> wrap_fail (wc_env cx) fname s;
     Some (if fstatus \<noteq> 0 then Some fail_ret else None, s1) }"

text \<open>\<open>valid_errnos[random() % sizeof(valid_errnos) / sizeof(int)]\<close>\<close>

definition pick_errno :: "int list \<Rightarrow> nat \<Rightarrow> int option" where
  "pick_errno valid r = do { m \<leftarrow> c_mod r (4 * length valid); c_nth valid (m div 4) }"

text \<open>\<open>errno = (long) finfo\<close>\<close>

definition errno_of :: "addr \<Rightarrow> int" where
  "errno_of finfo = sint (ucast finfo :: 32 word)"

definition body_errno :: "wcall \<Rightarrow> string \<Rightarrow> 'r \<Rightarrow> int list \<Rightarrow> 'w preload \<Rightarrow> ('r option \<times> 'w preload) option" where
  "body_errno cx fname fail_ret valid s = do {
     (fstatus, s1) \<leftarrow> wrap_fail (wc_env cx) fname s;
     if fstatus \<noteq> 0 then do {
       finfo \<leftarrow> fiu_failinfo (lib s1);
       e \<leftarrow> (if finfo = 0 then pick_errno valid (wc_random cx) else Some (errno_of finfo));
       Some (Some fail_ret, s1\<lparr>proc := (proc s1)\<lparr>errno := e\<rparr>\<rparr>) }
     else Some (None, s1) }"

definition body_errno_ferror ::
  "wcall \<Rightarrow> string \<Rightarrow> 'r \<Rightarrow> int list \<Rightarrow> addr \<Rightarrow> 'w preload \<Rightarrow> ('r option \<times> 'w preload) option" where
  "body_errno_ferror cx fname fail_ret valid stream s = do {
     (fstatus, s1) \<leftarrow> wrap_fail (wc_env cx) fname s;
     if fstatus \<noteq> 0 then do {
       finfo \<leftarrow> fiu_failinfo (lib s1);
       e \<leftarrow> (if finfo = 0 then pick_errno valid (wc_random cx) else Some (errno_of finfo));
       s2 \<leftarrow> set_ferror cx stream (s1\<lparr>proc := (proc s1)\<lparr>errno := e\<rparr>\<rparr>);
       Some (Some fail_ret, s2) }
     else Some (None, s1) }"

text \<open>\<open>CNT -= random() % CNT\<close>, for a \<open>CNT\<close> of type \<open>size_t\<close> and for one of type \<open>int\<close>. The remainder of a number that is not
  negative has no sign.\<close>

definition reduce_size :: "nat \<Rightarrow> 64 word \<Rightarrow> 64 word option" where
  "reduce_size r n = do { m \<leftarrow> c_mod r (unat n); Some (n - of_nat m) }"

definition reduce_int :: "nat \<Rightarrow> int \<Rightarrow> int option" where
  "reduce_int r n = do { m \<leftarrow> c_mod r (nat \<bar>n\<bar>); Some (sint (word_of_int (n - int m) :: 32 word)) }"

definition body_reduce :: "wcall \<Rightarrow> (nat \<Rightarrow> 'a \<Rightarrow> 'a option) \<Rightarrow> string \<Rightarrow> 'a \<Rightarrow> 'w preload \<Rightarrow> ('a \<times> 'w preload) option" where
  "body_reduce cx reduce fname args s = do {
     (fstatus, s1) \<leftarrow> wrap_fail (wc_reduce_env cx) fname s;
     if fstatus \<noteq> 0 then do { args' \<leftarrow> reduce (wc_reduce_random cx) args; Some (args', s1) }
     else Some (args, s1) }"

text \<open>\<open>mkwrap_bottom\<close>, which a jump to \<open>exit\<close> enters at the label.\<close>

definition wrap_bottom ::
  "wcall \<Rightarrow> ('a, 'r, 'w) cfun \<Rightarrow> string \<Rightarrow> 'a \<Rightarrow> 'r option \<times> 'w preload \<Rightarrow> ('r \<times> 'w preload) option" where
  "wrap_bottom cx call name args x =
     (case x of
        (Some r, s) \<Rightarrow> Some (r, called_dec s)
      | (None, s) \<Rightarrow> do {
          let s1 = (if orig s name = 0 then wrap_init cx name s else s);
          (r, s2) \<leftarrow> call_orig call name args s1;
          Some (r, called_dec s2) })"

subsection \<open>Generated wrappers\<close>

text \<open>What the generator writes for a function: the optional reduction of a parameter, one of the four bodies, the bottom.\<close>

datatype 'r body = Failinfo "addr \<Rightarrow> 'r" | Hardcoded 'r | Errno 'r "int list" | Errno_ferror 'r "int list" addr

fun run_body :: "wcall \<Rightarrow> string \<Rightarrow> 'r body \<Rightarrow> 'w preload \<Rightarrow> ('r option \<times> 'w preload) option" where
  "run_body cx fname (Failinfo cast) s = body_failinfo cx fname cast s"
| "run_body cx fname (Hardcoded fail_ret) s = body_hardcoded cx fname fail_ret s"
| "run_body cx fname (Errno fail_ret valid) s = body_errno cx fname fail_ret valid s"
| "run_body cx fname (Errno_ferror fail_ret valid stream) s = body_errno_ferror cx fname fail_ret valid stream s"

definition wrapper :: "wcall \<Rightarrow> ('a, 'r, 'w) cfun \<Rightarrow> string \<Rightarrow> 'r \<Rightarrow> string \<Rightarrow> (nat \<Rightarrow> 'a \<Rightarrow> 'a option) option \<Rightarrow> 'r body
    \<Rightarrow> 'a \<Rightarrow> 'w preload \<Rightarrow> ('r \<times> 'w preload) option" where
  "wrapper cx call name on_err fname reduce body args s = do {
     (early, s1) \<leftarrow> body_called cx call name on_err args s;
     case early of
       Some r \<Rightarrow> Some (r, s1)
     | None \<Rightarrow> do {
         (args1, s2) \<leftarrow> (case reduce of None \<Rightarrow> Some (args, s1) | Some f \<Rightarrow> body_reduce cx f (fname @ ''/reduce'') args s1);
         x \<leftarrow> run_body cx fname body s2;
         wrap_bottom cx call name args1 x } }"

text \<open>The last constructor, \<open>_fiu_init_final\<close>.\<close>

definition fiu_init_final :: "env \<Rightarrow> 'w preload \<Rightarrow> 'w preload option" where
  "fiu_init_final env s = do {
     let s1 = called_inc s;
     (_, l) \<leftarrow> fiu_init env (lib s1);
     Some (called_dec (s1\<lparr>lib := l\<rparr>)) }"

end
