(* ===== verification/Posix_Custom.thy ===== *)
theory Posix_Custom
  imports Preload
begin

text \<open>
  The wrappers that modules/posix.custom.c writes by hand: \<open>open\<close> and \<open>open64\<close>, \<open>ferror\<close>, \<open>clearerr\<close>, \<open>fclose\<close>
  and the functions with a variable number of arguments.
\<close>

text \<open>What the headers of the platform define: the error numbers that exist, a flag, \<open>EOF\<close>, two streams.\<close>

record posix =
  px_errno :: "string \<Rightarrow> int option"
  px_O_CREAT :: "32 word"
  px_EOF :: int
  px_stdout :: addr
  px_stdin :: addr

text \<open>A list of \<open>#ifdef\<close>s: the names that are tested, with the names in the list.\<close>

definition valid_errnos :: "posix \<Rightarrow> (string \<times> string) list \<Rightarrow> int list" where
  "valid_errnos px names = concat (map (\<lambda>(guard, name).
     if px_errno px guard = None then [] else case px_errno px name of None \<Rightarrow> [] | Some e \<Rightarrow> [e]) names)"

definition guarded :: "string list \<Rightarrow> (string \<times> string) list" where
  "guarded names = map (\<lambda>n. (n, n)) names"

subsection \<open>Opening\<close>

definition open_errnos :: "(string \<times> string) list" where
  "open_errnos = (''EACCESS'', ''EACCES'') # guarded [''EFAULT'', ''EFBIG'', ''EOVERFLOW'', ''ELOOP'', ''EMFILE'',
     ''ENAMETOOLONG'', ''ENFILE'', ''ENOENT'', ''ENOMEM'', ''ENOSPC'', ''ENOTDIR'', ''EROFS'']"

text \<open>The mode is read from the variable arguments only if the flags ask for it; without such an argument that is undefined.\<close>

definition open_mode :: "posix \<Rightarrow> 32 word \<Rightarrow> 32 word option \<Rightarrow> 32 word option" where
  "open_mode px flags va = (if flags AND px_O_CREAT px \<noteq> 0 then va else Some 0)"

type_synonym open_args = "string \<times> 32 word \<times> 32 word"

definition posix_open :: "wcall \<Rightarrow> posix \<Rightarrow> (open_args, int, 'w) cfun \<Rightarrow> string \<Rightarrow> 32 word \<Rightarrow> 32 word option
    \<Rightarrow> 'w preload \<Rightarrow> (int \<times> 'w preload) option" where
  "posix_open cx px call pathname flags va s = do {
     mode \<leftarrow> open_mode px flags va;
     (early, s1) \<leftarrow> body_called cx call ''open'' (-1) (pathname, flags, mode) s;
     case early of
       Some r \<Rightarrow> Some (r, s1)
     | None \<Rightarrow> do {
         x \<leftarrow> body_errno cx ''posix/io/oc/open'' (-1) (valid_errnos px open_errnos) s1;
         wrap_bottom cx call ''open'' (pathname, flags, mode) x } }"

text \<open>A recursive call of \<open>open64\<close> goes through the pointer of \<open>open\<close>.\<close>

definition posix_open64 :: "wcall \<Rightarrow> posix \<Rightarrow> (open_args, int, 'w) cfun \<Rightarrow> string \<Rightarrow> 32 word \<Rightarrow> 32 word option
    \<Rightarrow> 'w preload \<Rightarrow> (int \<times> 'w preload) option" where
  "posix_open64 cx px call pathname flags va s = do {
     mode \<leftarrow> open_mode px flags va;
     (early, s1) \<leftarrow> body_called cx call ''open'' (-1) (pathname, flags, mode) s;
     case early of
       Some r \<Rightarrow> Some (r, s1)
     | None \<Rightarrow> do {
         x \<leftarrow> body_errno cx ''posix/io/oc/open'' (-1) (valid_errnos px open_errnos) s1;
         wrap_bottom cx call ''open64'' (pathname, flags, mode) x } }"

subsection \<open>Streams\<close>

definition posix_ferror :: "wcall \<Rightarrow> (addr, int, 'w) cfun \<Rightarrow> addr \<Rightarrow> 'w preload \<Rightarrow> (int \<times> 'w preload) option" where
  "posix_ferror cx call stream s = do {
     (early, s1) \<leftarrow> body_called cx call ''ferror'' 1 stream s;
     case early of
       Some r \<Rightarrow> Some (r, s1)
     | None \<Rightarrow> do {
         (exit, s2) \<leftarrow> body_hardcoded cx ''posix/stdio/error/ferror'' 1 s1;
         case exit of
           Some r \<Rightarrow> Some (r, called_dec s2)
         | None \<Rightarrow> do {
             let s3 = (if orig s2 ''ferror'' = 0 then wrap_init cx ''ferror'' s2 else s2);
             (r, s4) \<leftarrow> call_orig call ''ferror'' stream s3;
             (r', s5) \<leftarrow> (if r = 0 then do {
                 (failed, s5) \<leftarrow> get_ferror cx stream s4;
                 Some (if failed then 1 else r, s5) }
               else Some (r, s4));
             Some (r', called_dec s5) } } }"

definition posix_clearerr :: "wcall \<Rightarrow> (addr, unit, 'w) cfun \<Rightarrow> addr \<Rightarrow> 'w preload \<Rightarrow> 'w preload option" where
  "posix_clearerr cx call stream s = do {
     let s1 = called_inc s;
     let s2 = (if orig s1 ''clearerr'' = 0 then wrap_init cx ''clearerr'' s1 else s1);
     (_, s3) \<leftarrow> call_orig call ''clearerr'' stream s2;
     s4 \<leftarrow> clear_ferror cx stream s3;
     Some (called_dec s4) }"

definition fclose_errnos :: "(string \<times> string) list" where
  "fclose_errnos = guarded [''EAGAIN'', ''EBADF'', ''EFBIG'', ''EFBIG'', ''EINTR'', ''EIO'', ''ENOMEM'', ''ENOSPC'', ''EPIPE'', ''ENXIO'']"

definition posix_fclose :: "wcall \<Rightarrow> posix \<Rightarrow> (addr, int, 'w) cfun \<Rightarrow> addr \<Rightarrow> 'w preload \<Rightarrow> (int \<times> 'w preload) option" where
  "posix_fclose cx px call stream s = do {
     (early, s1) \<leftarrow> body_called cx call ''fclose'' (px_EOF px) stream s;
     case early of
       Some r \<Rightarrow> Some (r, s1)
     | None \<Rightarrow> do {
         (exit, s2) \<leftarrow> body_errno cx ''posix/stdio/oc/fclose'' (px_EOF px) (valid_errnos px fclose_errnos) s1;
         s3 \<leftarrow> (case exit of None \<Rightarrow> clear_ferror cx stream s2 | Some r \<Rightarrow> Some s2);
         wrap_bottom cx call ''fclose'' stream (exit, s3) } }"

subsection \<open>Variable arguments\<close>

text \<open>The function with variable arguments has the pointer of its counterpart \<open>nvname\<close>, which takes the arguments as a list. The bottom is
  that of the other wrappers, with that name.\<close>

definition variadic_called ::
  "wcall \<Rightarrow> ('a, 'r, 'w) cfun \<Rightarrow> string \<Rightarrow> 'r \<Rightarrow> 'a \<Rightarrow> 'w preload \<Rightarrow> ('r option \<times> 'w preload) option" where
  "variadic_called cx call nvname on_err args s =
     (if fiu_called s \<noteq> 0 then
        (if orig s nvname = 0 \<and> in_init s nvname \<noteq> 0 then Some (Some on_err, s)
         else do {
           let s1 = (if orig s nvname = 0 then wrap_init cx nvname s else s);
           (r, s2) \<leftarrow> call_orig call nvname args s1;
           Some (Some r, s2) })
      else Some (None, called_inc s))"

definition variadic_bottom ::
  "wcall \<Rightarrow> ('a, 'r, 'w) cfun \<Rightarrow> string \<Rightarrow> 'a \<Rightarrow> 'r option \<times> 'w preload \<Rightarrow> ('r \<times> 'w preload) option" where
  "variadic_bottom cx call nvname args x =
     (case x of
        (Some r, s) \<Rightarrow> Some (r, called_dec s)
      | (None, s) \<Rightarrow> do {
          let s1 = (if orig s nvname = 0 then wrap_init cx nvname s else s);
          (r, s2) \<leftarrow> call_orig call nvname args s1;
          Some (r, called_dec s2) })"

definition variadic_ferror :: "wcall \<Rightarrow> ('a, int, 'w) cfun \<Rightarrow> string \<Rightarrow> string \<Rightarrow> int \<Rightarrow> int list \<Rightarrow> addr \<Rightarrow> 'a
    \<Rightarrow> 'w preload \<Rightarrow> (int \<times> 'w preload) option" where
  "variadic_ferror cx call nvname fname on_err valid stream args s = do {
     (early, s1) \<leftarrow> variadic_called cx call nvname on_err args s;
     case early of
       Some r \<Rightarrow> Some (r, s1)
     | None \<Rightarrow> do {
         x \<leftarrow> body_errno_ferror cx fname on_err valid stream s1;
         variadic_bottom cx call nvname args x } }"

definition printf_errnos :: "(string \<times> string) list" where
  "printf_errnos = guarded [''EAGAIN'', ''EBADF'', ''EFBIG'', ''EINTR'', ''EIO'', ''ENOMEM'', ''ENOSPC'', ''ENXIO'', ''EPIPE'',
     ''EILSEQ'', ''EOVERFLOW'']"

definition scanf_errnos :: "(string \<times> string) list" where
  "scanf_errnos = guarded [''EAGAIN'', ''EBADF'', ''EINTR'', ''EIO'', ''ENOMEM'', ''ENXIO'', ''EOVERFLOW'', ''EILSEQ'']"

definition posix_fprintf where
  "posix_fprintf cx px call stream format arguments s =
     variadic_ferror cx call ''vfprintf'' ''posix/stdio/sp/fprintf'' (-1) (valid_errnos px printf_errnos) stream
       (stream :: addr, format :: string, arguments) s"

definition posix_printf where
  "posix_printf cx px call format arguments s =
     variadic_ferror cx call ''vprintf'' ''posix/stdio/sp/printf'' (-1) (valid_errnos px printf_errnos) (px_stdout px)
       (format :: string, arguments) s"

definition posix_dprintf where
  "posix_dprintf cx px call fildes format arguments s = do {
     let args = (fildes :: int, format :: string, arguments);
     (early, s1) \<leftarrow> variadic_called cx call ''vdprintf'' (-1 :: int) args s;
     case early of
       Some r \<Rightarrow> Some (r, s1)
     | None \<Rightarrow> do {
         x \<leftarrow> body_errno cx ''posix/stdio/sp/dprintf'' (-1) (valid_errnos px printf_errnos) s1;
         variadic_bottom cx call ''vdprintf'' args x } }"

definition posix_fscanf where
  "posix_fscanf cx px call stream format arguments s =
     variadic_ferror cx call ''vfscanf'' ''posix/stdio/sp/fscanf'' (px_EOF px)
       (valid_errnos px (scanf_errnos @ guarded [''EINVAL''])) stream (stream :: addr, format :: string, arguments) s"

definition posix_scanf where
  "posix_scanf cx px call format arguments s =
     variadic_ferror cx call ''vscanf'' ''posix/stdio/sp/scanf'' (px_EOF px) (valid_errnos px scanf_errnos) (px_stdin px)
       (format :: string, arguments) s"

end
