(* ===== verification/Stream_Spec.thy ===== *)
theory Stream_Spec
  imports Prelude
begin

text \<open>
  The contract of a set of streams with an error: what the wrappers of the stream functions need of the functions that mark, clear and
  query a stream. \<open>frame\<close> says what those functions leave alone.
\<close>

datatype 'x stream_op = Mark 'x | Clear 'x | Query 'x

fun stream_op_errs :: "'x stream_op \<Rightarrow> 'x set \<Rightarrow> 'x set" where
  "stream_op_errs (Mark x) A = insert x A"
| "stream_op_errs (Clear x) A = A - {x}"
| "stream_op_errs (Query x) A = A"

fun touches :: "'x \<Rightarrow> 'x stream_op \<Rightarrow> bool" where
  "touches x (Mark y) \<longleftrightarrow> x = y"
| "touches x (Clear y) \<longleftrightarrow> x = y"
| "touches x (Query y) \<longleftrightarrow> False"

fun stream_step :: "('e \<Rightarrow> 'x \<Rightarrow> 's \<Rightarrow> 's option) \<Rightarrow> ('e \<Rightarrow> 'x \<Rightarrow> 's \<Rightarrow> 's option) \<Rightarrow> ('e \<Rightarrow> 'x \<Rightarrow> 's \<Rightarrow> (bool \<times> 's) option)
    \<Rightarrow> 'e \<Rightarrow> 'x stream_op \<Rightarrow> 's \<Rightarrow> 's option" where
  "stream_step mark clear query e (Mark x) s = mark e x s"
| "stream_step mark clear query e (Clear x) s = clear e x s"
| "stream_step mark clear query e (Query x) s = map_option snd (query e x s)"

fun stream_run :: "('e \<Rightarrow> 'x stream_op \<Rightarrow> 's \<Rightarrow> 's option) \<Rightarrow> ('e \<times> 'x stream_op) list \<Rightarrow> 's \<Rightarrow> 's option" where
  "stream_run step [] s = Some s"
| "stream_run step ((e, x) # xs) s = step e x s \<bind> stream_run step xs"

locale stream_errors =
  fixes env :: "'e \<Rightarrow> bool"
    and ok :: "'s \<Rightarrow> bool"
    and errs :: "'s \<Rightarrow> 'x set"
    and frame :: "'s \<Rightarrow> 's \<Rightarrow> bool"
    and mark :: "'e \<Rightarrow> 'x \<Rightarrow> 's \<Rightarrow> 's option"
    and clear :: "'e \<Rightarrow> 'x \<Rightarrow> 's \<Rightarrow> 's option"
    and query :: "'e \<Rightarrow> 'x \<Rightarrow> 's \<Rightarrow> (bool \<times> 's) option"
  assumes mark_law: "env e \<Longrightarrow> ok s \<Longrightarrow> \<exists>s'. mark e x s = Some s' \<and> ok s' \<and> errs s' = insert x (errs s) \<and> frame s s'"
    and clear_law: "env e \<Longrightarrow> ok s \<Longrightarrow> \<exists>s'. clear e x s = Some s' \<and> ok s' \<and> errs s' = errs s - {x} \<and> frame s s'"
    and query_law: "env e \<Longrightarrow> ok s \<Longrightarrow> \<exists>s'. query e x s = Some (x \<in> errs s, s') \<and> ok s' \<and> errs s' = errs s \<and> frame s s'"
    and frame_refl: "frame s s"
    and frame_trans: "frame s s' \<Longrightarrow> frame s' s'' \<Longrightarrow> frame s s''"
begin

lemma stream_step_law:
  assumes "env e" and "ok s"
  shows "\<exists>s'. stream_step mark clear query e p s = Some s' \<and> ok s' \<and> errs s' = stream_op_errs p (errs s) \<and> frame s s'"
  using assms mark_law clear_law query_law by (cases p) (auto, fastforce)

lemma stream_run_law:
  assumes "ok s" and "\<forall>(e, p)\<in>set ps. env e"
  shows "\<exists>s'. stream_run (stream_step mark clear query) ps s = Some s' \<and> ok s' \<and> errs s' = fold (\<lambda>(e, p). stream_op_errs p) ps (errs s)
    \<and> frame s s'"
  using assms
proof (induction ps arbitrary: s)
  case (Cons q ps)
  obtain e p where q: "q = (e, p)" by (cases q)
  with Cons.prems stream_step_law [of e s p] obtain s1 where
    s1: "stream_step mark clear query e p s = Some s1" "ok s1" "errs s1 = stream_op_errs p (errs s)" "frame s s1" by auto
  from Cons.IH [OF s1(2)] Cons.prems(2) obtain s' where
    "stream_run (stream_step mark clear query) ps s1 = Some s'" "ok s'" "errs s' = fold (\<lambda>(e, p). stream_op_errs p) ps (errs s1)" "frame s1 s'"
    by auto
  with q s1 frame_trans show ?case by auto
qed (simp add: frame_refl)

lemma untouched_fold: "\<forall>(e, p)\<in>set ps. \<not> touches x p \<Longrightarrow> x \<in> fold (\<lambda>(e, p). stream_op_errs p) ps A \<longleftrightarrow> x \<in> A"
proof (induction ps arbitrary: A)
  case (Cons q ps)
  obtain e p where q: "q = (e, p)" by (cases q)
  with Cons.prems have "x \<in> stream_op_errs p A \<longleftrightarrow> x \<in> A" by (cases p) auto
  with Cons q show ?case by simp
qed simp

text \<open>A query answers what the last operation on its stream has left, whatever happens to other streams in between.\<close>

lemma query_after:
  assumes "ok s" and "\<forall>(e, p)\<in>set ps. env e \<and> \<not> touches x p" and "env e" and "env e'" and "p \<in> {Mark x, Clear x}"
  shows "\<exists>s1 s2 s3. stream_step mark clear query e p s = Some s1 \<and> stream_run (stream_step mark clear query) ps s1 = Some s2
    \<and> query e' x s2 = Some (p = Mark x, s3)"
proof -
  obtain s1 where s1: "stream_step mark clear query e p s = Some s1" "ok s1" "errs s1 = stream_op_errs p (errs s)"
    using stream_step_law [OF assms(3,1)] by blast
  obtain s2 where s2: "stream_run (stream_step mark clear query) ps s1 = Some s2" "ok s2"
      "errs s2 = fold (\<lambda>(e, p). stream_op_errs p) ps (errs s1)"
    using stream_run_law [OF s1(2)] assms(2) by blast
  have "\<forall>(e, p)\<in>set ps. \<not> touches x p" using assms(2) by fast
  from untouched_fold [OF this, of "errs s1"] have "x \<in> errs s2 \<longleftrightarrow> p = Mark x" using assms(5) s1(3) s2(3) by auto
  with query_law [OF assms(4) s2(2), of x] s1(1) s2(1) show ?thesis by auto
qed

end

end
