(* ===== verification/Preload_Correct.thy ===== *)
theory Preload_Correct
  imports Posix_Custom Stream_Spec
begin

text \<open>
  The table of streams provides the interface \<open>stream_errors\<close>; what the wrappers do, in a thread that is not inside the library and in
  one that is; and what enabling a failure does to a wrapper.
\<close>

subsection \<open>Keys of streams\<close>

definition hex_digit_val :: "char \<Rightarrow> nat" where
  "hex_digit_val c = (let k = of_char c :: nat in if k < 58 then k - 48 else k - 87)"

definition hex_val :: "string \<Rightarrow> nat" where
  "hex_val s = foldl (\<lambda>a c. 16 * a + hex_digit_val c) 0 s"

lemma hex_digit: "d < 16 \<Longrightarrow> hex_digit_val (if d < 10 then char_of (48 + d) else char_of (87 + d)) = d"
  by (simp add: hex_digit_val_def)

lemma hex_val_nat: "hex_val (hex_nat n) = n"
proof (induction n rule: hex_nat.induct)
  case (1 n)
  show ?case
  proof (cases "n < 16")
    case True
    then show ?thesis by (subst hex_nat.simps) (simp add: hex_val_def hex_digit del: if_split)
  next
    case False
    with 1 have "hex_val (hex_nat (n div 16)) = n div 16" by simp
    with False show ?thesis by (subst hex_nat.simps) (simp add: hex_val_def hex_digit del: if_split)
  qed
qed

lemma hex_nat_length: "n < 16 ^ k \<Longrightarrow> 0 < k \<Longrightarrow> length (hex_nat n) \<le> k"
proof (induction k arbitrary: n)
  case (Suc k)
  show ?case
  proof (cases "n < 16")
    case False
    with Suc.prems have "n div 16 < 16 ^ k" "0 < k" by (auto intro: Suc_lessI) (cases k; auto)
    from Suc.IH [OF this] False show ?thesis by (subst hex_nat.simps) simp
  qed (simp add: hex_nat.simps)
qed simp

lemma stream_to_key_inj: "stream_to_key x = stream_to_key y \<longleftrightarrow> x = y"
proof -
  have key: "stream_to_key w = hex_nat (unat w)" for w
  proof -
    have "unat w < 2 ^ LENGTH(64)" by (rule unsigned_less)
    then have "unat w < 16 ^ 16" by simp
    from hex_nat_length [OF this] show ?thesis by (simp add: stream_to_key_def)
  qed
  have "hex_nat m = hex_nat n \<longleftrightarrow> m = n" for m n using hex_val_nat by metis
  then show ?thesis by (simp add: key word_unat_eq_iff)
qed

subsection \<open>The table of streams\<close>

definition ferror_ok :: "'w preload \<Rightarrow> bool" where
  "ferror_ok s \<longleftrightarrow> \<not> ferror_locked s \<and> (ferror_once s \<longrightarrow>
     (\<exists>h. ferror_table s = Ptr h \<and> hash_inv h \<and> (\<forall>k. hash_abs h k \<noteq> Some NULL)))"

definition ferror_set :: "'w preload \<Rightarrow> addr set" where
  "ferror_set s = (if ferror_once s then {x. \<exists>h. ferror_table s = Ptr h \<and> hash_abs h (stream_to_key x) \<noteq> None} else {})"

definition wcall_memory :: "wcall \<Rightarrow> bool" where
  "wcall_memory cx \<longleftrightarrow> wc_malloc_h cx \<and> wc_malloc_entries cx \<and> wc_mem cx = mem_ok"

definition ferror_frame :: "'w preload \<Rightarrow> 'w preload \<Rightarrow> bool" where
  "ferror_frame s s' \<longleftrightarrow> fiu_called s' = fiu_called s \<and> orig s' = orig s \<and> in_init s' = in_init s \<and> lib s' = lib s \<and> proc s' = proc s"

lemma ferror_ready:
  assumes "wcall_memory cx" and "ferror_ok s"
  obtains h s1 where "ferror_init_once cx s = Some s1" and "ferror_table s1 = Ptr h" and "hash_inv h" and "\<forall>k. hash_abs h k \<noteq> Some NULL"
    and "ferror_once s1" and "\<not> ferror_locked s1" and "ferror_set s = {x. hash_abs h (stream_to_key x) \<noteq> None}" and "ferror_frame s s1"
proof (cases "ferror_once s")
  case True
  with assms(2) that show ?thesis by (auto simp: ferror_ok_def ferror_init_once_def ferror_set_def ferror_frame_def)
next
  case False
  obtain h :: "addr hash" where h: "hash_create True True NULL = Ptr h" by (simp add: hash_create_def)
  note inv = hash_create_inv [OF h]
  define s1 where "s1 = s\<lparr>ferror_once := True, ferror_table := Ptr h\<rparr>"
  have "ferror_init_once cx s = Some s1"
    using False assms h by (cases s) (simp add: ferror_init_once_def fiu_init_ferror_hash_table_def ferror_lock_def ferror_unlock_def
        called_inc_def called_dec_def s1_def wcall_memory_def ferror_ok_def)
  with that [of s1 h] inv False assms(2) show ?thesis
    by (simp add: s1_def ferror_set_def ferror_frame_def ferror_ok_def)
qed

lemma frame_update: "ferror_frame s s1 \<Longrightarrow> ferror_frame s (s1\<lparr>ferror_table := t, ferror_locked := b\<rparr>)"
  by (simp add: ferror_frame_def)

interpretation stream_set: stream_errors wcall_memory ferror_ok ferror_set ferror_frame set_ferror clear_ferror get_ferror
proof
  fix cx :: wcall and s s' s'' :: "'w preload" and x :: addr
  assume cx: "wcall_memory cx" and s: "ferror_ok s"
  obtain h s1 where h: "ferror_init_once cx s = Some s1" "ferror_table s1 = Ptr h" "hash_inv h" "\<forall>k. hash_abs h k \<noteq> Some NULL"
    "ferror_once s1" "\<not> ferror_locked s1" "ferror_set s = {x. hash_abs h (stream_to_key x) \<noteq> None}" "ferror_frame s s1"
    using ferror_ready [OF cx s] by metis
  have mem: "wc_mem cx = mem_ok" using cx by (simp add: wcall_memory_def)
  let ?done = "\<lambda>h'. s1\<lparr>ferror_table := Ptr h', ferror_locked := False\<rparr>"
  have ok: "ferror_ok (?done h')" if "hash_inv h'" "\<forall>k. hash_abs h' k \<noteq> Some NULL" for h'
    using that h(5) by (simp add: ferror_ok_def)
  have errs: "ferror_set (?done h') = {x. hash_abs h' (stream_to_key x) \<noteq> None}" for h'
    using h(5) by (simp add: ferror_set_def)
  have frame: "ferror_frame s (?done h')" for h' by (rule frame_update [OF h(8)])
  show "\<exists>s'. set_ferror cx x s = Some s' \<and> ferror_ok s' \<and> ferror_set s' = insert x (ferror_set s) \<and> ferror_frame s s'"
  proof -
    obtain h' where h': "hash_set mem_ok h (stream_to_key x) (Ptr 0xDEAD) = Some (True, h')" "hash_inv h'"
      "hash_abs h' = (hash_abs h)(stream_to_key x \<mapsto> Ptr 0xDEAD)"
      using hash_table.set_law [OF h(3)] by blast
    have "set_ferror cx x s = Some (?done h')"
      using h(1,2,6) h'(1) mem by (simp add: set_ferror_def ferror_lock_def ferror_unlock_def)
    moreover have "{y. hash_abs h' (stream_to_key y) \<noteq> None} = insert x (ferror_set s)"
      using h(7) stream_to_key_inj by (auto simp: h'(3))
    moreover have "\<forall>k. hash_abs h' k \<noteq> Some NULL" using h(4) by (simp add: h'(3))
    ultimately show ?thesis using ok [OF h'(2)] errs frame by auto
  qed
  show "\<exists>s'. clear_ferror cx x s = Some s' \<and> ferror_ok s' \<and> ferror_set s' = ferror_set s - {x} \<and> ferror_frame s s'"
  proof -
    obtain r h' where h': "hash_del mem_ok h (stream_to_key x) = Some (r, h')" "hash_inv h'"
      "hash_abs h' = (hash_abs h)(stream_to_key x := None)"
      using hash_table.del_law [OF h(3)] by blast
    have "clear_ferror cx x s = Some (?done h')"
      using h(1,2,6) h'(1) mem by (simp add: clear_ferror_def ferror_lock_def ferror_unlock_def)
    moreover have "{y. hash_abs h' (stream_to_key y) \<noteq> None} = ferror_set s - {x}"
      using h(7) stream_to_key_inj by (auto simp: h'(3))
    moreover have "\<forall>k. hash_abs h' k \<noteq> Some NULL" using h(4) by (simp add: h'(3))
    ultimately show ?thesis using ok [OF h'(2)] errs frame by auto
  qed
  show "\<exists>s'. get_ferror cx x s = Some (x \<in> ferror_set s, s') \<and> ferror_ok s' \<and> ferror_set s' = ferror_set s \<and> ferror_frame s s'"
  proof -
    have "hash_get h (stream_to_key x) = Some (case hash_abs h (stream_to_key x) of None \<Rightarrow> NULL | Some v \<Rightarrow> v)"
      by (rule hash_get_inv [OF h(3)])
    moreover have "(\<not> is_null (case hash_abs h (stream_to_key x) of None \<Rightarrow> NULL | Some v \<Rightarrow> v)) \<longleftrightarrow> x \<in> ferror_set s"
      using h(4) by (cases "hash_abs h (stream_to_key x)") (auto simp: h(7) is_null_iff)
    moreover have "s1\<lparr>ferror_locked := False\<rparr> = ?done h" using h(2) by (cases s1) simp
    ultimately have "get_ferror cx x s = Some (x \<in> ferror_set s, ?done h)"
      using h(1,2,6) by (simp add: get_ferror_def ferror_lock_def ferror_unlock_def)
    then show ?thesis using ok [OF h(3,4)] errs h(7) frame by auto
  qed
qed (auto simp: ferror_frame_def)

lemmas stream_facts = stream_set.mark_law stream_set.clear_law stream_set.query_law

lemma ferror_update:
  "ferror_ok (s\<lparr>fiu_called := c\<rparr>) = ferror_ok s" "ferror_ok (s\<lparr>orig := f\<rparr>) = ferror_ok s" "ferror_ok (s\<lparr>proc := p\<rparr>) = ferror_ok s"
  "ferror_ok (s\<lparr>lib := l\<rparr>) = ferror_ok s" "ferror_ok (s\<lparr>in_init := i\<rparr>) = ferror_ok s"
  "ferror_set (s\<lparr>fiu_called := c\<rparr>) = ferror_set s" "ferror_set (s\<lparr>orig := f\<rparr>) = ferror_set s" "ferror_set (s\<lparr>proc := p\<rparr>) = ferror_set s"
  "ferror_set (s\<lparr>lib := l\<rparr>) = ferror_set s" "ferror_set (s\<lparr>in_init := i\<rparr>) = ferror_set s"
  by (simp_all add: ferror_ok_def ferror_set_def)

subsection \<open>The parts of a wrapper\<close>

definition orig_addr :: "wcall \<Rightarrow> string \<Rightarrow> 'w preload \<Rightarrow> addr" where
  "orig_addr cx name s = (if orig s name = 0 then wc_dlsym cx name else orig s name)"

definition got_orig :: "wcall \<Rightarrow> string \<Rightarrow> 'w preload \<Rightarrow> 'w preload" where
  "got_orig cx name s = s\<lparr>orig := (orig s)(name := orig_addr cx name s)\<rparr>"

lemma wrap_init_orig: "(if orig s name = 0 then wrap_init cx name s else s) = got_orig cx name s"
  by (cases s) (auto simp: wrap_init_def begin_init_def called_inc_def called_dec_def libc_symbol_def got_orig_def orig_addr_def Let_def)

lemma call_got_orig:
  assumes "orig_addr cx name s \<noteq> 0" and "call (orig_addr cx name s) args (proc s) = (r, p)"
  shows "call_orig call name args (got_orig cx name s) = Some (r, (got_orig cx name s)\<lparr>proc := p\<rparr>)"
  using assms by (simp add: call_orig_def got_orig_def)

definition envs_ok :: "wcall \<Rightarrow> bool" where
  "envs_ok cx \<longleftrightarrow> env_ok (wc_env cx) \<and> env_ok (wc_reduce_env cx) \<and> wcall_memory cx"

definition preload_ready :: "'w preload \<Rightarrow> bool" where
  "preload_ready s \<longleftrightarrow> fiu_called s = 0 \<and> fiu_ready (lib s) \<and> ferror_ok s"

definition inside :: "'w preload \<Rightarrow> bool" where
  "inside s \<longleftrightarrow> fiu_called s = 1 \<and> fiu_ready (lib s) \<and> ferror_ok s"

lemma called_inside: "preload_ready s \<Longrightarrow> inside (called_inc s)" "inside s \<Longrightarrow> preload_ready (called_dec s)"
  "inside (s\<lparr>proc := p\<rparr>) = inside s" "inside (got_orig cx name s) = inside s"
  by (simp_all add: inside_def preload_ready_def called_inc_def called_dec_def got_orig_def ferror_update)

lemma wrap_fail_inside:
  assumes "inside s" and "env_ok env"
  obtains st l where "fiu_fail env fname (lib s) = Some (st, l)" and "wrap_fail env fname s = Some (st, s\<lparr>lib := l\<rparr>)"
    and "inside (s\<lparr>lib := l\<rparr>)" and "fiu_failinfo l = Some (last_failinfo l)"
proof -
  from assms do_call_ready [of "lib s" env "Fail fname"] obtain st l where
    l: "fiu_fail env fname (lib s) = Some (st, l)" "fiu_ready l" by (auto simp: inside_def)
  then have "fiu_failinfo l = Some (last_failinfo l)"
    by (auto simp: fiu_failinfo_def fiu_ready_at_def fiu_at_def split: ptr.splits)
  with that l assms(1) show ?thesis by (simp add: wrap_fail_def inside_def ferror_update)
qed

lemma pick_errno_valid: "valid \<noteq> [] \<Longrightarrow> \<exists>e. pick_errno valid r = Some e \<and> e \<in> set valid"
proof -
  assume "valid \<noteq> []"
  then have "r mod (4 * length valid) div 4 < length valid" by (simp add: less_mult_imp_div_less mult.commute)
  then show ?thesis using \<open>valid \<noteq> []\<close> by (auto simp: pick_errno_def c_run)
qed

text \<open>What a body does when its point of failure fails: the value and \<open>errno\<close> after the call, and the streams it marks.\<close>

fun body_fails :: "'r body \<Rightarrow> fiu \<Rightarrow> 'r \<Rightarrow> 'w proc \<Rightarrow> 'w proc \<Rightarrow> bool" where
  "body_fails (Failinfo cast) l r p p' \<longleftrightarrow> r = cast (last_failinfo l) \<and> p' = p"
| "body_fails (Hardcoded v) l r p p' \<longleftrightarrow> r = v \<and> p' = p"
| "body_fails (Errno v valid) l r p p' \<longleftrightarrow> r = v \<and> outside p' = outside p
     \<and> (if last_failinfo l = 0 then errno p' \<in> set valid else errno p' = errno_of (last_failinfo l))"
| "body_fails (Errno_ferror v valid x) l r p p' \<longleftrightarrow> r = v \<and> outside p' = outside p
     \<and> (if last_failinfo l = 0 then errno p' \<in> set valid else errno p' = errno_of (last_failinfo l))"

fun body_marks :: "'r body \<Rightarrow> addr set" where
  "body_marks (Errno_ferror v valid x) = {x}"
| "body_marks _ = {}"

fun body_valid :: "'r body \<Rightarrow> bool" where
  "body_valid (Errno v valid) \<longleftrightarrow> valid \<noteq> []"
| "body_valid (Errno_ferror v valid x) \<longleftrightarrow> valid \<noteq> []"
| "body_valid _ \<longleftrightarrow> True"

definition body_outcome :: "wcall \<Rightarrow> string \<Rightarrow> 'r body \<Rightarrow> 'w preload \<Rightarrow> int \<Rightarrow> fiu \<Rightarrow> ('r option \<times> 'w preload) option \<Rightarrow> bool" where
  "body_outcome cx fname body s st l res \<longleftrightarrow> fiu_fail (wc_env cx) fname (lib s) = Some (st, l) \<and>
     (if st = 0 then res = Some (None, s\<lparr>lib := l\<rparr>) \<and> inside (s\<lparr>lib := l\<rparr>)
      else \<exists>r s'. res = Some (Some r, s') \<and> inside s' \<and> lib s' = l \<and> orig s' = orig s \<and> in_init s' = in_init s
        \<and> body_fails body l r (proc s) (proc s') \<and> ferror_set s' = ferror_set s \<union> body_marks body)"

lemma chosen_errno:
  assumes "valid \<noteq> []"
  obtains e where "(if finfo = 0 then pick_errno valid r else Some (errno_of finfo)) = Some e"
    and "if finfo = 0 then e \<in> set valid else e = errno_of finfo"
  using pick_errno_valid [OF assms, of r] that by (cases "finfo = 0") auto

lemma run_body_inside:
  assumes "inside s" and "envs_ok cx" and "body_valid body"
  shows "\<exists>st l. body_outcome cx fname body s st l (run_body cx fname body s)"
proof -
  have env: "env_ok (wc_env cx)" "wcall_memory cx" using assms(2) by (simp_all add: envs_ok_def)
  obtain st l where l: "fiu_fail (wc_env cx) fname (lib s) = Some (st, l)"
      "wrap_fail (wc_env cx) fname s = Some (st, s\<lparr>lib := l\<rparr>)" "inside (s\<lparr>lib := l\<rparr>)" "fiu_failinfo l = Some (last_failinfo l)"
    by (rule wrap_fail_inside [OF assms(1) env(1)])
  have "body_outcome cx fname body s st l (run_body cx fname body s)"
  proof (cases body)
    case (Failinfo cast)
    with l show ?thesis by (auto simp: body_outcome_def body_failinfo_def ferror_update)
  next
    case (Hardcoded v)
    with l show ?thesis by (auto simp: body_outcome_def body_hardcoded_def ferror_update)
  next
    case (Errno v valid)
    with assms(3) have "valid \<noteq> []" by simp
    then obtain e where e: "(if last_failinfo l = 0 then pick_errno valid (wc_random cx) else Some (errno_of (last_failinfo l))) = Some e"
        "if last_failinfo l = 0 then e \<in> set valid else e = errno_of (last_failinfo l)" by (rule chosen_errno)
    show ?thesis
    proof (cases "st = 0")
      case True
      with Errno l show ?thesis by (simp add: body_outcome_def body_errno_def)
    next
      case False
      let ?s = "s\<lparr>lib := l, proc := (proc s)\<lparr>errno := e\<rparr>\<rparr>"
      have "run_body cx fname body s = Some (Some v, ?s)" using False Errno l(2,4) e(1) by (simp add: body_errno_def)
      moreover have "inside ?s" "ferror_set ?s = ferror_set s" using l(3) by (simp_all add: ferror_update called_inside(3))
      ultimately show ?thesis using False Errno l(1) e(2) by (simp add: body_outcome_def)
    qed
  next
    case (Errno_ferror v valid x)
    with assms(3) have "valid \<noteq> []" by simp
    then obtain e where e: "(if last_failinfo l = 0 then pick_errno valid (wc_random cx) else Some (errno_of (last_failinfo l))) = Some e"
        "if last_failinfo l = 0 then e \<in> set valid else e = errno_of (last_failinfo l)" by (rule chosen_errno)
    show ?thesis
    proof (cases "st = 0")
      case True
      with Errno_ferror l show ?thesis by (simp add: body_outcome_def body_errno_ferror_def)
    next
      case False
      let ?s = "s\<lparr>lib := l, proc := (proc s)\<lparr>errno := e\<rparr>\<rparr>"
      have ins: "inside ?s" "ferror_set ?s = ferror_set s" using l(3) by (simp_all add: ferror_update called_inside(3))
      then have "ferror_ok ?s" by (simp add: inside_def)
      from stream_set.mark_law [OF env(2) this, of x] obtain s2 where
        s2: "set_ferror cx x ?s = Some s2" "ferror_ok s2" "ferror_set s2 = insert x (ferror_set ?s)" "ferror_frame ?s s2" by blast
      have "run_body cx fname body s = Some (Some v, s2)" using False Errno_ferror l(2,4) e(1) s2(1) by (simp add: body_errno_ferror_def)
      moreover have "inside s2" using s2(2,4) ins(1) by (simp add: inside_def ferror_frame_def)
      ultimately show ?thesis using False Errno_ferror l(1) e(2) s2(3,4) ins(2) by (simp add: body_outcome_def ferror_frame_def)
    qed
  qed
  then show ?thesis by blast
qed

text \<open>The bottom, after a body.\<close>

lemma wrap_bottom_exit: "wrap_bottom cx call name args (Some r, s) = Some (r, called_dec s)"
  by (simp add: wrap_bottom_def)

lemma wrap_bottom_orig:
  assumes "orig_addr cx name s \<noteq> 0" and "call (orig_addr cx name s) args (proc s) = (r, p)"
  shows "wrap_bottom cx call name args (None, s) = Some (r, called_dec ((got_orig cx name s)\<lparr>proc := p\<rparr>))"
  using call_got_orig [of cx name s call args r p] assms by (simp add: wrap_bottom_def wrap_init_orig Let_def)

lemma variadic_same: "variadic_bottom = wrap_bottom" "variadic_called = body_called"
  by (simp_all add: fun_eq_iff variadic_bottom_def wrap_bottom_def variadic_called_def body_called_def)

lemma body_called_ready: "preload_ready s \<Longrightarrow> body_called cx call name on_err args s = Some (None, called_inc s)"
  by (simp add: body_called_def preload_ready_def)

definition call_outcome :: "wcall \<Rightarrow> ('a, 'r, 'w) cfun \<Rightarrow> string \<Rightarrow> string \<Rightarrow> 'r body \<Rightarrow> 'a \<Rightarrow> 'w preload
    \<Rightarrow> ('r \<times> 'w preload) option \<Rightarrow> bool" where
  "call_outcome cx call name fname body args s res \<longleftrightarrow> (\<exists>st l r s'. fiu_fail (wc_env cx) fname (lib s) = Some (st, l)
     \<and> res = Some (r, s') \<and> preload_ready s' \<and> lib s' = l \<and> in_init s' = in_init s
     \<and> (if st = 0 then (r, proc s') = call (orig_addr cx name s) args (proc s) \<and> ferror_set s' = ferror_set s
        else body_fails body l r (proc s) (proc s') \<and> ferror_set s' = ferror_set s \<union> body_marks body))"

lemma body_then_bottom:
  assumes "preload_ready s" and "envs_ok cx" and "body_valid body" and "orig_addr cx name s \<noteq> 0"
  shows "call_outcome cx call name fname body args s
    (run_body cx fname body (called_inc s) \<bind> wrap_bottom cx call name args)"
proof -
  let ?s = "called_inc s"
  have same: "lib ?s = lib s" "proc ?s = proc s" "orig ?s = orig s" "in_init ?s = in_init s" "ferror_set ?s = ferror_set s"
    by (simp_all add: called_inc_def ferror_update)
  obtain st l where out: "body_outcome cx fname body ?s st l (run_body cx fname body ?s)"
    using run_body_inside [OF called_inside(1) [OF assms(1)] assms(2,3)] by blast
  then have l: "fiu_fail (wc_env cx) fname (lib s) = Some (st, l)" by (simp add: body_outcome_def same)
  show ?thesis
  proof (cases "st = 0")
    case True
    let ?s1 = "?s\<lparr>lib := l\<rparr>"
    have b: "run_body cx fname body ?s = Some (None, ?s1)" "inside ?s1" using out True by (simp_all add: body_outcome_def)
    obtain r p where c: "call (orig_addr cx name s) args (proc s) = (r, p)" by (metis prod.exhaust)
    have a: "orig_addr cx name ?s1 = orig_addr cx name s" by (simp add: orig_addr_def same)
    have "wrap_bottom cx call name args (None, ?s1) = Some (r, called_dec ((got_orig cx name ?s1)\<lparr>proc := p\<rparr>))"
      by (rule wrap_bottom_orig) (use assms(4) c same in \<open>simp_all add: a\<close>)
    moreover have "preload_ready (called_dec ((got_orig cx name ?s1)\<lparr>proc := p\<rparr>))"
      by (rule called_inside(2)) (simp add: called_inside(3,4) b(2))
    ultimately show ?thesis using True b(1) c l
      by (simp add: call_outcome_def called_dec_def got_orig_def ferror_update same)
  next
    case False
    with out obtain r s' where b: "run_body cx fname body ?s = Some (Some r, s')" "inside s'" "lib s' = l" "in_init s' = in_init s"
      "body_fails body l r (proc s) (proc s')" "ferror_set s' = ferror_set s \<union> body_marks body"
      by (auto simp: body_outcome_def same)
    with False l called_inside(2) [OF b(2)] show ?thesis
      by (simp add: call_outcome_def wrap_bottom_exit called_dec_def ferror_update)
  qed
qed

lemma wrapper_ready:
  assumes "preload_ready s" and "envs_ok cx" and "body_valid body" and "orig_addr cx name s \<noteq> 0"
  shows "call_outcome cx call name fname body args s (wrapper cx call name on_err fname None body args s)"
  using body_then_bottom [OF assms] by (simp add: wrapper_def body_called_ready [OF assms(1)])

subsection \<open>The wrappers of stream functions\<close>

lemma variadic_ferror_ready:
  assumes "preload_ready s" and "envs_ok cx" and "valid \<noteq> []" and "orig_addr cx name s \<noteq> 0"
  shows "call_outcome cx call name fname (Errno_ferror on_err valid x) args s
    (variadic_ferror cx call name fname on_err valid x args s)"
  using body_then_bottom [OF assms(1,2) _ assms(4), of "Errno_ferror on_err valid x"] assms(3)
  by (simp add: variadic_ferror_def variadic_same body_called_ready [OF assms(1)])

lemma posix_ferror_ready:
  assumes "preload_ready s" and "envs_ok cx" and "orig_addr cx ''ferror'' s \<noteq> 0"
  shows "\<exists>st l r s'. fiu_fail (wc_env cx) ''posix/stdio/error/ferror'' (lib s) = Some (st, l) \<and> posix_ferror cx call x s = Some (r, s')
    \<and> preload_ready s' \<and> ferror_set s' = ferror_set s
    \<and> r = (if st \<noteq> 0 then 1 else let r0 = fst (call (orig_addr cx ''ferror'' s) x (proc s)) in if r0 = 0 \<and> x \<in> ferror_set s then 1 else r0)"
proof -
  let ?s = "called_inc s"
  have same: "lib ?s = lib s" "proc ?s = proc s" "orig ?s = orig s" "ferror_set ?s = ferror_set s"
    by (simp_all add: called_inc_def ferror_update)
  have ins: "inside ?s" by (rule called_inside(1) [OF assms(1)])
  have env: "env_ok (wc_env cx)" "wcall_memory cx" using assms(2) by (simp_all add: envs_ok_def)
  obtain st l where l: "fiu_fail (wc_env cx) ''posix/stdio/error/ferror'' (lib s) = Some (st, l)"
      "wrap_fail (wc_env cx) ''posix/stdio/error/ferror'' ?s = Some (st, ?s\<lparr>lib := l\<rparr>)" "inside (?s\<lparr>lib := l\<rparr>)"
    using wrap_fail_inside [OF ins env(1)] same by metis
  show ?thesis
  proof (cases "st = 0")
    case False
    with l called_inside(2) [OF l(3)] show ?thesis
      by (simp add: posix_ferror_def body_called_ready [OF assms(1)] body_hardcoded_def called_dec_def ferror_update same)
  next
    case True
    let ?s1 = "?s\<lparr>lib := l\<rparr>"
    obtain r p where c: "call (orig_addr cx ''ferror'' s) x (proc s) = (r, p)" by (metis prod.exhaust)
    have a: "orig_addr cx ''ferror'' ?s1 = orig_addr cx ''ferror'' s" "proc ?s1 = proc s" by (simp_all add: orig_addr_def same)
    let ?s2 = "(got_orig cx ''ferror'' ?s1)\<lparr>proc := p\<rparr>"
    have run: "call_orig call ''ferror'' x (got_orig cx ''ferror'' ?s1) = Some (r, ?s2)"
      by (rule call_got_orig) (use assms(3) c in \<open>simp_all add: a\<close>)
    have ins2: "inside ?s2" by (simp add: called_inside(3,4) l(3))
    then have "ferror_ok ?s2" by (simp add: inside_def)
    from stream_set.query_law [OF env(2) this, of x] obtain s3 where
      s3: "get_ferror cx x ?s2 = Some (x \<in> ferror_set ?s2, s3)" "ferror_ok s3" "ferror_set s3 = ferror_set ?s2" "ferror_frame ?s2 s3" by blast
    have errs: "ferror_set ?s2 = ferror_set s" by (simp add: got_orig_def ferror_update same)
    have "inside s3" using s3(2,4) ins2 by (simp add: inside_def ferror_frame_def)
    from called_inside(2) [OF this] called_inside(2) [OF ins2]
    have ready: "preload_ready (called_dec s3)" "preload_ready (called_dec ?s2)" .
    have sets: "ferror_set (called_dec s3) = ferror_set s" "ferror_set (called_dec ?s2) = ferror_set s"
      using s3(3) errs by (simp_all add: called_dec_def ferror_update)
    have "posix_ferror cx call x s = (if r = 0 then Some (if x \<in> ferror_set s then 1 else r, called_dec s3) else Some (r, called_dec ?s2))"
      using True l(2) run s3(1) errs
      by (simp add: posix_ferror_def body_called_ready [OF assms(1)] body_hardcoded_def wrap_init_orig Let_def)
    then show ?thesis using True l(1) c ready sets by (auto simp: Let_def)
  qed
qed

lemma posix_clearerr_ready:
  assumes "preload_ready s" and "envs_ok cx" and "orig_addr cx ''clearerr'' s \<noteq> 0"
  shows "\<exists>s'. posix_clearerr cx call x s = Some s' \<and> preload_ready s' \<and> ferror_set s' = ferror_set s - {x} \<and> lib s' = lib s"
proof -
  let ?s = "called_inc s"
  have env: "wcall_memory cx" using assms(2) by (simp add: envs_ok_def)
  have a: "orig_addr cx ''clearerr'' ?s = orig_addr cx ''clearerr'' s" by (simp add: orig_addr_def called_inc_def)
  obtain r p where c: "call (orig_addr cx ''clearerr'' ?s) x (proc ?s) = (r, p)" by (metis prod.exhaust)
  let ?s2 = "(got_orig cx ''clearerr'' ?s)\<lparr>proc := p\<rparr>"
  have run: "call_orig call ''clearerr'' x (got_orig cx ''clearerr'' ?s) = Some (r, ?s2)"
    by (rule call_got_orig) (use assms(3) c in \<open>simp_all add: a\<close>)
  have ins: "inside ?s2" by (simp add: called_inside(3,4) called_inside(1) [OF assms(1)])
  then have "ferror_ok ?s2" by (simp add: inside_def)
  from stream_set.clear_law [OF env this, of x] obtain s3 where
    s3: "clear_ferror cx x ?s2 = Some s3" "ferror_ok s3" "ferror_set s3 = ferror_set ?s2 - {x}" "ferror_frame ?s2 s3" by blast
  have "inside s3" using s3(2,4) ins by (simp add: inside_def ferror_frame_def)
  from called_inside(2) [OF this] have "preload_ready (called_dec s3)" .
  moreover have "ferror_set (called_dec s3) = ferror_set s - {x}" "lib (called_dec s3) = lib s"
    using s3(3,4) by (simp_all add: called_dec_def called_inc_def got_orig_def ferror_update ferror_frame_def)
  moreover have "posix_clearerr cx call x s = Some (called_dec s3)"
    using run s3(1) by (simp add: posix_clearerr_def wrap_init_orig Let_def)
  ultimately show ?thesis by blast
qed

lemma posix_fclose_ready:
  assumes "preload_ready s" and "envs_ok cx" and "valid_errnos px fclose_errnos \<noteq> []" and "orig_addr cx ''fclose'' s \<noteq> 0"
  shows "\<exists>st l r s'. fiu_fail (wc_env cx) ''posix/stdio/oc/fclose'' (lib s) = Some (st, l) \<and> posix_fclose cx px call x s = Some (r, s')
    \<and> preload_ready s' \<and> ferror_set s' = (if st = 0 then ferror_set s - {x} else ferror_set s)"
proof -
  let ?s = "called_inc s"
  let ?body = "Errno (px_EOF px) (valid_errnos px fclose_errnos)"
  have same: "lib ?s = lib s" "proc ?s = proc s" "orig ?s = orig s" "ferror_set ?s = ferror_set s"
    by (simp_all add: called_inc_def ferror_update)
  have env: "wcall_memory cx" using assms(2) by (simp add: envs_ok_def)
  have body: "body_valid ?body" using assms(3) by simp
  obtain st l where out: "body_outcome cx ''posix/stdio/oc/fclose'' ?body ?s st l (run_body cx ''posix/stdio/oc/fclose'' ?body ?s)"
    using run_body_inside [OF called_inside(1) [OF assms(1)] assms(2) body] by blast
  then have l: "fiu_fail (wc_env cx) ''posix/stdio/oc/fclose'' (lib s) = Some (st, l)" by (simp add: body_outcome_def same)
  show ?thesis
  proof (cases "st = 0")
    case False
    with out obtain r s' where b: "run_body cx ''posix/stdio/oc/fclose'' ?body ?s = Some (Some r, s')" "inside s'"
      "ferror_set s' = ferror_set s" by (auto simp: body_outcome_def same)
    with False l called_inside(2) [OF b(2)] show ?thesis
      by (simp add: posix_fclose_def body_called_ready [OF assms(1)] wrap_bottom_exit called_dec_def ferror_update)
  next
    case True
    let ?s1 = "?s\<lparr>lib := l\<rparr>"
    have b: "run_body cx ''posix/stdio/oc/fclose'' ?body ?s = Some (None, ?s1)" "inside ?s1" using out True by (simp_all add: body_outcome_def)
    then have "ferror_ok ?s1" by (simp add: inside_def)
    from stream_set.clear_law [OF env this, of x] obtain s3 where
      s3: "clear_ferror cx x ?s1 = Some s3" "ferror_ok s3" "ferror_set s3 = ferror_set ?s1 - {x}" "ferror_frame ?s1 s3" by blast
    have ins3: "inside s3" using s3(2,4) b(2) by (simp add: inside_def ferror_frame_def)
    have a: "orig_addr cx ''fclose'' s3 \<noteq> 0" using assms(4) s3(4) by (auto simp: orig_addr_def ferror_frame_def same split: if_splits)
    obtain r p where c: "call (orig_addr cx ''fclose'' s3) x (proc s3) = (r, p)" by (metis prod.exhaust)
    let ?s4 = "called_dec ((got_orig cx ''fclose'' s3)\<lparr>proc := p\<rparr>)"
    have "wrap_bottom cx call ''fclose'' x (None, s3) = Some (r, ?s4)" by (rule wrap_bottom_orig [where call = call, OF a c])
    moreover have "preload_ready ?s4" by (rule called_inside(2)) (simp add: called_inside(3,4) ins3)
    moreover have "ferror_set ?s4 = ferror_set s - {x}" using s3(3) by (simp add: called_dec_def got_orig_def ferror_update same)
    ultimately show ?thesis using True l b(1) s3(1)
      by (simp add: posix_fclose_def body_called_ready [OF assms(1)])
  qed
qed

subsection \<open>Reduced sizes\<close>

lemma reduce_size_bounds:
  assumes "n \<noteq> 0"
  shows "\<exists>n'. reduce_size r n = Some n' \<and> 1 \<le> unat n' \<and> unat n' \<le> unat n"
proof -
  have pos: "0 < unat n" using assms by (simp add: unat_gt_0)
  define m where "m = r mod unat n"
  have m: "m < unat n" using pos by (simp add: m_def)
  then have "n - of_nat m = of_nat (unat n - m)" by (simp add: of_nat_diff)
  moreover have "unat n < 2 ^ LENGTH(64)" by (rule unsigned_less)
  then have "unat (of_nat (unat n - m) :: 64 word) = unat n - m" by (simp add: unsigned_of_nat take_bit_nat_eq_self_iff del: of_nat_diff)
  moreover have "reduce_size r n = Some (n - of_nat m)" using pos by (simp add: reduce_size_def c_run m_def)
  ultimately show ?thesis using m by (simp del: of_nat_diff)
qed

lemma reduce_size_zero: "reduce_size r 0 = None"
  by (simp add: reduce_size_def c_mod_def)

lemma reduced_call:
  assumes "preload_ready s" and "envs_ok cx" and "body_valid body" and "orig_addr cx name s \<noteq> 0"
    and "fiu_fail (wc_reduce_env cx) (fname @ ''/reduce'') (lib s) = Some (st, l)" and "st \<noteq> 0"
  shows "case f (wc_reduce_random cx) args of
      None \<Rightarrow> wrapper cx call name on_err fname (Some f) body args s = None
    | Some args' \<Rightarrow> call_outcome cx call name fname body args' (s\<lparr>lib := l\<rparr>)
        (wrapper cx call name on_err fname (Some f) body args s)"
proof -
  have env: "env_ok (wc_reduce_env cx)" using assms(2) by (simp add: envs_ok_def)
  have lib: "lib (called_inc s) = lib s" "(called_inc s)\<lparr>lib := l1\<rparr> = called_inc (s\<lparr>lib := l1\<rparr>)" for l1 by (simp_all add: called_inc_def)
  obtain st' l' where "fiu_fail (wc_reduce_env cx) (fname @ ''/reduce'') (lib (called_inc s)) = Some (st', l')"
      "wrap_fail (wc_reduce_env cx) (fname @ ''/reduce'') (called_inc s) = Some (st', (called_inc s)\<lparr>lib := l'\<rparr>)"
      "inside ((called_inc s)\<lparr>lib := l'\<rparr>)"
    using wrap_fail_inside [OF called_inside(1) [OF assms(1)] env] by metis
  with assms(5) have fail: "wrap_fail (wc_reduce_env cx) (fname @ ''/reduce'') (called_inc s) = Some (st, called_inc (s\<lparr>lib := l\<rparr>))"
    "inside (called_inc (s\<lparr>lib := l\<rparr>))" by (simp_all add: lib)
  show ?thesis
  proof (cases "f (wc_reduce_random cx) args")
    case None
    with fail(1) assms(6) show ?thesis by (simp add: wrapper_def body_called_ready [OF assms(1)] body_reduce_def)
  next
    case (Some args')
    have addr: "orig_addr cx name (s\<lparr>lib := l\<rparr>) = orig_addr cx name s" by (auto simp: orig_addr_def)
    have "preload_ready (s\<lparr>lib := l\<rparr>)" using fail(2) assms(1) by (simp add: inside_def preload_ready_def called_inc_def ferror_update)
    from body_then_bottom [OF this assms(2,3), of name call fname args'] Some fail(1) assms(4,6) show ?thesis
      by (simp add: wrapper_def body_called_ready [OF assms(1)] body_reduce_def addr)
  qed
qed

end
