(* ===== verification/Posix_Correct.thy ===== *)
theory Posix_Correct
  imports Preload_Correct
begin

text \<open>
  The properties of the POSIX preloader: what a wrapper does in a thread outside the library and inside it, how a failure that is
  enabled arrives at the caller, the simulated state of streams over any sequence of calls, and the reduction of sizes.
\<close>

subsection \<open>Sequences of calls on streams\<close>

datatype stream_call = Do_fprintf addr string | Do_ferror addr | Do_clearerr addr | Do_fclose addr

fun call_stream :: "stream_call \<Rightarrow> addr" where
  "call_stream (Do_fprintf x format) = x"
| "call_stream (Do_ferror x) = x"
| "call_stream (Do_clearerr x) = x"
| "call_stream (Do_fclose x) = x"

text \<open>The originals that the wrappers call.\<close>

record 'w originals =
  o_vfprintf :: "(addr \<times> string \<times> string list, int, 'w) cfun"
  o_ferror :: "(addr, int, 'w) cfun"
  o_clearerr :: "(addr, unit, 'w) cfun"
  o_fclose :: "(addr, int, 'w) cfun"

fun do_stream :: "posix \<Rightarrow> 'w originals \<Rightarrow> wcall \<Rightarrow> stream_call \<Rightarrow> 'w preload \<Rightarrow> (int \<times> 'w preload) option" where
  "do_stream px os cx (Do_fprintf x format) s = posix_fprintf cx px (o_vfprintf os) x format [] s"
| "do_stream px os cx (Do_ferror x) s = posix_ferror cx (o_ferror os) x s"
| "do_stream px os cx (Do_clearerr x) s = map_option (\<lambda>s'. (0, s')) (posix_clearerr cx (o_clearerr os) x s)"
| "do_stream px os cx (Do_fclose x) s = posix_fclose cx px (o_fclose os) x s"

fun do_streams :: "posix \<Rightarrow> 'w originals \<Rightarrow> (wcall \<times> stream_call) list \<Rightarrow> 'w preload \<Rightarrow> (int list \<times> 'w preload) option" where
  "do_streams px os [] s = Some ([], s)"
| "do_streams px os ((cx, c) # cs) s = do {
     (r, s1) \<leftarrow> do_stream px os cx c s;
     (rs, s2) \<leftarrow> do_streams px os cs s1;
     Some (r # rs, s2) }"

text \<open>The library is preloaded: \<open>dlsym\<close> finds the originals, and the platform defines one of the error numbers of each list.\<close>

definition wcall_ok :: "wcall \<Rightarrow> bool" where
  "wcall_ok cx \<longleftrightarrow> envs_ok cx \<and> (\<forall>name. wc_dlsym cx name \<noteq> 0)"

definition posix_ok :: "posix \<Rightarrow> bool" where
  "posix_ok px \<longleftrightarrow> (\<forall>names \<in> {open_errnos, fclose_errnos, printf_errnos, scanf_errnos}. valid_errnos px names \<noteq> [])"

lemma wcall_ok_addr: "wcall_ok cx \<Longrightarrow> orig_addr cx name s \<noteq> 0"
  by (simp add: wcall_ok_def orig_addr_def)

lemma fprintf_ready:
  assumes "preload_ready s" and "wcall_ok cx" and "posix_ok px"
  shows "call_outcome cx call ''vfprintf'' ''posix/stdio/sp/fprintf'' (Errno_ferror (-1) (valid_errnos px printf_errnos) x) (x, format, va) s
    (posix_fprintf cx px call x format va s)"
  unfolding posix_fprintf_def
  by (rule variadic_ferror_ready [OF assms(1)]) (use assms(2,3) wcall_ok_addr [OF assms(2)] in \<open>simp_all add: wcall_ok_def posix_ok_def\<close>)

lemma do_stream_ready:
  assumes "preload_ready s" and "wcall_ok cx" and "posix_ok px"
  shows "\<exists>r s'. do_stream px os cx c s = Some (r, s') \<and> preload_ready s'
    \<and> (\<forall>x. x \<noteq> call_stream c \<longrightarrow> (x \<in> ferror_set s' \<longleftrightarrow> x \<in> ferror_set s))"
proof -
  have env: "envs_ok cx" and errnos: "valid_errnos px fclose_errnos \<noteq> []" using assms(2,3) by (simp_all add: wcall_ok_def posix_ok_def)
  note addr = wcall_ok_addr [OF assms(2)]
  show ?thesis
  proof (cases c)
    case (Do_fprintf y format)
    from fprintf_ready [OF assms, of "o_vfprintf os" y format "[]"] obtain r s' where
      "posix_fprintf cx px (o_vfprintf os) y format [] s = Some (r, s')" "preload_ready s'"
      "ferror_set s' = ferror_set s \<or> ferror_set s' = ferror_set s \<union> {y}"
      unfolding call_outcome_def body_marks.simps by (metis (no_types, lifting))
    then show ?thesis using Do_fprintf by auto
  next
    case (Do_ferror y)
    then show ?thesis using posix_ferror_ready [OF assms(1) env addr, of "o_ferror os" y] by auto
  next
    case (Do_clearerr y)
    then show ?thesis using posix_clearerr_ready [OF assms(1) env addr, of "o_clearerr os" y] by auto
  next
    case (Do_fclose y)
    then show ?thesis using posix_fclose_ready [OF assms(1) env errnos addr, of "o_fclose os" y] by auto
  qed
qed

lemma do_streams_ready:
  assumes "preload_ready s" and "posix_ok px" and "\<forall>(cx, c)\<in>set cs. wcall_ok cx \<and> call_stream c \<noteq> x"
  shows "\<exists>rs s'. do_streams px os cs s = Some (rs, s') \<and> preload_ready s' \<and> (x \<in> ferror_set s' \<longleftrightarrow> x \<in> ferror_set s)"
  using assms
proof (induction cs arbitrary: s)
  case (Cons q cs)
  obtain cx c where q: "q = (cx, c)" by (cases q)
  with Cons.prems do_stream_ready [of s cx px os c] obtain r s1 where
    s1: "do_stream px os cx c s = Some (r, s1)" "preload_ready s1" "x \<in> ferror_set s1 \<longleftrightarrow> x \<in> ferror_set s" by auto
  from Cons.IH [OF s1(2) Cons.prems(2)] Cons.prems(3) obtain rs s' where
    "do_streams px os cs s1 = Some (rs, s')" "preload_ready s'" "x \<in> ferror_set s' \<longleftrightarrow> x \<in> ferror_set s1" by auto
  with q s1 show ?case by auto
qed simp

text \<open>A recursive call of \<open>open64\<close> arrives at the original of \<open>open\<close>.\<close>

lemma open64_recursive:
  assumes "fiu_called s \<noteq> 0" and "orig s ''open'' \<noteq> 0" and "open_mode px flags va = Some mode"
  shows "posix_open64 cx px call path flags va s
    = (case call (orig s ''open'') (path, flags, mode) (proc s) of (r, p) \<Rightarrow> Some (r, s\<lparr>proc := p\<rparr>))"
  using assms by (simp add: posix_open64_def body_called_def call_orig_def split: prod.split)

subsection \<open>Properties\<close>

text \<open>The state of a thread after the constructors, and a call environment, for the concrete instances.\<close>

definition preload_start :: "fiu \<Rightarrow> 'w \<Rightarrow> 'w preload" where
  "preload_start l w = \<lparr>fiu_called = 0, orig = (\<lambda>_. 0), in_init = (\<lambda>_. 0), lib = l, ferror_table = NULL, ferror_locked = False,
     ferror_once = False, proc = \<lparr>errno = 0, outside = w\<rparr>\<rparr>"

definition quiet_call :: wcall where
  "quiet_call = \<lparr>wc_dlsym = (\<lambda>_. 64), wc_reduce_env = quiet_env, wc_reduce_random = 0, wc_env = quiet_env, wc_random = 0,
     wc_malloc_h = True, wc_malloc_entries = True, wc_mem = mem_ok\<rparr>"

lemma quiet_call_ok: "envs_ok quiet_call" "wcall_ok quiet_call" "wc_env quiet_call = quiet_env" "wc_reduce_env quiet_call = quiet_env"
  using quiet_env_ok(1) by (simp_all add: quiet_call_def envs_ok_def wcall_ok_def wcall_memory_def)

definition linux_like :: posix where
  "linux_like = \<lparr>px_errno = (\<lambda>n. if n = ''EIO'' then Some 5 else if n = ''EMFILE'' then Some 24 else None), px_O_CREAT = 64, px_EOF = -1,
     px_stdout = 1, px_stdin = 2\<rparr>"

lemma linux_like_ok: "posix_ok linux_like"
  by (simp add: posix_ok_def valid_errnos_def linux_like_def guarded_def open_errnos_def fclose_errnos_def printf_errnos_def scanf_errnos_def)

lemma preload_start_ready: "fiu_ready l \<Longrightarrow> preload_ready (preload_start l w)" "ferror_set (preload_start l w) = {}" "lib (preload_start l w) = l"
  by (simp_all add: preload_start_def preload_ready_def ferror_ok_def ferror_set_def)

text \<open>Property C17: A wrapper does exactly what \<open>fiu_fail\<close> says: outside the library, the generated wrapper of any function asks for its point of
  failure once; if that does not fail, the original is called with the arguments of the call and its
  result and effects are those of the wrapper, and if it fails, the original is not called, the result is the value of the function's
  kind of wrapper and \<open>errno\<close> is the information of the failure, or, without any, one of the error numbers listed for the function. The
  recursion counter is balanced in either case, and only a failing stream function marks its stream.\<close>

theorem wrapper_behaves:
  assumes "preload_ready s" and "envs_ok cx" and "body_valid body" and "orig_addr cx name s \<noteq> 0"
  shows "call_outcome cx call name fname body args s (wrapper cx call name on_err fname None body args s)"
  using assms by (rule wrapper_ready)

theorem wrapper_behaves_witness:
  "\<exists>l st l' r s'. fiu_init quiet_env fiu_start = Some (0, l) \<and> fiu_fail quiet_env ''posix/io/oc/close'' l = Some (st, l')
    \<and> wrapper quiet_call (\<lambda>a fd p. (0, p)) ''close'' (-1) ''posix/io/oc/close'' None (Errno (-1) [4, 5]) (3 :: int) (preload_start l ())
       = Some (r, s') \<and> preload_ready s' \<and> r \<in> {0, -1 :: int}"
proof -
  obtain l where l: "fiu_init quiet_env fiu_start = Some (0, l)" "fiu_ready l" by (rule quiet_start)
  have a: "orig_addr quiet_call ''close'' (preload_start l ()) \<noteq> 0" by (rule wcall_ok_addr [OF quiet_call_ok(2)])
  from wrapper_behaves [OF preload_start_ready(1) [OF l(2)] quiet_call_ok(1) _ a, of "Errno (-1) [4, 5]" "\<lambda>a fd p. (0, p)" "''posix/io/oc/close''" "3 :: int" "-1"]
  obtain st l' r s' where "fiu_fail quiet_env ''posix/io/oc/close'' l = Some (st, l')"
      "wrapper quiet_call (\<lambda>a fd p. (0, p)) ''close'' (-1) ''posix/io/oc/close'' None (Errno (-1) [4, 5]) (3 :: int) (preload_start l ()) = Some (r, s')"
      "preload_ready s'" "r \<in> {0, -1 :: int}"
    unfolding call_outcome_def quiet_call_ok(3) preload_start_ready(3) by (auto split: if_splits)
  with l(1) show ?thesis by blast
qed

text \<open>Property C35: Calls from inside are passed on: while the recursion counter is positive, a wrapper, whatever its body, calls the original, which it
  looks up first if need be, and nothing else happens, no point of failure is asked; and while the original of this function itself is
  being looked up, the wrapper returns its error value instead of calling NULL.\<close>

theorem wrapper_reentrant:
  assumes "0 < fiu_called s" and "orig s name \<noteq> 0 \<or> in_init s name = 0" and "orig_addr cx name s \<noteq> 0"
    and "call (orig_addr cx name s) args (proc s) = (r, p)"
    and "fiu_called t = 0" and "in_init t name = 0" and "orig t name = 0"
  shows "wrapper cx call name on_err fname reduce body args s
      = Some (r, s\<lparr>orig := (orig s)(name := orig_addr cx name s), proc := p\<rparr>)
    \<and> wrapper cx call name on_err fname reduce body args (begin_init name t) = Some (on_err, begin_init name t)"
proof
  have "body_called cx call name on_err args s = Some (Some r, (got_orig cx name s)\<lparr>proc := p\<rparr>)"
    using assms(1,2) call_got_orig [of cx name s call args r p] assms(3,4) by (auto simp: body_called_def wrap_init_orig Let_def)
  then show "wrapper cx call name on_err fname reduce body args s
      = Some (r, s\<lparr>orig := (orig s)(name := orig_addr cx name s), proc := p\<rparr>)"
    by (simp add: wrapper_def got_orig_def)
  show "wrapper cx call name on_err fname reduce body args (begin_init name t) = Some (on_err, begin_init name t)"
    using assms(5-7) by (simp add: wrapper_def body_called_def begin_init_def called_inc_def)
qed

theorem wrapper_reentrant_witness:
  "wrapper quiet_call (\<lambda>a n p. (a + n, p)) ''malloc'' 0 ''libc/mm/malloc'' None (Hardcoded 0) 8 ((preload_start fiu_start ())\<lparr>fiu_called := 1\<rparr>)
     = Some (72 :: addr, (preload_start fiu_start ())\<lparr>fiu_called := 1, orig := (\<lambda>_. 0)(''malloc'' := 64)\<rparr>)"
  using wrapper_reentrant [of "(preload_start fiu_start ())\<lparr>fiu_called := 1\<rparr>" "''malloc''" quiet_call "\<lambda>a n p. (a + n, p)" 8 72 "\<lparr>errno = 0, outside = ()\<rparr>"
      "preload_start fiu_start ()" 0 "''libc/mm/malloc''" None "Hardcoded 0"]
  by (simp add: preload_start_def quiet_call_def orig_addr_def)

text \<open>Property C28: Streams stay consistent: after a simulated failure of \<open>fprintf\<close> on a stream, \<open>ferror\<close> reports an error for it, whatever calls on
  other streams come in between; after \<open>clearerr\<close> it reports what the original reports (unless its own point of failure fails).\<close>

theorem ferror_consistent:
  assumes "preload_ready s" and "posix_ok px" and "wcall_ok cx"
    and "fiu_fail (wc_env cx) ''posix/stdio/sp/fprintf'' (lib s) = Some (st, l)" and "st \<noteq> 0"
    and "\<forall>(cx, c)\<in>set cs. wcall_ok cx \<and> call_stream c \<noteq> x" and "\<forall>(cx, c)\<in>set ds. wcall_ok cx \<and> call_stream c \<noteq> x"
    and "wcall_ok cx'" and "wcall_ok cx''"
  shows "\<exists>s1 rs s2 r s3 s4 rs' s5 st' l' r' s6.
      do_stream px os cx (Do_fprintf x format) s = Some (-1, s1) \<and> do_streams px os cs s1 = Some (rs, s2)
    \<and> do_stream px os cx' (Do_ferror x) s2 = Some (r, s3) \<and> r \<noteq> 0
    \<and> do_stream px os cx'' (Do_clearerr x) s3 = Some (0, s4) \<and> do_streams px os ds s4 = Some (rs', s5)
    \<and> fiu_fail (wc_env cx') ''posix/stdio/error/ferror'' (lib s5) = Some (st', l')
    \<and> do_stream px os cx' (Do_ferror x) s5 = Some (r', s6)
    \<and> r' = (if st' \<noteq> 0 then 1 else fst (o_ferror os (orig_addr cx' ''ferror'' s5) x (proc s5)))"
proof -
  obtain r1 s1 where s1: "do_stream px os cx (Do_fprintf x format) s = Some (r1, s1)" "preload_ready s1" "r1 = -1"
      "ferror_set s1 = ferror_set s \<union> {x}"
    using fprintf_ready [OF assms(1,3,2), of "o_vfprintf os" x format "[]"] assms(4,5) unfolding call_outcome_def by auto
  obtain rs s2 where s2: "do_streams px os cs s1 = Some (rs, s2)" "preload_ready s2" "x \<in> ferror_set s2"
    using do_streams_ready [OF s1(2) assms(2,6), of os] s1(4) by auto
  have env: "envs_ok cx'" "envs_ok cx''" using assms(8,9) by (simp_all add: wcall_ok_def)
  note ferror = posix_ferror_ready [OF _ env(1) wcall_ok_addr [OF assms(8)], of _ "o_ferror os" x]
  obtain r s3 where s3: "do_stream px os cx' (Do_ferror x) s2 = Some (r, s3)" "preload_ready s3" "r \<noteq> 0"
    using ferror [OF s2(2)] s2(3) by (auto simp: Let_def split: if_splits)
  obtain s4 where s4: "do_stream px os cx'' (Do_clearerr x) s3 = Some (0, s4)" "preload_ready s4" "x \<notin> ferror_set s4"
    using posix_clearerr_ready [OF s3(2) env(2) wcall_ok_addr [OF assms(9)], of "o_clearerr os" x] by auto
  obtain rs' s5 where s5: "do_streams px os ds s4 = Some (rs', s5)" "preload_ready s5" "x \<notin> ferror_set s5"
    using do_streams_ready [OF s4(2) assms(2,7), of os] s4(3) by auto
  show ?thesis using ferror [OF s5(2)] s5(3) s1(1,3) s2(1) s3(1,3) s4(1) s5(1) by (auto simp: Let_def)
qed

theorem ferror_consistent_witness:
  "\<exists>l l1 s1 r s3. fiu_init quiet_env fiu_start = Some (0, l) \<and> fiu_enable quiet_env ''posix/stdio/sp/fprintf'' 1 5 0 l = Some (0, l1)
    \<and> do_stream linux_like \<lparr>o_vfprintf = (\<lambda>a xs p. (0, p)), o_ferror = (\<lambda>a x p. (0, p)), o_clearerr = (\<lambda>a x p. ((), p)), o_fclose = (\<lambda>a x p. (0, p))\<rparr>
        quiet_call (Do_fprintf 7 ''hello'') (preload_start l1 ()) = Some (-1, s1)
    \<and> do_stream linux_like \<lparr>o_vfprintf = (\<lambda>a xs p. (0, p)), o_ferror = (\<lambda>a x p. (0, p)), o_clearerr = (\<lambda>a x p. ((), p)), o_fclose = (\<lambda>a x p. (0, p))\<rparr>
        quiet_call (Do_ferror 7) s1 = Some (r, s3) \<and> r \<noteq> 0"
proof -
  obtain l where l: "fiu_init quiet_env fiu_start = Some (0, l)" "fiu_ready l" by (rule quiet_start)
  let ?os = "\<lparr>o_vfprintf = (\<lambda>a xs p. (0, p)), o_ferror = (\<lambda>a x p. (0, p)), o_clearerr = (\<lambda>a x p. ((), p)), o_fclose = (\<lambda>a x p. (0, p))\<rparr> :: unit originals"
  obtain l1 l2 where l1: "fiu_enable quiet_env ''posix/stdio/sp/fprintf'' 1 5 0 l = Some (0, l1)" "fiu_ready l1"
      "fiu_fail quiet_env ''posix/stdio/sp/fprintf'' l1 = Some (1, l2)"
    using enable_then_fail [OF l(2) quiet_env_ok(1) quiet_env_ok(1), of "''posix/stdio/sp/fprintf''" 1 5 0] by (auto simp: is_pat_def)
  have fail: "fiu_fail (wc_env quiet_call) ''posix/stdio/sp/fprintf'' (lib (preload_start l1 ())) = Some (1, l2)"
    using l1(3) by (simp add: quiet_call_ok preload_start_ready)
  obtain s1 rs s2 r s3 where "do_stream linux_like ?os quiet_call (Do_fprintf 7 ''hello'') (preload_start l1 ()) = Some (-1, s1)"
      "do_streams linux_like ?os [] s1 = Some (rs, s2)" "do_stream linux_like ?os quiet_call (Do_ferror 7) s2 = Some (r, s3)" "r \<noteq> 0"
    using ferror_consistent [OF preload_start_ready(1) [OF l1(2)] linux_like_ok quiet_call_ok(2) fail _ _ _ quiet_call_ok(2) quiet_call_ok(2),
      where os = ?os and cs = "[]" and ds = "[]" and x = 7 and format = "''hello''"] by auto
  with l(1) l1(1) show ?thesis by auto
qed

text \<open>An enabled failure arrives, with its error number: after \<open>fiu_enable\<close> of the point of failure of \<open>open\<close>, the program's next
  \<open>open\<close> returns -1 without opening anything, with the given number in \<open>errno\<close>, or a listed one if none was given; after
  \<open>fiu_disable\<close> the original is called, with the mode that the flags ask for.\<close>

theorem open_fails_as_enabled:
  assumes "preload_ready s" and "posix_ok px" and "wcall_ok cx" and "wcall_ok cx'" and "env_ok env" and "failnum \<noteq> 0"
    and "open_mode px flags va = Some mode" and "\<forall>q \<in> dom (points (lib s)). q \<noteq> ''posix/io/oc/open'' \<longrightarrow> \<not> pat_matches q ''posix/io/oc/open''"
  shows "\<exists>l1 s1 r2 l2 r s3. fiu_enable env ''posix/io/oc/open'' failnum failinfo 0 (lib s) = Some (0, l1)
    \<and> posix_open cx px call path flags va (s\<lparr>lib := l1\<rparr>) = Some (-1, s1) \<and> outside (proc s1) = outside (proc s)
    \<and> (if failinfo = 0 then errno (proc s1) \<in> set (valid_errnos px open_errnos) else errno (proc s1) = errno_of failinfo)
    \<and> fiu_disable env ''posix/io/oc/open'' (lib s1) = Some (r2, l2)
    \<and> posix_open cx' px call path flags va (s1\<lparr>lib := l2\<rparr>) = Some (r, s3) \<and> preload_ready s3
    \<and> (r, proc s3) = call (orig_addr cx' ''open'' s1) (path, flags, mode) (proc s1)"
proof -
  let ?name = "''posix/io/oc/open''"
  have "open_errnos \<in> {open_errnos, fclose_errnos, printf_errnos, scanf_errnos}" by simp
  then have valid: "body_valid (Errno (-1 :: int) (valid_errnos px open_errnos))" using assms(2) unfolding posix_ok_def by simp
  have ready: "preload_ready (t\<lparr>lib := l\<rparr>)" if "preload_ready t" "fiu_ready l" for t :: "'a preload" and l
    using that by (simp add: preload_ready_def ferror_update)
  have outcome: "call_outcome cx0 call ''open'' ?name (Errno (-1) (valid_errnos px open_errnos)) (path, flags, mode) t
      (posix_open cx0 px call path flags va t)" if "preload_ready t" "wcall_ok cx0" for t cx0
    using body_then_bottom [OF that(1) _ valid wcall_ok_addr [OF that(2)],
        where fname = ?name and call = call and args = "(path, flags, mode)" and name = "''open''"] that(2) assms(7)
    by (simp add: posix_open_def body_called_ready [OF that(1)] wcall_ok_def)
  have env: "env_ok (wc_env cx)" "env_ok (wc_env cx')" using assms(3,4) by (simp_all add: wcall_ok_def envs_ok_def)
  have lib: "fiu_ready (lib s)" using assms(1) by (simp add: preload_ready_def)
  obtain l1 l1' where l1: "fiu_enable env ?name failnum failinfo 0 (lib s) = Some (0, l1)" "fiu_fail (wc_env cx) ?name l1 = Some (failnum, l1')"
      "fiu_ready l1" "last_failinfo l1' = failinfo" "fiu_ready l1'" "dom (points l1') = insert ?name (dom (points (lib s)))"
    using enable_then_fail [OF lib assms(5) env(1), of ?name failnum failinfo 0] by (auto simp: is_pat_def)
  obtain s1 where s1: "posix_open cx px call path flags va (s\<lparr>lib := l1\<rparr>) = Some (-1, s1)" "preload_ready s1" "lib s1 = l1'"
      "outside (proc s1) = outside (proc s)"
      "if failinfo = 0 then errno (proc s1) \<in> set (valid_errnos px open_errnos) else errno (proc s1) = errno_of failinfo"
    using outcome [OF ready [OF assms(1) l1(3)] assms(3)] l1(2,4) assms(6) unfolding call_outcome_def by auto
  have "\<forall>q \<in> dom (points l1'). q \<noteq> ?name \<longrightarrow> \<not> pat_matches q ?name" using assms(8) l1(6) by auto
  from disable_then_pass [OF l1(5) assms(5) env(2) _ this] obtain r2 l2 l3 where
    l2: "fiu_disable env ?name l1' = Some (r2, l2)" "fiu_fail (wc_env cx') ?name l2 = Some (0, l3)" "fiu_ready l2" by auto
  have same: "orig_addr cx' ''open'' (s1\<lparr>lib := l2\<rparr>) = orig_addr cx' ''open'' s1" by (auto simp: orig_addr_def)
  obtain r s3 where "posix_open cx' px call path flags va (s1\<lparr>lib := l2\<rparr>) = Some (r, s3)" "preload_ready s3"
      "(r, proc s3) = call (orig_addr cx' ''open'' s1) (path, flags, mode) (proc s1)"
    using outcome [OF ready [OF s1(2) l2(3)] assms(4)] l2(2) unfolding call_outcome_def same by auto
  with l1(1) s1 l2(1) show ?thesis by blast
qed

theorem open_fails_as_enabled_witness:
  "\<exists>l l1 s1. fiu_init quiet_env fiu_start = Some (0, l) \<and> fiu_enable quiet_env ''posix/io/oc/open'' 1 24 0 l = Some (0, l1)
    \<and> posix_open quiet_call linux_like (\<lambda>a x p. (3, p)) ''/etc/passwd'' 0 None (preload_start l1 ()) = Some (-1, s1) \<and> errno (proc s1) = 24"
proof -
  obtain l where l: "fiu_init quiet_env fiu_start = Some (0, l)" "fiu_ready l" "points l = Map.empty" by (rule quiet_start)
  have m: "open_mode linux_like 0 None = Some 0" by (simp add: open_mode_def)
  have "errno_of 24 = 24" by (simp add: errno_of_def)
  moreover obtain l1 s1 where "fiu_enable quiet_env ''posix/io/oc/open'' 1 24 0 l = Some (0, l1)"
      "posix_open quiet_call linux_like (\<lambda>a x p. (3, p)) ''/etc/passwd'' 0 None ((preload_start l ())\<lparr>lib := l1\<rparr>) = Some (-1, s1)"
      "errno (proc s1) = errno_of 24"
    using open_fails_as_enabled [OF preload_start_ready(1) [OF l(2), of "()"] linux_like_ok quiet_call_ok(2) quiet_call_ok(2) quiet_env_ok(1) _ m,
      where failnum = 1 and failinfo = 24 and call = "\<lambda>a x p. (3, p)" and path = "''/etc/passwd''"] l(3) by (auto simp: preload_start_ready)
  ultimately show ?thesis using l(1) by (auto simp: preload_start_def)
qed

text \<open>Property C36: A reduced size is a size: when the \<open>/reduce\<close> point of failure of a function with a \<open>size_t\<close> parameter fails, the call goes on with
  a size between 1 and the one that was asked for; for a size of 0 the remainder by zero has no defined result.\<close>

theorem reduce_shortens:
  assumes "preload_ready s" and "envs_ok cx" and "body_valid body" and "orig_addr cx name s \<noteq> 0"
    and "fiu_fail (wc_reduce_env cx) (fname @ ''/reduce'') (lib s) = Some (st, l)" and "st \<noteq> 0"
  shows "if n = 0 then wrapper cx call name on_err fname (Some (\<lambda>r (a, n). map_option (Pair a) (reduce_size r n))) body (a, n) s = None
    else \<exists>n'. 1 \<le> unat n' \<and> unat n' \<le> unat n \<and> call_outcome cx call name fname body (a, n') (s\<lparr>lib := l\<rparr>)
      (wrapper cx call name on_err fname (Some (\<lambda>r (a, n). map_option (Pair a) (reduce_size r n))) body (a, n) s)"
proof (cases "n = 0")
  case True
  with reduced_call [OF assms, where f = "\<lambda>r (a, n). map_option (Pair a) (reduce_size r n)" and args = "(a, n)" and call = call and on_err = on_err] show ?thesis
    by (simp add: reduce_size_zero)
next
  case False
  from reduce_size_bounds [OF this] obtain n' where "reduce_size (wc_reduce_random cx) n = Some n'" "1 \<le> unat n'" "unat n' \<le> unat n" by blast
  with False reduced_call [OF assms, where f = "\<lambda>r (a, n). map_option (Pair a) (reduce_size r n)" and args = "(a, n)" and call = call and on_err = on_err] show ?thesis by auto
qed

theorem reduce_shortens_witness:
  "\<exists>l l1. fiu_init quiet_env fiu_start = Some (0, l) \<and> fiu_enable quiet_env ''posix/io/rw/read/reduce'' 1 0 0 l = Some (0, l1)
    \<and> wrapper quiet_call (\<lambda>a (fd, n) p. (n, p)) ''read'' (-1) ''posix/io/rw/read'' (Some (\<lambda>r (a, n). map_option (Pair a) (reduce_size r n)))
        (Errno (-1) [5]) (3 :: int, 0) (preload_start l1 ()) = None"
proof -
  obtain l where l: "fiu_init quiet_env fiu_start = Some (0, l)" "fiu_ready l" by (rule quiet_start)
  obtain l1 l2 where l1: "fiu_enable quiet_env ''posix/io/rw/read/reduce'' 1 0 0 l = Some (0, l1)" "fiu_ready l1"
      "fiu_fail quiet_env ''posix/io/rw/read/reduce'' l1 = Some (1, l2)"
    using enable_then_fail [OF l(2) quiet_env_ok(1) quiet_env_ok(1), of "''posix/io/rw/read/reduce''" 1 0 0] by (auto simp: is_pat_def)
  have fail: "fiu_fail (wc_reduce_env quiet_call) (''posix/io/rw/read'' @ ''/reduce'') (lib (preload_start l1 ())) = Some (1, l2)"
    using l1(3) by (simp add: quiet_call_ok preload_start_ready)
  have "wrapper quiet_call (\<lambda>a (fd, n) p. (n, p)) ''read'' (-1) ''posix/io/rw/read'' (Some (\<lambda>r (a, n). map_option (Pair a) (reduce_size r n)))
        (Errno (-1) [5]) (3 :: int, 0) (preload_start l1 ()) = None"
    using reduce_shortens [OF preload_start_ready(1) [OF l1(2)] quiet_call_ok(1) _ wcall_ok_addr [OF quiet_call_ok(2)] fail,
      where body = "Errno (-1) [5]" and n = 0 and name = "''read''" and call = "\<lambda>a (fd, n) p. (n, p)" and on_err = "-1" and a = "3 :: int"] by simp
  with l(1) l1(1) show ?thesis by blast
qed

end
