(* ===== verification/Wtable_Threads.thy ===== *)
theory Wtable_Threads
  imports Wtable_Correct
begin

text \<open>
  Lookups in the wildcard table by any number of threads. The callers hold the read-write lock of fiu.c for reading, so while
  lookups are under way no thread changes the contents; but every lookup that misses writes to the cache, which all of them
  share. The cache has a lock of its own, so a lookup is a sequence of steps between which other lookups can run. \<open>Fiu_Threads\<close>
  takes the answer of a lookup from its specification; the property of this theory is the reason why it may.
\<close>

subsection \<open>Steps of a lookup\<close>

text \<open>Where a thread is in \<open>wtable_get\<close>: not in it; before \<open>hash_get\<close>; before \<open>cache_get\<close>; before the walk of the array; before
  \<open>cache_set\<close> with the value that the walk has found; about to return a value.\<close>

datatype 'v look =
    Away
  | In_finals string | In_cache string | In_array string | To_cache string "'v ptr" | Answer string "'v ptr"

record 'v lookups =
  ltab :: "'v wtable"
  lpc :: "nat \<Rightarrow> 'v look"

definition goto_pc :: "nat \<Rightarrow> 'v look \<Rightarrow> 'v lookups \<Rightarrow> 'v lookups" where
  "goto_pc i c s = s\<lparr>lpc := (lpc s)(i := c)\<rparr>"

definition walk_array :: "'v wtable \<Rightarrow> string \<Rightarrow> 'v ptr option" where
  "walk_array t key = do {
     (found, _) \<leftarrow> wildcards_find_entry t key False False;
     (case found of None \<Rightarrow> Some NULL | Some p \<Rightarrow> map_option w_value (wentry_at t p)) }"

inductive lstep :: "nat \<Rightarrow> 'v lookups \<Rightarrow> 'v lookups \<Rightarrow> bool" for i where
  enter: "lpc s i = Away \<Longrightarrow> lstep i s (goto_pc i (In_finals key) s)"
| exact: "lpc s i = In_finals key \<Longrightarrow> hash_get (finals (ltab s)) key = Some v \<Longrightarrow> \<not> is_null v \<Longrightarrow> lstep i s (goto_pc i (Answer key v) s)"
| inexact: "lpc s i = In_finals key \<Longrightarrow> hash_get (finals (ltab s)) key = Some NULL \<Longrightarrow> lstep i s (goto_pc i (In_cache key) s)"
| hit: "lpc s i = In_cache key \<Longrightarrow> cache_get (wcache (ltab s)) key = Some (True, v) \<Longrightarrow> lstep i s (goto_pc i (Answer key v) s)"
| miss: "lpc s i = In_cache key \<Longrightarrow> cache_get (wcache (ltab s)) key = Some (False, v) \<Longrightarrow> lstep i s (goto_pc i (In_array key) s)"
| walk: "lpc s i = In_array key \<Longrightarrow> walk_array (ltab s) key = Some v \<Longrightarrow> lstep i s (goto_pc i (To_cache key v) s)"
| keep: "lpc s i = To_cache key v \<Longrightarrow> cache_set mem_ok (wcache (ltab s)) key v = Some (r, c) \<Longrightarrow>
    lstep i s (goto_pc i (Answer key v) (s\<lparr>ltab := (ltab s)\<lparr>wcache := c\<rparr>\<rparr>))"
| leave: "lpc s i = Answer key v \<Longrightarrow> lstep i s (goto_pc i Away s)"

text \<open>Stores and removals run under the lock for writing: nobody is in a lookup then.\<close>

inductive wstep :: "'v lookups \<Rightarrow> 'v lookups \<Rightarrow> bool" where
  store: "\<forall>j. lpc s j = Away \<Longrightarrow> key \<noteq> [] \<Longrightarrow> wtable_set mem_ok (ltab s) key v = Some (r, t') \<Longrightarrow> wstep s (s\<lparr>ltab := t'\<rparr>)"
| remove: "\<forall>j. lpc s j = Away \<Longrightarrow> key \<noteq> [] \<Longrightarrow> wtable_del mem_ok (ltab s) key = Some (r, t') \<Longrightarrow> wstep s (s\<lparr>ltab := t'\<rparr>)"

inductive lreach :: "'v wtable \<Rightarrow> 'v lookups \<Rightarrow> bool" for t where
  fresh: "lreach t \<lparr>ltab = t, lpc = (\<lambda>_. Away)\<rparr>"
| look: "lreach t s \<Longrightarrow> lstep i s s' \<Longrightarrow> lreach t s'"
| change: "lreach t s \<Longrightarrow> wstep s s' \<Longrightarrow> lreach t s'"

text \<open>Without interference the steps are \<open>wtable_get\<close>.\<close>

lemma wtable_get_steps:
  fixes t :: "'v wtable"
  shows "wtable_get mem t key = do {
     value \<leftarrow> hash_get (finals t) key;
     if \<not> is_null value then Some (value, t)
     else do {
       (hit, cached) \<leftarrow> cache_get (wcache t) key;
       if hit then Some (cached, t)
       else do {
         value \<leftarrow> walk_array t key;
         (_, c) \<leftarrow> cache_set mem (wcache t) key value;
         Some (value, t\<lparr>wcache := c\<rparr>) } } }"
proof -
  have "walk_array t key \<bind> f = wildcards_find_entry t key False False \<bind>
      (\<lambda>(found, _). (case found of None \<Rightarrow> Some NULL | Some p \<Rightarrow> map_option w_value (wentry_at t p)) \<bind> f)"
    for f :: "'v ptr \<Rightarrow> ('v ptr \<times> 'v wtable) option"
    by (cases "wildcards_find_entry t key False False") (auto simp: walk_array_def)
  then show ?thesis unfolding wtable_get_def by presburger
qed

subsection \<open>The invariant\<close>

lemma goto_pc_fields [simp]: "ltab (goto_pc i c s) = ltab s" "lpc (goto_pc i c s) = (lpc s)(i := c)"
  by (simp_all add: goto_pc_def)

fun on_track :: "'v wtable \<Rightarrow> 'v look \<Rightarrow> bool" where
  "on_track t (In_cache key) \<longleftrightarrow> wtable_answer t key = wild_lookup (warray t) key"
| "on_track t (In_array key) \<longleftrightarrow> wtable_answer t key = wild_lookup (warray t) key"
| "on_track t (To_cache key v) \<longleftrightarrow> v = wild_lookup (warray t) key \<and> wtable_answer t key = v"
| "on_track t (Answer key v) \<longleftrightarrow> v = wtable_answer t key"
| "on_track t _ \<longleftrightarrow> True"

definition looks_inv :: "'v lookups \<Rightarrow> bool" where
  "looks_inv s \<longleftrightarrow> wtable_inv (ltab s) \<and> (\<forall>i. on_track (ltab s) (lpc s i))"

lemma wtable_answer_cache_upd [simp]: "wtable_answer (t\<lparr>wcache := c\<rparr>) k = wtable_answer t k"
  by (simp add: wtable_answer_def)

lemma on_track_cache [simp]: "on_track (t\<lparr>wcache := c\<rparr>) p = on_track t p"
  by (cases p) simp_all

lemma wtable_inv_parts:
  assumes "wtable_inv t"
  shows "warray_ok t" and "wcache.coherent (wild_lookup (warray t)) (wcache t)"
    and "hash_get (finals t) k = Some (case hash_abs (finals t) k of None \<Rightarrow> NULL | Some v \<Rightarrow> v)"
  using assms by (auto simp: wtable_inv_def wild_wf_def cache_coherent_def finals_ok_def intro: hash_get_inv)

lemma exact_answer:
  assumes "wtable_inv t" and "hash_get (finals t) key = Some v"
  shows "wtable_answer t key = (if is_null v then wild_lookup (warray t) key else v)"
  using wtable_inv_parts(3) [OF assms(1), of key] assms(2) by (auto simp: wtable_answer_def split: option.splits ptr.splits)

lemma walk_array_answer: "wtable_inv t \<Longrightarrow> walk_array t key = Some (wild_lookup (warray t) key)"
  using wildcards_walk [OF wtable_inv_parts(1), of t key] by (auto simp: walk_array_def)

lemma looks_inv_step: "lstep i s s' \<Longrightarrow> looks_inv s \<Longrightarrow> looks_inv s'"
proof (induction rule: lstep.induct)
  case (exact s key v)
  then show ?case using exact_answer [OF _ exact(2)] by (auto simp: looks_inv_def)
next
  case (inexact s key)
  then show ?case using exact_answer [OF _ inexact(2)] by (auto simp: looks_inv_def)
next
  case (hit s key v)
  then have "wtable_inv (ltab s)" "on_track (ltab s) (In_cache key)" by (auto simp: looks_inv_def dest: spec [of _ i])
  with wcache.coherent_hit [OF wtable_inv_parts(2) hit(2)] hit(3) show ?case by (simp add: looks_inv_def)
next
  case (miss s key v)
  then show ?case by (auto simp: looks_inv_def dest: spec [of _ i])
next
  case (walk s key v)
  then have "wtable_inv (ltab s)" "on_track (ltab s) (In_array key)" by (auto simp: looks_inv_def dest: spec [of _ i])
  with walk_array_answer [of "ltab s" key] walk(2,3) show ?case by (simp add: looks_inv_def)
next
  case (keep s key v r c)
  then have inv: "wtable_inv (ltab s)" and v: "v = wild_lookup (warray (ltab s)) key" "wtable_answer (ltab s) key = v"
    by (auto simp: looks_inv_def dest: spec [of _ i])
  have "wcache.coherent (wild_lookup (warray (ltab s))) c"
    using wcache.coherent_set [OF wtable_inv_parts(2) [OF inv], of key] keep(2) v(1) by auto
  with wtable_inv_cache [OF inv] v(2) keep(3) show ?case by (auto simp: looks_inv_def)
qed (auto simp: looks_inv_def)

lemma looks_inv_write:
  assumes "wstep s s'" and "looks_inv s"
  shows "looks_inv s'"
  using assms
proof (induction rule: wstep.induct)
  case (store s key v r t')
  then have "wtable_inv (ltab s)" by (simp add: looks_inv_def)
  from wtable_set_law [OF this store(2), of v] store(3) have "wtable_inv t'" by (auto simp: wtable_set_effect_def)
  with store(1) show ?case by (simp add: looks_inv_def)
next
  case (remove s key r t')
  then have "wtable_inv (ltab s)" by (simp add: looks_inv_def)
  from wtable_del_law [OF this remove(2)] remove(3) have "wtable_inv t'" by (auto simp: wtable_del_effect_def)
  with remove(1) show ?case by (simp add: looks_inv_def)
qed

lemma lreach_inv:
  assumes "lreach t s" and "wtable_inv t"
  shows "looks_inv s"
  using assms
proof induction
  case fresh
  then show ?case by (simp add: looks_inv_def)
qed (blast intro: looks_inv_step looks_inv_write)+

lemma look_goes_on:
  assumes "looks_inv s" and "lpc s i \<noteq> Away"
  shows "\<exists>s'. lstep i s s'"
proof -
  have inv: "wtable_inv (ltab s)" using assms(1) by (simp add: looks_inv_def)
  have c: "wcache.coherent (wild_lookup (warray (ltab s))) (wcache (ltab s))" by (rule wtable_inv_parts(2) [OF inv])
  have track: "on_track (ltab s) (lpc s i)" using assms(1) by (simp add: looks_inv_def)
  show ?thesis
  proof (cases "lpc s i")
    case (In_finals key)
    obtain v where v: "hash_get (finals (ltab s)) key = Some v" using wtable_inv_parts(3) [OF inv] by blast
    with In_finals show ?thesis by (cases v) (use lstep.exact lstep.inexact in fastforce)+
  next
    case (In_cache key)
    have "cache_inv (wcache (ltab s))" using c by (simp add: wcache.coherent_def)
    then obtain h v where "cache_get (wcache (ltab s)) key = Some (h, v)" using wcache.get_law by blast
    then show ?thesis using In_cache by (cases h) (auto intro: lstep.hit lstep.miss)
  next
    case (In_array key)
    then show ?thesis using walk_array_answer [OF inv] by (auto intro: lstep.walk)
  next
    case (To_cache key v)
    with track have "v = wild_lookup (warray (ltab s)) key" by simp
    with wcache.coherent_set [OF c, of key] obtain c' where "cache_set mem_ok (wcache (ltab s)) key v = Some (True, c')" by auto
    then show ?thesis using To_cache by (auto intro: lstep.keep)
  qed (use assms(2) in \<open>auto intro: lstep.leave\<close>)
qed

subsection \<open>Properties\<close>

text \<open>Property C16: Lookups by many threads at once: in every interleaving of lookups, with stores and removals while nobody looks up, a lookup that is
  about to return has the answer of the table's map of names and patterns, although the lookups fill one cache between each
  other's steps; and a thread inside a lookup can always take its next step, each of which has a defined result.\<close>

theorem concurrent_lookups:
  assumes "wtable_inv t" and "lreach t s"
  shows "(lpc s i = Answer key v \<longrightarrow> v = wtable_answer (ltab s) key \<and> pattern_answer (wtable_abs (ltab s)) key v)
    \<and> (lpc s i \<noteq> Away \<longrightarrow> (\<exists>s'. lstep i s s'))"
proof -
  have inv: "looks_inv s" by (rule lreach_inv [OF assms(2,1)])
  have "v = wtable_answer (ltab s) key \<and> pattern_answer (wtable_abs (ltab s)) key v" if "lpc s i = Answer key v"
  proof -
    have "wtable_inv (ltab s)" "on_track (ltab s) (Answer key v)" using inv that unfolding looks_inv_def by metis+
    with wtable_answer_pattern [of "ltab s" key] show ?thesis by simp
  qed
  with look_goes_on [OF inv] show ?thesis by blast
qed

text \<open>Two threads that look up the same name, each between the steps of the other.\<close>

lemma wildcards_set_cache: "wildcards_set t k v = Some (r, t') \<Longrightarrow> wcache t' = wcache t"
  by (auto simp: wildcards_set_def w_destroy_def put_wentry_def bind_eq_Some split: option.splits)

lemma example_table:
  obtains t :: "nat wtable" and v where "wtable_inv t" and "wtable_abs t = [''posix/*'' \<mapsto> Ptr 7]"
    and "cache_get (wcache t) key = Some (False, v)" and "hash_abs (finals t) = Map.empty"
proof -
  obtain t0 :: "nat wtable" where t0: "wtable_create True True True True True True True 0 (Ptr plain_destructor) = Ptr t0"
    by (rule new_wtable)
  note inv = wtable_create_inv [OF t0]
  have new: "ws_size t0 = 10" "ws_used_count t0 = 0" using t0 by (auto simp: wtable_create_def W_MIN_SIZE_def split: ptr.splits if_splits)
  obtain t where t: "wtable_set mem_ok t0 ''posix/*'' (Ptr 7) = Some (True, t)" "wtable_set_effect t0 ''posix/*'' (Ptr 7) t"
    by (rule wtable_set_law [OF inv(1)]) auto
  have ok: "wtable_inv t" "wtable_abs t = [''posix/*'' \<mapsto> Ptr 7]" using t(2) inv(2) by (simp_all add: wtable_set_effect_def)
  have "cache_inv (wcache t0)" using wtable_inv_parts(2) [OF inv(1)] by (simp add: wcache.coherent_def)
  then obtain c where c: "cache_invalidate (wcache t0) = Some (True, c)" "cache_inv c" "cache_contents c = {}"
    using wcache.invalidate_law by blast
  have "wildcards_set (t0\<lparr>wcache := c\<rparr>) (Ptr ''posix/*'') (Ptr 7) = Some (True, t)"
    using t(1) c(1) new by (simp add: wtable_set_def is_wildcard_def c_nth_def size_sub_def c_run)
  then have "wcache t = c" by (drule_tac wildcards_set_cache) simp
  with c wcache.get_law [OF c(2), of key] obtain v where "cache_get (wcache t) key = Some (False, v)" by auto
  moreover have "hash_abs (finals t) k = None" for k
  proof (cases "is_pat k")
    case True
    then show ?thesis using ok(1) by (auto simp: wtable_inv_def finals_ok_def)
  next
    case False
    then show ?thesis using fun_cong [OF ok(2), of k] by (auto simp: wtable_abs_def is_pat_def split: if_splits)
  qed
  ultimately show ?thesis using that ok by blast
qed

lemma example_lookups:
  fixes t :: "'v wtable"
  assumes "wtable_inv t" and "hash_get (finals t) key = Some NULL" and "cache_get (wcache t) key = Some (False, x)"
  shows "\<exists>s. lreach t s \<and> lpc s 0 = Answer key (wild_lookup (warray t) key) \<and> lpc s 1 = In_array key"
proof -
  define s0 where "s0 = \<lparr>ltab = t, lpc = (\<lambda>_ :: nat. Away)\<rparr>"
  define s1 where "s1 = goto_pc 1 (In_array key) s0"
  define s2 where "s2 = goto_pc 0 (To_cache key (wild_lookup (warray t) key)) s1"
  have reach: "lreach t (goto_pc i (In_array key) u)" if u: "lreach t u" "ltab u = t" "lpc u i = Away" for i :: nat and u
  proof -
    have "lreach t (goto_pc i (In_finals key) u)" by (rule lreach.look [OF u(1) lstep.enter [OF u(3)]])
    then have "lreach t (goto_pc i (In_cache key) (goto_pc i (In_finals key) u))"
      by (rule lreach.look [OF _ lstep.inexact]) (simp_all add: u assms(2))
    then have "lreach t (goto_pc i (In_array key) (goto_pc i (In_cache key) (goto_pc i (In_finals key) u)))"
      by (rule lreach.look [OF _ lstep.miss]) (simp_all add: u assms(3))
    then show ?thesis by (simp add: goto_pc_def)
  qed
  have "lreach t s1" unfolding s1_def by (rule reach) (simp_all add: s0_def lreach.fresh)
  then have "lreach t (goto_pc 0 (In_array key) s1)" by (rule reach) (simp_all add: s1_def s0_def)
  then have "lreach t (goto_pc 0 (To_cache key (wild_lookup (warray t) key)) (goto_pc 0 (In_array key) s1))"
    by (rule lreach.look [OF _ lstep.walk]) (simp_all add: s1_def s0_def walk_array_answer [OF assms(1)])
  then have r2: "lreach t s2" by (simp add: goto_pc_def s2_def)
  obtain c where "cache_set mem_ok (wcache t) key (wild_lookup (warray t) key) = Some (True, c)"
    using wcache.coherent_set [OF wtable_inv_parts(2) [OF assms(1)], of key] by blast
  then have "lstep 0 s2 (goto_pc 0 (Answer key (wild_lookup (warray t) key)) (s2\<lparr>ltab := (ltab s2)\<lparr>wcache := c\<rparr>\<rparr>))"
    by (intro lstep.keep) (simp_all add: s2_def s1_def s0_def)
  from lreach.look [OF r2 this] show ?thesis by (rule exI [where P = "\<lambda>s. lreach t s \<and> _ s", OF conjI]) (simp add: s2_def s1_def)
qed

theorem concurrent_lookups_witness:
  "\<exists>(t :: nat wtable) s s'. lreach t s \<and> lpc s 0 = Answer ''posix/io/rw/read'' (Ptr 7) \<and> lpc s 1 = In_array ''posix/io/rw/read''
    \<and> lstep 1 s s'"
proof -
  let ?k = "''posix/io/rw/read''"
  obtain t :: "nat wtable" and x where t: "wtable_inv t" "wtable_abs t = [''posix/*'' \<mapsto> Ptr 7]"
    "cache_get (wcache t) ?k = Some (False, x)" "hash_abs (finals t) = Map.empty" by (rule example_table)
  have "hash_get (finals t) ?k = Some NULL" using wtable_inv_parts(3) [OF t(1), of ?k] t(4) by simp
  from example_lookups [OF t(1) this t(3)] obtain s where s: "lreach t s" "lpc s 0 = Answer ?k (wild_lookup (warray t) ?k)"
    "lpc s 1 = In_array ?k" by blast
  have p: "pat_matches ''posix/*'' ?k" "\<not> is_pat ?k" by (simp_all add: pat_matches_def is_pat_def)
  have "wild_lookup (warray t) ?k = wtable_answer t ?k" using t(4) by (simp add: wtable_answer_def)
  then have "wild_lookup (warray t) ?k = Ptr 7"
    using wtable_answer_pattern [OF t(1), of ?k] p unfolding t(2) by (auto simp: pattern_answer_def split: if_splits)
  with s concurrent_lookups [OF t(1) s(1), of 1] show ?thesis by fastforce
qed

end
