(* ===== verification/Wtable_Faults.thy ===== *)
theory Wtable_Faults
  imports Wtable_Correct
begin

text \<open>
  The wildcard table when memory runs out while it shrinks. \<open>resize_table\<close> overwrites the pointer to the array before it tests it, and
  \<open>wtable_del\<close> returns before it invalidates the cache: the value is released, but the cache still answers with it, and a
  lookup that has to walk the array dereferences NULL.
\<close>

subsection \<open>The failing removal\<close>

lemma wtable_get_lost:
  assumes "hash_inv (finals t)" and "wildcards t = NULL" and "0 < ws_size t" and "cache_inv (wcache t)"
  shows "wtable_get mem t name = (case hash_abs (finals t) name of
      Some (Ptr u) \<Rightarrow> Some (Ptr u, t)
    | _ \<Rightarrow> (case cache_get (wcache t) name of Some (True, u) \<Rightarrow> Some (u, t) | _ \<Rightarrow> None))"
proof -
  obtain h u where c: "cache_get (wcache t) name = Some (h, u)" using wcache.get_law [OF assms(4)] by blast
  obtain n where "ws_size t = Suc n" using assms(3) by (cases "ws_size t") auto
  then have "wildcards_find_entry t name False False = None"
    using assms(2) by (simp add: wildcards_find_entry_def wentry_at_def)
  then show ?thesis using hash_get_inv [OF assms(1), of name] c
    by (auto simp: wtable_get_def split: option.splits ptr.splits)
qed

lemma wtable_del_lost:
  assumes "wtable_inv t" and "is_pat k" and "wtable_abs t k = Some v" and "w_destructor t = Ptr d"
    and "W_MIN_SIZE < ws_size t" and "f32_ratio (ws_used_count t - 1) (ws_size t) < d_0_6" and "W_MIN_SIZE \<le> ws_used_count t + 2"
    and "\<not> mem A_wtable_entries"
  shows "wtable_del mem t k = Some (False, t\<lparr>wildcards := NULL, ws_used_count := ws_used_count t - 1, w_released := w_released t @ d v\<rparr>)"
proof -
  let ?ws = "warray t"
  have k: "k \<noteq> []" using assms(2) by (simp add: is_pat_def)
  have arr: "wildcards t = Ptr ?ws" "ws_size t = length ?ws" "ws_used_count t = wcount ?ws" "warray_ok t" "wunique ?ws"
    using assms(1) by (simp_all add: wtable_inv_def wild_wf_def warray_ok_def)
  have old: "wild_map ?ws k = Some v" using assms(2,3) by (simp add: wtable_abs_def)
  obtain q where q: "wildcards_find_entry t k True False = Some (q, None)"
    "case q of None \<Rightarrow> wild_map ?ws k = None | Some p \<Rightarrow> p < length ?ws \<and> wholds k (?ws ! p)"
    using wholds_scan [OF arr(4), of k False] by (auto simp: scan_free_none)
  with old obtain p where p: "q = Some p" "p < length ?ws" "wholds k (?ws ! p)" by (cases q) auto
  have v: "w_value (?ws ! p) = v" using wild_map_at [OF arr(5) p(2,3)] old by simp
  have used: "0 < ws_used_count t"
    using p(2,3) nth_mem [OF p(2)] arr(3) by (auto simp: wcount_def wholds_def length_greater_0_conv filter_empty_conv)
  have "wtable_resize_table mem (t\<lparr>w_released := w_released t @ d v, wildcards := Ptr (?ws[p := zero_wentry]),
      ws_used_count := ws_used_count t - 1\<rparr>) (ws_used_count t - 1 + 3)
    = Some (False, t\<lparr>w_released := w_released t @ d v, wildcards := NULL, ws_used_count := ws_used_count t - 1\<rparr>)"
    using assms(7,8) used by (simp add: wtable_resize_table_def)
  with q(1) p k assms(2,4-6) arr(1) used v show ?thesis
    by (simp add: wtable_del_def is_wildcard_length c_run wentry_at_def put_wentry_def w_destroy_def Let_def zero_wentry_def [symmetric])
qed

lemma distinct_wunique: "distinct (map w_key (filter w_in_use ws)) \<Longrightarrow> wunique ws"
proof (induction ws)
  case Nil
  then show ?case by (simp add: wunique_def)
next
  case (Cons e ws)
  then have "wunique ws" by (auto split: if_splits)
  moreover have "\<not> wholds k e'" if "wholds k e" "e' \<in> set ws" for k e'
    using that Cons.prems by (force simp: wholds_def)
  ultimately show ?case by (auto simp: wunique_Cons wild_map_None)
qed

subsection \<open>Properties\<close>

text \<open>Property C38: A removal that fails is worse than no removal: when a pattern is removed and the array should shrink but cannot be
  allocated, \<open>wtable_del\<close> reports failure, yet the value of the pattern has been released; afterwards a name in the cache is
  answered as before the removal, with the released value too, and a name that is neither exact nor cached has no defined answer.\<close>

theorem wtable_del_resize_failure:
  assumes "wtable_inv t" and "is_pat k" and "wtable_abs t k = Some v" and "w_destructor t = Ptr d"
    and "W_MIN_SIZE < ws_size t" and "f32_ratio (ws_used_count t - 1) (ws_size t) < d_0_6" and "W_MIN_SIZE \<le> ws_used_count t + 2"
    and "\<not> mem A_wtable_entries"
  shows "\<exists>t'. wtable_del mem t k = Some (False, t') \<and> w_released t' = w_released t @ d v
    \<and> (\<forall>mem' name. hash_abs (finals t) name = None \<longrightarrow> wtable_get mem' t' name =
        (case cache_get (wcache t) name of Some (True, u) \<Rightarrow> Some (u, t') | _ \<Rightarrow> None))"
proof -
  define t' where "t' = t\<lparr>wildcards := NULL, ws_used_count := ws_used_count t - 1, w_released := w_released t @ d v\<rparr>"
  have "hash_inv (finals t')" "wildcards t' = NULL" "0 < ws_size t'" "cache_inv (wcache t')"
    using assms(1,5) by (simp_all add: t'_def wtable_inv_def finals_ok_def cache_coherent_def wcache.coherent_def)
  from wtable_get_lost [OF this] wtable_del_lost [where mem = mem, OF assms] show ?thesis
    by (intro exI [of _ t']) (simp add: t'_def)
qed

text \<open>A table that has grown and is half empty again, with one lookup in its cache.\<close>

definition half_empty :: "nat wentry list" where
  "half_empty = map (\<lambda>c. \<lparr>w_key = Ptr [c, CHR ''*''], w_key_len = 2, w_value = Ptr 7, w_in_use = True\<rparr>) ''abcdefgh'' @ replicate 5 zero_wentry"

lemma half_empty_ok: "wents_ok half_empty" "wunique half_empty" "wcount half_empty = 8" "length half_empty = 13"
  "wild_map half_empty ''a*'' = Some (Ptr 7)" "wild_lookup half_empty ''abc'' = Ptr 7"
proof -
  show "wunique half_empty" by (rule distinct_wunique) (simp add: half_empty_def zero_wentry_def)
qed (simp_all add: half_empty_def wents_ok_def wcount_def zero_wentry_def is_pat_def wild_map_def wholds_def wild_lookup_def wmatches_def
    pat_matches_def numeral_eq_Suc)

lemma example_half_empty:
  obtains t :: "nat wtable" where "wtable_inv t" and "warray t = half_empty" and "ws_size t = 13" and "ws_used_count t = 8"
    and "hash_abs (finals t) = Map.empty" and "w_destructor t = Ptr plain_destructor"
    and "cache_get (wcache t) ''abc'' = Some (True, Ptr 7)" and "w_released t = []"
proof -
  obtain t0 :: "nat wtable" where t0: "wtable_create True True True True True True True 0 (Ptr plain_destructor) = Ptr t0"
    by (rule new_wtable)
  note inv = wtable_create_inv [OF t0]
  have new: "w_released t0 = []" "cache_inv (wcache t0)" "cache_contents (wcache t0) = {}"
    using t0 cache_create_inv [where 'a = nat and junk = 0] by (auto simp: wtable_create_def split: ptr.splits if_splits)
  obtain c where c: "cache_set mem_ok (wcache t0) ''abc'' (Ptr 7) = Some (True, c)" "cache_inv c"
      "cache_contents c \<subseteq> {(''abc'', Ptr 7)}" using wcache.set_law [OF new(2), of "''abc''" "Ptr 7"] new(3) by auto
  have hit: "cache_get c ''abc'' = Some (True, Ptr 7)"
    using cache_get_after_set [OF new(2), of mem_ok "''abc''" "Ptr 7"] c(1) by simp
  define t where "t = t0\<lparr>wildcards := Ptr half_empty, ws_size := 13, ws_used_count := 8, wcache := c\<rparr>"
  have arr: "warray t = half_empty" by (simp add: t_def warray_def)
  have "wcache.coherent (wild_lookup half_empty) c" using c(2,3) half_empty_ok(6) by (auto simp: wcache.coherent_def)
  then have "wtable_inv t" using inv(1,3) half_empty_ok
    by (simp add: wtable_inv_def finals_ok_def wild_wf_def warray_ok_def arr cache_coherent_def)
      (simp add: t_def W_MIN_SIZE_def)
  moreover have "hash_abs (finals t0) k = None" for k
    using fun_cong [OF inv(2), of k] inv(1) by (auto simp: wtable_abs_def wtable_inv_def finals_ok_def split: if_splits)
  ultimately show ?thesis using that [OF _ arr] inv(3) new(1) hit by (simp add: t_def fun_eq_iff)
qed

theorem wtable_del_resize_failure_witness:
  "\<exists>(t :: nat wtable) t'. wtable_inv t \<and> wtable_del (\<lambda>s. s \<noteq> A_wtable_entries) t ''a*'' = Some (False, t') \<and> w_released t' = [Ptr 7]
    \<and> wtable_get mem_ok t' ''abc'' = Some (Ptr 7, t')"
proof -
  obtain t :: "nat wtable" where t: "wtable_inv t" "warray t = half_empty" "ws_size t = 13" "ws_used_count t = 8"
    "hash_abs (finals t) = Map.empty" "w_destructor t = Ptr plain_destructor" "cache_get (wcache t) ''abc'' = Some (True, Ptr 7)"
    "w_released t = []" by (rule example_half_empty)
  have pat: "is_pat ''a*''" by (simp add: is_pat_def)
  then have abs: "wtable_abs t ''a*'' = Some (Ptr 7)" using t(2) half_empty_ok(5) by (simp add: wtable_abs_def)
  have small: "f32_ratio (ws_used_count t - 1) (ws_size t) < d_0_6" using f32_ratio_lt_0_6 [of 13 7] t(3,4) by simp
  from wtable_del_resize_failure [OF t(1) pat abs t(6) _ small, of "\<lambda>s. s \<noteq> A_wtable_entries"] t(3,4) obtain t' where
    "wtable_del (\<lambda>s. s \<noteq> A_wtable_entries) t ''a*'' = Some (False, t')" "w_released t' = w_released t @ plain_destructor (Ptr 7)"
    "\<forall>mem' name. hash_abs (finals t) name = None \<longrightarrow> wtable_get mem' t' name =
        (case cache_get (wcache t) name of Some (True, u) \<Rightarrow> Some (u, t') | _ \<Rightarrow> None)"
    by (auto simp: W_MIN_SIZE_def)
  moreover from this(3) t(5,7) have "wtable_get mem_ok t' ''abc'' = Some (Ptr 7, t')" by simp
  ultimately show ?thesis using t(1,8) by (auto simp: plain_destructor_def)
qed

end
