(* ===== verification/Bindings.thy ===== *)
theory Bindings
  imports Rc_Correct
begin

text \<open>
  The Python bindings: the module fiu_ll (bindings/python/fiu_ll.c) and the Python module fiu.py on top of it. What the
  interpreter's own functions do is an argument, the record \<open>interp\<close>. A Python object is its address; an object is alive as long as
  somebody holds a reference to it: the rest of the program, or the table \<open>_fi_table\<close> of fiu.py, since
  the points of failure store addresses of objects without a reference of their own.
\<close>

subsection \<open>The interpreter\<close>

text \<open>Arguments as the caller passes them, and as \<open>PyArg_ParseTuple\<close> stores them. An argument that is used as text or as a number
  is given by its value, an object that is only stored (of any type) by its address.\<close>

datatype pyval = P_str string | P_int int | P_float rat | P_ref addr

datatype carg = A_str string | A_int int | A_uint "32 word" | A_obj addr | A_double rat

text \<open>What a call of a Python callable does: it raises, or it returns an object that is a number in the range of \<open>long\<close>, or another one.\<close>

datatype call_result = Raises | Gives "int option"

record interp =
  i_parse :: "string \<Rightarrow> pyval list \<Rightarrow> carg list option"
  i_new_long :: "int \<Rightarrow> bool"
  i_callable :: "addr \<Rightarrow> bool"
  i_build :: bool
  i_call :: "addr \<Rightarrow> string \<Rightarrow> int \<Rightarrow> 32 word \<Rightarrow> call_result"

text \<open>What is documented of \<open>PyArg_ParseTuple\<close>: when it succeeds, it has stored one value per unit of the format; a number for \<open>d\<close> may be an
  integer, which is rounded when it is large. A NaN or an infinity is no value of the model.\<close>

fun fits_unit :: "char \<Rightarrow> pyval \<Rightarrow> carg \<Rightarrow> bool" where
  "fits_unit u (P_str x) (A_str y) \<longleftrightarrow> u = CHR ''s'' \<and> y = x \<and> CHR 0x00 \<notin> set x"
| "fits_unit u (P_int n) (A_int m) \<longleftrightarrow> u = CHR ''i'' \<and> m = n \<and> - (2 ^ 31) \<le> n \<and> n < 2 ^ 31"
| "fits_unit u (P_int n) (A_uint w) \<longleftrightarrow> u = CHR ''I'' \<and> w = word_of_int n"
| "fits_unit u (P_ref a) (A_obj b) \<longleftrightarrow> u = CHR ''O'' \<and> b = a"
| "fits_unit u (P_float p) (A_double q) \<longleftrightarrow> u = CHR ''d'' \<and> q = p"
| "fits_unit u (P_int n) (A_double q) \<longleftrightarrow> u = CHR ''d'' \<and> (\<bar>n\<bar> \<le> 2 ^ 53 \<longrightarrow> q = of_int n)"
| "fits_unit u _ _ \<longleftrightarrow> False"

fun fits_units :: "string \<Rightarrow> pyval list \<Rightarrow> carg list \<Rightarrow> bool" where
  "fits_units [] args cs \<longleftrightarrow> args = [] \<and> cs = []"
| "fits_units (u # us) args cs \<longleftrightarrow>
     (if u = CHR ''|'' then args = [] \<and> cs = [] \<or> fits_units us args cs
      else case (args, cs) of (a # as, c # cs') \<Rightarrow> fits_unit u a c \<and> fits_units us as cs' | _ \<Rightarrow> False)"

definition interp_ok :: "interp \<Rightarrow> bool" where
  "interp_ok it \<longleftrightarrow> (\<forall>fmt args cs. i_parse it fmt args = Some cs \<longrightarrow> fits_units (takeWhile (\<lambda>c. c \<noteq> CHR '':'') fmt) args cs)"

text \<open>The state: the library, \<open>_fi_table\<close>, how many references to each object the rest of the program holds, the pipes.\<close>

record py =
  py_lib :: fiu
  fi_table :: "string \<rightharpoonup> addr"
  py_own :: "addr \<Rightarrow> nat"
  py_pipes :: pipes

definition alive :: "py \<Rightarrow> addr \<Rightarrow> bool" where
  "alive s a \<longleftrightarrow> 0 < py_own s a \<or> a \<in> ran (fi_table s)"

text \<open>What a function of the module returns: NULL or a new reference; and the error indicator of the interpreter when it returns. The
  interpreter calls the function with the indicator clear. What sets it on the way is \<open>PyArg_ParseTuple\<close> when it fails,
  \<open>PyErr_SetString\<close>, \<open>PyLong_FromLong\<close> when it fails, and the Python code that a callback runs; nothing in the module clears it.\<close>

datatype pyresult = Py_null | Py_long int | Py_obj addr | Py_none

type_synonym ll_result = "(pyresult \<times> bool \<times> py) option"

text \<open>\<open>PyLong_FromLong\<close>: the object and the error indicator after it, which was \<open>err\<close> before.\<close>

definition new_long :: "interp \<Rightarrow> int \<Rightarrow> bool \<Rightarrow> pyresult \<times> bool" where
  "new_long it r err = (if i_new_long it r then (Py_long r, err) else (Py_null, True))"

subsection \<open>The callback\<close>

text \<open>The conversion of a \<open>long\<close> to \<open>int\<close>.\<close>

definition c_int :: "int \<Rightarrow> int" where
  "c_int n = (n + 2 ^ 31) mod 2 ^ 32 - 2 ^ 31"

text \<open>\<open>*failinfo\<close> is the callable; nothing is changed through the pointers.\<close>

definition external_callback :: "interp \<Rightarrow> string \<Rightarrow> int \<Rightarrow> addr \<Rightarrow> 32 word \<Rightarrow> int \<times> int \<times> addr \<times> 32 word" where
  "external_callback it name failnum failinfo flags =
     (if \<not> i_build it then 0
      else case i_call it failinfo name failnum flags of
        Raises \<Rightarrow> 0
      | Gives None \<Rightarrow> -1
      | Gives (Some rv) \<Rightarrow> c_int rv, failnum, failinfo, flags)"

text \<open>Whether it leaves an exception set.\<close>

definition callback_error :: "interp \<Rightarrow> string \<Rightarrow> int \<Rightarrow> addr \<Rightarrow> 32 word \<Rightarrow> bool" where
  "callback_error it name failnum failinfo flags \<longleftrightarrow>
     \<not> i_build it \<or> i_call it failinfo name failnum flags = Raises \<or> i_call it failinfo name failnum flags = Gives None"

text \<open>Every callback of a point of failure that was enabled through the module is \<open>external_callback\<close>.\<close>

definition ll_env :: "interp \<Rightarrow> env \<Rightarrow> env" where
  "ll_env it env = env\<lparr>e_callback := (\<lambda>_. external_callback it)\<rparr>"

text \<open>The error indicator after \<open>fiu_fail\<close>: the callback is the only Python code that runs in it.\<close>

definition asked_pf :: "env \<Rightarrow> string \<Rightarrow> fiu \<Rightarrow> pf_info option" where
  "asked_pf env name s = (case enabled_fails s of NULL \<Rightarrow> None
     | Ptr t \<Rightarrow> (case wtable_get (e_mem env) t name of Some (Ptr p, _) \<Rightarrow> pfs s p | _ \<Rightarrow> None))"

definition err_occurred :: "interp \<Rightarrow> env \<Rightarrow> string \<Rightarrow> fiu \<Rightarrow> bool" where
  "err_occurred it env name s = (case asked_pf env name s of
       None \<Rightarrow> False
     | Some pf \<Rightarrow> rec_count s = 0 \<and> pf_method pf = PF_EXTERNAL \<and> \<not> (onetime pf \<and> pf_failed_once pf)
         \<and> callback_error it (pf_name pf) (pf_failnum pf) (pf_failinfo pf) (pf_flags pf))"

subsection \<open>The functions of fiu_ll\<close>

text \<open>\<open>_\<close> is the case that \<open>PyArg_ParseTuple\<close> fails; with the formats that are used it stores nothing of another shape.
  \<open>fail\<close> asks for the indicator and does not return the number when it is set.\<close>

definition ll_fail :: "interp \<Rightarrow> env \<Rightarrow> pyval list \<Rightarrow> py \<Rightarrow> ll_result" where
  "ll_fail it env args s = (case i_parse it ''s:fail'' args of
       Some [A_str name] \<Rightarrow> do {
         (r, l) \<leftarrow> fiu_fail (ll_env it env) name (py_lib s);
         let (rv, err) = new_long it r (err_occurred it env name (py_lib s));
         Some (if rv = Py_null \<or> err then Py_null else rv, err, s\<lparr>py_lib := l\<rparr>) }
     | _ \<Rightarrow> Some (Py_null, True, s))"

text \<open>\<open>Py_XINCREF\<close> on an object that is gone has no defined result.\<close>

definition ll_failinfo :: "interp \<Rightarrow> pyval list \<Rightarrow> py \<Rightarrow> ll_result" where
  "ll_failinfo it args s = (case i_parse it '':failinfo'' args of
       Some [] \<Rightarrow> do {
         rv \<leftarrow> fiu_failinfo (py_lib s);
         if rv = 0 then Some (Py_null, False, s)
         else if alive s rv then Some (Py_obj rv, False, s\<lparr>py_own := (py_own s)(rv := py_own s rv + 1)\<rparr>)
         else None }
     | _ \<Rightarrow> Some (Py_null, True, s))"

text \<open>The state and the result after a call of the library, in which no Python code runs.\<close>

definition ll_return :: "interp \<Rightarrow> (int \<times> fiu) option \<Rightarrow> py \<Rightarrow> ll_result" where
  "ll_return it x s = do { (r, l) \<leftarrow> x; let (rv, err) = new_long it r False; Some (rv, err, s\<lparr>py_lib := l\<rparr>) }"

definition ll_enable :: "interp \<Rightarrow> env \<Rightarrow> pyval list \<Rightarrow> py \<Rightarrow> ll_result" where
  "ll_enable it env args s = (case i_parse it ''siOI:enable'' args of
       Some [A_str name, A_int failnum, A_obj failinfo, A_uint flags] \<Rightarrow>
         ll_return it (fiu_enable env name failnum failinfo flags (py_lib s)) s
     | _ \<Rightarrow> Some (Py_null, True, s))"

definition ll_enable_random :: "interp \<Rightarrow> env \<Rightarrow> pyval list \<Rightarrow> py \<Rightarrow> ll_result" where
  "ll_enable_random it env args s = (case i_parse it ''siOId:enable_random'' args of
       Some [A_str name, A_int failnum, A_obj failinfo, A_uint flags, A_double probability] \<Rightarrow>
         ll_return it (fiu_enable_random env name failnum failinfo flags (to_float probability) (py_lib s)) s
     | _ \<Rightarrow> Some (Py_null, True, s))"

text \<open>The address of \<open>external_callback\<close> does not matter: 1 stands for it.\<close>

definition ll_enable_external :: "interp \<Rightarrow> env \<Rightarrow> pyval list \<Rightarrow> py \<Rightarrow> ll_result" where
  "ll_enable_external it env args s = (case i_parse it ''siIO:enable_external'' args of
       Some [A_str name, A_int failnum, A_uint flags, A_obj py_external_cb] \<Rightarrow>
         if \<not> i_callable it py_external_cb then Some (Py_null, True, s)
         else ll_return it (fiu_enable_external env name failnum py_external_cb flags 1 (py_lib s)) s
     | _ \<Rightarrow> Some (Py_null, True, s))"

definition ll_enable_stack_by_name :: "interp \<Rightarrow> env \<Rightarrow> pyval list \<Rightarrow> py \<Rightarrow> ll_result" where
  "ll_enable_stack_by_name it env args s =
     (let enable = (\<lambda>name failnum failinfo flags func_name pos_in_stack.
            ll_return it (fiu_enable_stack_by_name env name failnum failinfo flags func_name pos_in_stack (py_lib s)) s)
      in case i_parse it ''siOIs|i:enable_stack_by_name'' args of
           Some [A_str name, A_int failnum, A_obj failinfo, A_uint flags, A_str func_name] \<Rightarrow>
             enable name failnum failinfo flags func_name (-1)
         | Some [A_str name, A_int failnum, A_obj failinfo, A_uint flags, A_str func_name, A_int pos_in_stack] \<Rightarrow>
             enable name failnum failinfo flags func_name pos_in_stack
         | _ \<Rightarrow> Some (Py_null, True, s))"

definition ll_disable :: "interp \<Rightarrow> env \<Rightarrow> pyval list \<Rightarrow> py \<Rightarrow> ll_result" where
  "ll_disable it env args s = (case i_parse it ''s:disable'' args of
       Some [A_str name] \<Rightarrow> ll_return it (fiu_disable env name (py_lib s)) s
     | _ \<Rightarrow> Some (Py_null, True, s))"

definition ll_set_prng_seed :: "interp \<Rightarrow> pyval list \<Rightarrow> py \<Rightarrow> ll_result" where
  "ll_set_prng_seed it args s = (case i_parse it ''i:set_prng_seed'' args of
       Some [A_int seed] \<Rightarrow>
         Some (Py_none, False, s\<lparr>py_lib := (py_lib s)\<lparr>gen := fiu_set_prng_seed (word_of_int seed) (gen (py_lib s))\<rparr>\<rparr>)
     | _ \<Rightarrow> Some (Py_null, True, s))"

definition ll_rc_fifo :: "interp \<Rightarrow> sys \<Rightarrow> pyval list \<Rightarrow> py \<Rightarrow> ll_result" where
  "ll_rc_fifo it sys args s = (case i_parse it ''s:rc_fifo'' args of
       Some [A_str basename] \<Rightarrow> do {
         (r, ps, l) \<leftarrow> fiu_rc_fifo sys basename (py_pipes s) (py_lib s);
         let (rv, err) = new_long it r False;
         Some (rv, err, s\<lparr>py_lib := l, py_pipes := ps\<rparr>) }
     | _ \<Rightarrow> Some (Py_null, True, s))"

text \<open>\<open>fiu_methods\<close>; for a name that is not in it the interpreter raises \<open>AttributeError\<close>.\<close>

definition ll_call :: "interp \<Rightarrow> env \<Rightarrow> sys \<Rightarrow> string \<Rightarrow> pyval list \<Rightarrow> py \<Rightarrow> ll_result" where
  "ll_call it env sys meth args s =
     (if meth = ''fail'' then ll_fail it env args s
      else if meth = ''failinfo'' then ll_failinfo it args s
      else if meth = ''enable'' then ll_enable it env args s
      else if meth = ''enable_random'' then ll_enable_random it env args s
      else if meth = ''enable_external'' then ll_enable_external it env args s
      else if meth = ''enable_stack_by_name'' then ll_enable_stack_by_name it env args s
      else if meth = ''disable'' then ll_disable it env args s
      else if meth = ''set_prng_seed'' then ll_set_prng_seed it args s
      else if meth = ''rc_fifo'' then ll_rc_fifo it sys args s
      else Some (Py_null, True, s))"

text \<open>\<open>PyInit_fiu_ll\<close>: the result of \<open>fiu_init\<close> is not looked at. \<open>PyModule_Create\<close> returns the module \<open>m\<close>.\<close>

definition PyInit_fiu_ll :: "env \<Rightarrow> addr \<Rightarrow> py \<Rightarrow> (addr \<times> py) option" where
  "PyInit_fiu_ll env m s = do { (_, l) \<leftarrow> fiu_init env (py_lib s); Some (m, s\<lparr>py_lib := l\<rparr>) }"

subsection \<open>fiu.py\<close>

text \<open>A function returns, or passes on an exception of fiu_ll, or raises \<open>RuntimeError\<close> itself.\<close>

datatype outcome = Returned pyresult | Raised | Runtime_error int

definition keep_object :: "string \<Rightarrow> addr \<Rightarrow> py \<Rightarrow> py" where
  "keep_object name a s = s\<lparr>fi_table := (fi_table s)(name \<mapsto> a)\<rparr>"

definition forget_object :: "string \<Rightarrow> py \<Rightarrow> py" where
  "forget_object name s = s\<lparr>fi_table := (fi_table s)(name := None)\<rparr>"

fun pass_on :: "pyresult \<times> bool \<times> py \<Rightarrow> outcome \<times> py" where
  "pass_on (r, err, s) = (if err \<or> r = Py_null then Raised else Returned r, s)"

text \<open>The end of the \<open>enable\<close> functions: \<open>if r != 0\<close> the object is forgotten.\<close>

fun enabled_or_raise :: "string \<Rightarrow> pyresult \<times> bool \<times> py \<Rightarrow> outcome \<times> py" where
  "enabled_or_raise name (Py_long r, False, s) = (if r \<noteq> 0 then (Runtime_error r, forget_object name s) else (Returned Py_none, s))"
| "enabled_or_raise name (_, _, s) = (Raised, s)"

fun none_or_raise :: "pyresult \<times> bool \<times> py \<Rightarrow> outcome \<times> py" where
  "none_or_raise (Py_long r, False, s) = (if r \<noteq> 0 then Runtime_error r else Returned Py_none, s)"
| "none_or_raise (_, _, s) = (Raised, s)"

type_synonym py_result = "(outcome \<times> py) option"

definition py_fail :: "interp \<Rightarrow> env \<Rightarrow> string \<Rightarrow> py \<Rightarrow> py_result" where
  "py_fail it env name s = map_option pass_on (ll_fail it env [P_str name] s)"

definition py_failinfo :: "interp \<Rightarrow> py \<Rightarrow> py_result" where
  "py_failinfo it s = map_option pass_on (ll_failinfo it [] s)"

definition py_enable :: "interp \<Rightarrow> env \<Rightarrow> string \<Rightarrow> pyval \<Rightarrow> addr \<Rightarrow> pyval \<Rightarrow> py \<Rightarrow> py_result" where
  "py_enable it env name failnum failinfo flags s =
     map_option (enabled_or_raise name)
       (ll_enable it env [P_str name, failnum, P_ref failinfo, flags] (keep_object name failinfo s))"

definition py_enable_random :: "interp \<Rightarrow> env \<Rightarrow> string \<Rightarrow> pyval \<Rightarrow> pyval \<Rightarrow> addr \<Rightarrow> pyval \<Rightarrow> py \<Rightarrow> py_result" where
  "py_enable_random it env name probability failnum failinfo flags s =
     map_option (enabled_or_raise name)
       (ll_enable_random it env [P_str name, failnum, P_ref failinfo, flags, probability] (keep_object name failinfo s))"

definition py_enable_external :: "interp \<Rightarrow> env \<Rightarrow> string \<Rightarrow> addr \<Rightarrow> pyval \<Rightarrow> pyval \<Rightarrow> py \<Rightarrow> py_result" where
  "py_enable_external it env name cb failnum flags s =
     map_option (enabled_or_raise name) (ll_enable_external it env [P_str name, failnum, flags, P_ref cb] (keep_object name cb s))"

definition py_enable_stack_by_name :: "interp \<Rightarrow> env \<Rightarrow> string \<Rightarrow> pyval \<Rightarrow> pyval \<Rightarrow> addr \<Rightarrow> pyval \<Rightarrow> pyval \<Rightarrow> py \<Rightarrow> py_result" where
  "py_enable_stack_by_name it env name func_name failnum failinfo flags pos_in_stack s =
     map_option (enabled_or_raise name)
       (ll_enable_stack_by_name it env [P_str name, failnum, P_ref failinfo, flags, func_name, pos_in_stack] (keep_object name failinfo s))"

definition py_disable :: "interp \<Rightarrow> env \<Rightarrow> string \<Rightarrow> py \<Rightarrow> py_result" where
  "py_disable it env name s = map_option none_or_raise (ll_disable it env [P_str name] (forget_object name s))"

definition py_set_prng_seed :: "interp \<Rightarrow> pyval \<Rightarrow> py \<Rightarrow> py_result" where
  "py_set_prng_seed it seed s = map_option pass_on (ll_set_prng_seed it [seed] s)"

definition py_rc_fifo :: "interp \<Rightarrow> sys \<Rightarrow> string \<Rightarrow> py \<Rightarrow> py_result" where
  "py_rc_fifo it sys basename s = map_option none_or_raise (ll_rc_fifo it sys [P_str basename] s)"

end
