(* ===== verification/Bindings_Correct.thy ===== *)
theory Bindings_Correct
  imports Bindings
begin

text \<open>
  What the Python bindings do: each function of fiu_ll keeps the conventions of the interpreter, a callback decides as it is
  documented, and the objects that points of failure refer to stay alive as long as no enabling call of fiu.py raises and no remote command
  enables anything, but not longer.
\<close>

subsection \<open>What the formats store\<close>

lemma fits_unitD:
  "fits_unit CHR ''s'' a c \<Longrightarrow> \<exists>x. a = P_str x \<and> c = A_str x"
  "fits_unit CHR ''i'' a c \<Longrightarrow> \<exists>n. a = P_int n \<and> c = A_int n"
  "fits_unit CHR ''I'' a c \<Longrightarrow> \<exists>n. a = P_int n \<and> c = A_uint (word_of_int n)"
  "fits_unit CHR ''O'' a c \<Longrightarrow> \<exists>x. a = P_ref x \<and> c = A_obj x"
  "fits_unit CHR ''d'' a c \<Longrightarrow> \<exists>q. c = A_double q"
  by (cases a; cases c; simp)+

lemma fits_units_Cons:
  "u \<noteq> CHR ''|'' \<Longrightarrow> fits_units (u # us) args cs \<longleftrightarrow>
     (\<exists>a as c cs'. args = a # as \<and> cs = c # cs' \<and> fits_unit u a c \<and> fits_units us as cs')"
  by (auto split: list.splits)

lemma parsed:
  assumes "interp_ok it"
  shows "i_parse it ''s:fail'' args = Some cs \<Longrightarrow> \<exists>x. args = [P_str x] \<and> cs = [A_str x]"
    and "i_parse it ''s:disable'' args = Some cs \<Longrightarrow> \<exists>x. args = [P_str x] \<and> cs = [A_str x]"
    and "i_parse it ''s:rc_fifo'' args = Some cs \<Longrightarrow> \<exists>x. args = [P_str x] \<and> cs = [A_str x]"
    and "i_parse it '':failinfo'' args = Some cs \<Longrightarrow> args = [] \<and> cs = []"
    and "i_parse it ''i:set_prng_seed'' args = Some cs \<Longrightarrow> \<exists>n. args = [P_int n] \<and> cs = [A_int n]"
    and "i_parse it ''siOI:enable'' args = Some cs \<Longrightarrow>
      \<exists>x n a f. args = [P_str x, P_int n, P_ref a, P_int f] \<and> cs = [A_str x, A_int n, A_obj a, A_uint (word_of_int f)]"
    and "i_parse it ''siOId:enable_random'' args = Some cs \<Longrightarrow>
      \<exists>x n a f v q. args = [P_str x, P_int n, P_ref a, P_int f, v]
        \<and> cs = [A_str x, A_int n, A_obj a, A_uint (word_of_int f), A_double q]"
    and "i_parse it ''siIO:enable_external'' args = Some cs \<Longrightarrow>
      \<exists>x n f a. args = [P_str x, P_int n, P_int f, P_ref a] \<and> cs = [A_str x, A_int n, A_uint (word_of_int f), A_obj a]"
    and "i_parse it ''siOIs|i:enable_stack_by_name'' args = Some cs \<Longrightarrow>
      \<exists>x n a f g. (args = [P_str x, P_int n, P_ref a, P_int f, P_str g]
          \<and> cs = [A_str x, A_int n, A_obj a, A_uint (word_of_int f), A_str g])
        \<or> (\<exists>p. args = [P_str x, P_int n, P_ref a, P_int f, P_str g, P_int p]
          \<and> cs = [A_str x, A_int n, A_obj a, A_uint (word_of_int f), A_str g, A_int p])"
proof -
  have fits: "fits_units (takeWhile (\<lambda>c. c \<noteq> CHR '':'') fmt) args cs" if "i_parse it fmt args = Some cs" for fmt
    using assms that by (simp add: interp_ok_def)
  have bar: "fits_units (CHR ''|'' # us) as cs' \<longleftrightarrow> as = [] \<and> cs' = [] \<or> fits_units us as cs'" for us as cs' by simp
  show "i_parse it ''s:fail'' args = Some cs \<Longrightarrow> \<exists>x. args = [P_str x] \<and> cs = [A_str x]"
    "i_parse it ''s:disable'' args = Some cs \<Longrightarrow> \<exists>x. args = [P_str x] \<and> cs = [A_str x]"
    "i_parse it ''s:rc_fifo'' args = Some cs \<Longrightarrow> \<exists>x. args = [P_str x] \<and> cs = [A_str x]"
    "i_parse it '':failinfo'' args = Some cs \<Longrightarrow> args = [] \<and> cs = []"
    "i_parse it ''i:set_prng_seed'' args = Some cs \<Longrightarrow> \<exists>n. args = [P_int n] \<and> cs = [A_int n]"
    by (drule fits; auto simp: fits_units_Cons simp del: fits_units.simps(2) dest!: fits_unitD)+
  show "i_parse it ''siOI:enable'' args = Some cs \<Longrightarrow>
      \<exists>x n a f. args = [P_str x, P_int n, P_ref a, P_int f] \<and> cs = [A_str x, A_int n, A_obj a, A_uint (word_of_int f)]"
    "i_parse it ''siOId:enable_random'' args = Some cs \<Longrightarrow>
      \<exists>x n a f v q. args = [P_str x, P_int n, P_ref a, P_int f, v]
        \<and> cs = [A_str x, A_int n, A_obj a, A_uint (word_of_int f), A_double q]"
    "i_parse it ''siIO:enable_external'' args = Some cs \<Longrightarrow>
      \<exists>x n f a. args = [P_str x, P_int n, P_int f, P_ref a] \<and> cs = [A_str x, A_int n, A_uint (word_of_int f), A_obj a]"
    by (drule fits; auto simp: fits_units_Cons simp del: fits_units.simps(2) dest!: fits_unitD)+
  show "i_parse it ''siOIs|i:enable_stack_by_name'' args = Some cs \<Longrightarrow>
      \<exists>x n a f g. (args = [P_str x, P_int n, P_ref a, P_int f, P_str g]
          \<and> cs = [A_str x, A_int n, A_obj a, A_uint (word_of_int f), A_str g])
        \<or> (\<exists>p. args = [P_str x, P_int n, P_ref a, P_int f, P_str g, P_int p]
          \<and> cs = [A_str x, A_int n, A_obj a, A_uint (word_of_int f), A_str g, A_int p])"
    by (drule fits; auto simp: fits_units_Cons bar simp del: fits_units.simps(2) dest!: fits_unitD)
qed

subsection \<open>The library under Python\<close>

lemma ll_env_ok: "env_ok env \<Longrightarrow> env_ok (ll_env it env)"
  by (simp add: env_ok_def ll_env_def callbacks_keep_onetime_def external_callback_def)

lemma ll_env_step:
  assumes "pf_step (ll_env it env) pf g = (b, pf', g')"
  shows "pf_failinfo pf' = pf_failinfo pf" and "pf_failnum pf' = pf_failnum pf"
  using assms
  by (auto simp: pf_step_def pf_decision_def ll_env_def external_callback_def Let_def
      split: if_splits prod.splits pf_method.splits minfo.splits)

lemma asked_pf_answer:
  assumes "fiu_ready s" and "env_ok env"
  shows "asked_pf env name s = answer_pf s name"
proof (cases "enabled_fails s")
  case NULL
  then show ?thesis by (simp add: asked_pf_def answer_pf_def)
next
  case (Ptr t)
  with assms(1) have "wtable_inv t" by (simp add: fiu_ready_at_def fiu_at_def table_pfs_def wtable_owns_def)
  from wtable_get_ok [OF this, of name] assms(2) Ptr show ?thesis
    by (auto simp: asked_pf_def answer_pf_def env_ok_def split: ptr.splits)
qed

subsection \<open>Types\<close>

text \<open>What each function returns when it succeeds.\<close>

fun returns :: "string \<Rightarrow> pyresult \<Rightarrow> bool" where
  "returns meth (Py_long r) \<longleftrightarrow> meth \<notin> {''failinfo'', ''set_prng_seed''}"
| "returns meth (Py_obj a) \<longleftrightarrow> meth = ''failinfo''"
| "returns meth Py_none \<longleftrightarrow> meth = ''set_prng_seed''"
| "returns meth Py_null \<longleftrightarrow> False"

text \<open>The convention of the interpreter: NULL if and only if an exception is set.\<close>

definition well_behaved :: "string \<Rightarrow> ll_result \<Rightarrow> bool" where
  "well_behaved meth x \<longleftrightarrow> (case x of None \<Rightarrow> False
     | Some (r, err, s') \<Rightarrow> fiu_ready (py_lib s') \<and> (if err then r = Py_null else returns meth r))"

lemma well_behaved_exc [simp]: "fiu_ready (py_lib s) \<Longrightarrow> well_behaved meth (Some (Py_null, True, s))"
  by (simp add: well_behaved_def)







lemma ready_failinfo: "fiu_ready l \<Longrightarrow> fiu_failinfo l = Some (last_failinfo l)"
  by (auto simp: fiu_failinfo_def fiu_ready_at_def fiu_at_def split: ptr.splits)

lemma ll_failinfo_ready:
  assumes "fiu_ready (py_lib s)" and "i_parse it '':failinfo'' args = Some []"
  shows "ll_failinfo it args s =
    (if last_failinfo (py_lib s) = 0 then Some (Py_null, False, s)
     else if alive s (last_failinfo (py_lib s)) then Some (Py_obj (last_failinfo (py_lib s)), False,
       s\<lparr>py_own := (py_own s)(last_failinfo (py_lib s) := py_own s (last_failinfo (py_lib s)) + 1)\<rparr>)
     else None)"
  using assms by (simp add: ll_failinfo_def ready_failinfo Let_def)





















text \<open>A parser that converts each argument on its own, for the concrete instances.\<close>

fun plain_arg :: "char \<Rightarrow> pyval \<Rightarrow> carg option" where
  "plain_arg u (P_str x) = (if u = CHR ''s'' \<and> CHR 0x00 \<notin> set x then Some (A_str x) else None)"
| "plain_arg u (P_int n) = (if u = CHR ''i'' \<and> - (2 ^ 31) \<le> n \<and> n < 2 ^ 31 then Some (A_int n)
     else if u = CHR ''I'' then Some (A_uint (word_of_int n)) else if u = CHR ''d'' then Some (A_double (of_int n)) else None)"
| "plain_arg u (P_ref a) = (if u = CHR ''O'' then Some (A_obj a) else None)"
| "plain_arg u (P_float q) = (if u = CHR ''d'' then Some (A_double q) else None)"

fun plain_parse :: "string \<Rightarrow> pyval list \<Rightarrow> carg list option" where
  "plain_parse [] args = (if args = [] then Some [] else None)"
| "plain_parse (u # us) args =
     (if u = CHR '':'' then if args = [] then Some [] else None
      else if u = CHR ''|'' then if args = [] then Some [] else plain_parse us args
      else case args of [] \<Rightarrow> None | a # as \<Rightarrow> do { c \<leftarrow> plain_arg u a; cs \<leftarrow> plain_parse us as; Some (c # cs) })"

definition plain_interp :: interp where
  "plain_interp = \<lparr>i_parse = plain_parse, i_new_long = (\<lambda>_. True), i_callable = (\<lambda>a. even a), i_build = True,
     i_call = (\<lambda>a name failnum flags. if a = 6 then Raises else if a = 8 then Gives None else Gives (Some (uint a)))\<rparr>"

lemma plain_arg_fits: "plain_arg u a = Some c \<Longrightarrow> u \<noteq> CHR ''|'' \<Longrightarrow> fits_unit u a c"
  by (cases a) (auto split: if_splits)

lemma plain_parse_fits: "plain_parse fmt args = Some cs \<Longrightarrow> fits_units (takeWhile (\<lambda>c. c \<noteq> CHR '':'') fmt) args cs"
proof (induction fmt args arbitrary: cs rule: plain_parse.induct)
  case (2 u us args)
  show ?case
  proof (cases "u = CHR '':'' \<or> u = CHR ''|''")
    case True
    with 2 show ?thesis by (auto split: if_splits)
  next
    case False
    with 2(3) obtain a as c cs' where "args = a # as" "cs = c # cs'" "plain_arg u a = Some c" "plain_parse us as = Some cs'"
      by (auto split: list.splits Option.bind_splits)
    with 2(2) False plain_arg_fits show ?thesis by simp
  qed
qed (auto split: if_splits)

lemma plain_interp_ok: "interp_ok plain_interp"
  by (auto simp: interp_ok_def plain_interp_def intro: plain_parse_fits)

definition py_start :: py where
  "py_start = \<lparr>py_lib = fiu_start, fi_table = Map.empty, py_own = (\<lambda>_. 0), 
     py_pipes = \<lparr>npipe_basename = NULL, npipe_path_in = NULL, npipe_path_out = NULL, pipe_files = [], serving = 0, atexits = 0,
       atforks = 0\<rparr>\<rparr>"

lemma init_start:
  assumes "env_good env"
  shows "\<exists>s. PyInit_fiu_ll env m py_start = Some (m, s) \<and> fiu_ready (py_lib s) \<and> points (py_lib s) = Map.empty
    \<and> fi_table s = Map.empty \<and> last_failinfo (py_lib s) = 0 \<and> py_own s = (\<lambda>_. 0) \<and> bt_works (py_lib s) = -1"
  using fiu_init_start [OF assms] by (auto simp: PyInit_fiu_ll_def py_start_def)




subsection \<open>Programs that use fiu.py\<close>

text \<open>\<open>Op_refs\<close> is what the program does with objects by itself: it takes and drops references as it likes. \<open>Op_remote\<close> is a command
  that the thread of the remote control executes, once \<open>rc_fifo\<close> has started one; its recursion count is its own.\<close>

datatype py_op = Op_refs "addr \<Rightarrow> nat" | Op_fail string | Op_enable string pyval addr pyval
  | Op_enable_random string pyval pyval addr pyval | Op_enable_external string addr pyval pyval
  | Op_enable_stack_by_name string pyval pyval addr pyval pyval
  | Op_disable string | Op_set_prng_seed pyval | Op_rc_fifo sys string | Op_remote string

definition py_remote :: "env \<Rightarrow> string \<Rightarrow> py \<Rightarrow> py_result" where
  "py_remote env cmd s = (if serving (py_pipes s) = 0 then Some (Returned Py_none, s)
     else do {
       (r, error, l) \<leftarrow> fiu_rc_string env cmd (rec_inc (py_lib s));
       Some (Returned Py_none, s\<lparr>py_lib := rec_dec l\<rparr>) })"

fun do_op :: "interp \<Rightarrow> env \<Rightarrow> py_op \<Rightarrow> py \<Rightarrow> py_result" where
  "do_op it env (Op_refs own) s = Some (Returned Py_none, s\<lparr>py_own := own\<rparr>)"
| "do_op it env (Op_fail name) s = py_fail it env name s"
| "do_op it env (Op_enable name n a f) s = py_enable it env name n a f s"
| "do_op it env (Op_enable_random name q n a f) s = py_enable_random it env name q n a f s"
| "do_op it env (Op_enable_external name a n f) s = py_enable_external it env name a n f s"
| "do_op it env (Op_enable_stack_by_name name g n a f p) s = py_enable_stack_by_name it env name g n a f p s"
| "do_op it env (Op_disable name) s = py_disable it env name s"
| "do_op it env (Op_set_prng_seed n) s = py_set_prng_seed it n s"
| "do_op it env (Op_rc_fifo sys base) s = py_rc_fifo it sys base s"
| "do_op it env (Op_remote cmd) s = py_remote env cmd s"

fun do_ops :: "(interp \<times> env \<times> py_op) list \<Rightarrow> py \<Rightarrow> (outcome list \<times> py) option" where
  "do_ops [] s = Some ([], s)"
| "do_ops ((it, env, op) # ops) s = do {
     (r, s1) \<leftarrow> do_op it env op s;
     (rs, s2) \<leftarrow> do_ops ops s1;
     Some (r # rs, s2) }"

text \<open>Objects are not at address 0, names are not empty, and remote commands are none of those that crash.\<close>

fun op_ok :: "py_op \<Rightarrow> bool" where
  "op_ok (Op_enable name n a f) \<longleftrightarrow> name \<noteq> [] \<and> a \<noteq> 0"
| "op_ok (Op_enable_random name q n a f) \<longleftrightarrow> name \<noteq> [] \<and> a \<noteq> 0"
| "op_ok (Op_enable_external name a n f) \<longleftrightarrow> name \<noteq> [] \<and> a \<noteq> 0"
| "op_ok (Op_enable_stack_by_name name g n a f p) \<longleftrightarrow> name \<noteq> [] \<and> a \<noteq> 0"
| "op_ok (Op_disable name) \<longleftrightarrow> name \<noteq> []"
| "op_ok (Op_rc_fifo sys base) \<longleftrightarrow> sys_malloc_in sys \<and> sys_malloc_out sys"
| "op_ok (Op_remote cmd) \<longleftrightarrow> harmless (cmd_words cmd)"
| "op_ok _ \<longleftrightarrow> True"

text \<open>The functions that enable did not raise, \<open>disable\<close> did not fail to be called, and no remote command enabled anything.\<close>

fun went_well :: "py_op \<Rightarrow> outcome \<Rightarrow> bool" where
  "went_well (Op_enable name n a f) r \<longleftrightarrow> r = Returned Py_none"
| "went_well (Op_enable_random name q n a f) r \<longleftrightarrow> r = Returned Py_none"
| "went_well (Op_enable_external name a n f) r \<longleftrightarrow> r = Returned Py_none"
| "went_well (Op_enable_stack_by_name name g n a f p) r \<longleftrightarrow> r = Returned Py_none"
| "went_well (Op_disable name) r \<longleftrightarrow> r \<noteq> Raised"
| "went_well (Op_remote cmd) r \<longleftrightarrow> take 1 (cmd_words cmd) \<notin> {[''enable''], [''enable_random''], [''enable_stack_by_name'']}"
| "went_well _ r \<longleftrightarrow> True"

text \<open>\<open>_fi_table\<close> has the object of every enabled point of failure.\<close>

definition table_keeps :: "py \<Rightarrow> bool" where
  "table_keeps s \<longleftrightarrow> (\<forall>k pf. points (py_lib s) k = Some pf \<longrightarrow> fi_table s k = Some (pf_failinfo pf) \<and> pf_failinfo pf \<noteq> 0)"

text \<open>The call of the library: the library stays ready, and if it returns 0 the point of failure refers to \<open>a\<close>.\<close>

definition enables :: "(int \<times> fiu) option \<Rightarrow> fiu \<Rightarrow> string \<Rightarrow> addr \<Rightarrow> bool" where
  "enables x l name a \<longleftrightarrow> (\<exists>r l' pf. x = Some (r, l') \<and> fiu_ready l'
     \<and> (r = 0 \<longrightarrow> points l' = (points l)(name \<mapsto> pf) \<and> pf_failinfo pf = a))"

lemma create_enables:
  assumes "fiu_ready l" and "env_ok env" and "name \<noteq> []" and "pf_typed (new_pf name n a f me mi)"
  shows "enables (create_and_insert env name n a f me mi l) l name a"
  using create_and_insert_ok [of 0 l name env n a f me mi] assms
  by (auto simp: enables_def env_ok_def fiu_ready_at_def intro!: exI [of _ "new_pf name n a f me mi"])

lemma stack_enables:
  assumes "fiu_ready l" and "env_ok env" and "name \<noteq> []"
  shows "enables (fiu_enable_stack env name n a f func pos l) l name a"
proof -
  have "enables (create_and_insert env name n a f PF_STACK (M_stack g e p) (l\<lparr>bt_works := b\<rparr>)) l name a" for g e p b
    using create_enables [of "l\<lparr>bt_works := b\<rparr>" env name n a f PF_STACK] assms by (simp add: ready_update enables_def)
  then show ?thesis using assms(1) by (simp add: fiu_enable_stack_def Let_def enables_def [of "Some _"] ready_update)
qed

lemma stack_by_name_enables:
  assumes "fiu_ready l" and "env_ok env" and "name \<noteq> []"
  shows "enables (fiu_enable_stack_by_name env name n a f func pos l) l name a"
proof -
  have "enables (fiu_enable_stack env name n a f fp pos (l\<lparr>bt_works := b\<rparr>)) l name a" for fp b
    using stack_enables [of "l\<lparr>bt_works := b\<rparr>" env name n a f fp pos] assms by (simp add: ready_update enables_def)
  then show ?thesis using assms(1) by (simp add: fiu_enable_stack_by_name_def Let_def enables_def [of "Some _"] ready_update)
qed

text \<open>The end of an \<open>enable\<close> function of fiu.py: it has a result, and when it returned, the table keeps all objects.\<close>

definition kept :: "py_result \<Rightarrow> py \<Rightarrow> bool" where
  "kept y s \<longleftrightarrow> (\<exists>r s'. y = Some (r, s') \<and> fiu_ready (py_lib s') \<and> (table_keeps s \<longrightarrow> r = Returned Py_none \<longrightarrow> table_keeps s'))"

lemma enables_kept:
  assumes "enables x (py_lib s) name a" and "a \<noteq> 0"
  shows "kept (map_option (enabled_or_raise name) (ll_return it x (keep_object name a s))) s"
proof -
  obtain r l' pf where x: "x = Some (r, l')" "fiu_ready l'" "r = 0 \<Longrightarrow> points l' = (points (py_lib s))(name \<mapsto> pf)"
    "r = 0 \<Longrightarrow> pf_failinfo pf = a"
    using assms(1) unfolding enables_def by blast
  show ?thesis
  proof (cases "i_new_long it r")
    case True
    with x assms(2) show ?thesis
      by (auto simp: kept_def ll_return_def new_long_def keep_object_def forget_object_def table_keeps_def)
  next
    case False
    with x show ?thesis by (simp add: kept_def ll_return_def new_long_def keep_object_def)
  qed
qed

lemma raise_kept: "fiu_ready (py_lib s) \<Longrightarrow> kept (map_option (enabled_or_raise name) (Some (Py_null, True, keep_object name a s))) s"
  by (simp add: kept_def keep_object_def)

lemma py_enables_kept:
  assumes "interp_ok it" and "env_ok env" and "fiu_ready (py_lib s)" and "name \<noteq> []" and "a \<noteq> 0"
  shows "kept (py_enable it env name n a f s) s"
    and "kept (py_enable_random it env name q n a f s) s"
    and "kept (py_enable_external it env name a n f s) s"
    and "kept (py_enable_stack_by_name it env name g n a f p s) s"
proof -
  let ?s = "keep_object name a s"
  have lib: "py_lib ?s = py_lib s" by (simp add: keep_object_def)
  note raise = raise_kept [OF assms(3), of name a]
  note create = create_enables [OF assms(3,2,4)]
  show "kept (py_enable it env name n a f s) s"
  proof (cases "i_parse it ''siOI:enable'' [P_str name, n, P_ref a, f]")
    case (Some cs)
    from parsed(6) [OF assms(1) this] obtain m w where "cs = [A_str name, A_int m, A_obj a, A_uint w]" by blast
    with Some lib show ?thesis
      by (auto simp: py_enable_def ll_enable_def fiu_enable_def intro!: enables_kept create assms(5))
  qed (use raise in \<open>simp add: py_enable_def ll_enable_def\<close>)
  show "kept (py_enable_random it env name q n a f s) s"
  proof (cases "i_parse it ''siOId:enable_random'' [P_str name, n, P_ref a, f, q]")
    case (Some cs)
    from parsed(7) [OF assms(1) this] obtain m w r where "cs = [A_str name, A_int m, A_obj a, A_uint w, A_double r]" by blast
    with Some lib show ?thesis
      by (auto simp: py_enable_random_def ll_enable_random_def fiu_enable_random_def intro!: enables_kept create assms(5))
  qed (use raise in \<open>simp add: py_enable_random_def ll_enable_random_def\<close>)
  show "kept (py_enable_external it env name a n f s) s"
  proof (cases "i_parse it ''siIO:enable_external'' [P_str name, n, f, P_ref a]")
    case (Some cs)
    from parsed(8) [OF assms(1) this] obtain m w where "cs = [A_str name, A_int m, A_uint w, A_obj a]" by blast
    with Some lib raise show ?thesis
      by (auto simp: py_enable_external_def ll_enable_external_def fiu_enable_external_def intro!: enables_kept create assms(5))
  qed (use raise in \<open>simp add: py_enable_external_def ll_enable_external_def\<close>)
  show "kept (py_enable_stack_by_name it env name g n a f p s) s"
  proof (cases "i_parse it ''siOIs|i:enable_stack_by_name'' [P_str name, n, P_ref a, f, g, p]")
    case (Some cs)
    from parsed(9) [OF assms(1) this] obtain m w h pos where "cs = [A_str name, A_int m, A_obj a, A_uint w, A_str h, A_int pos]" by blast
    with Some lib show ?thesis
      by (auto simp: py_enable_stack_by_name_def ll_enable_stack_by_name_def Let_def
          intro!: enables_kept stack_by_name_enables [OF assms(3,2,4)] assms(5))
  qed (use raise in \<open>simp add: py_enable_stack_by_name_def ll_enable_stack_by_name_def\<close>)
qed

text \<open>\<open>fail\<close>: the points of failure keep their objects, and what failed last is one of them.\<close>

lemma ll_fail_points:
  assumes "interp_ok it" and "env_ok env" and "fiu_ready (py_lib s)"
  shows "\<exists>r err s'. ll_fail it env [P_str name] s = Some (r, err, s') \<and> fiu_ready (py_lib s') \<and> fi_table s' = fi_table s
    \<and> py_own s' = py_own s \<and> (table_keeps s \<longrightarrow> table_keeps s')
    \<and> (\<forall>n. r = Py_long n \<longrightarrow> n \<noteq> 0 \<longrightarrow> (\<exists>k pf. points (py_lib s') k = Some pf \<and> last_failinfo (py_lib s') = pf_failinfo pf))"
proof (cases "i_parse it ''s:fail'' [P_str name]")
  case None
  then show ?thesis using assms(3) by (auto simp: ll_fail_def)
next
  case (Some cs)
  let ?l = "py_lib s" and ?e = "ll_env it env"
  from parsed(1) [OF assms(1) Some] have cs: "cs = [A_str name]" by blast
  have e: "callbacks_keep_onetime ?e" "e_mem ?e = mem_ok" using ll_env_ok [OF assms(2), of it] by (simp_all add: env_ok_def)
  have inv: "fiu_inv ?l" using assms(3) by (simp add: fiu_ready_at_def)
  obtain r l' where f: "fiu_fail ?e name ?l = Some (r, l')" "fiu_inv l'" "enabled_fails l' = NULL \<longleftrightarrow> enabled_fails ?l = NULL"
    "initialized l' = initialized ?l" "case answer_pf ?l name of
         None \<Rightarrow> r = 0 \<and> points l' = points ?l \<and> gen l' = gen ?l \<and> last_failinfo l' = last_failinfo ?l
       | Some pf \<Rightarrow> points ?l (pf_name pf) = Some pf \<and> (case pf_step ?e pf (gen ?l) of (b, pf', g') \<Rightarrow>
           r = (if b then pf_failnum pf' else 0) \<and> points l' = (points ?l)(pf_name pf \<mapsto> pf') \<and> gen l' = g'
           \<and> last_failinfo l' = (if b then pf_failinfo pf' else last_failinfo ?l))"
    using fiu_fail_ok [OF inv e, of name] by blast
  have ready: "fiu_ready l'" using f(2-4) assms(3) by (simp add: fiu_ready_at_def)
  have keeps: "table_keeps (s\<lparr>py_lib := l'\<rparr>)" if "table_keeps s"
  proof (cases "answer_pf ?l name")
    case None
    with f(5) that show ?thesis by (simp add: table_keeps_def)
  next
    case (Some pf)
    obtain b pf' g' where st: "pf_step ?e pf (gen ?l) = (b, pf', g')" by (metis prod.exhaust)
    with f(5) Some ll_env_step [OF st] that show ?thesis by (auto simp: table_keeps_def)
  qed
  have last: "\<exists>k pf. points l' k = Some pf \<and> last_failinfo l' = pf_failinfo pf" if "r \<noteq> 0"
    using f(5) that by (auto split: option.splits prod.splits if_splits)
  show ?thesis using f(1) Some cs ready keeps last
    by (auto simp: ll_fail_def Let_def new_long_def)
qed

lemma py_fail_step:
  assumes "interp_ok it" and "env_ok env" and "fiu_ready (py_lib s)"
  shows "\<exists>r s'. py_fail it env name s = Some (r, s') \<and> fiu_ready (py_lib s') \<and> (table_keeps s \<longrightarrow> table_keeps s')
    \<and> (\<forall>n. r = Returned (Py_long n) \<longrightarrow> n \<noteq> 0 \<longrightarrow> (\<exists>k pf. points (py_lib s') k = Some pf \<and> last_failinfo (py_lib s') = pf_failinfo pf))"
proof -
  obtain r err s' where "ll_fail it env [P_str name] s = Some (r, err, s')" "fiu_ready (py_lib s')" "table_keeps s \<longrightarrow> table_keeps s'"
    "\<forall>n. r = Py_long n \<longrightarrow> n \<noteq> 0 \<longrightarrow> (\<exists>k pf. points (py_lib s') k = Some pf \<and> last_failinfo (py_lib s') = pf_failinfo pf)"
    using ll_fail_points [OF assms, of name] by blast
  then show ?thesis by (simp add: py_fail_def)
qed

lemma py_disable_step:
  assumes "interp_ok it" and "env_ok env" and "fiu_ready (py_lib s)" and "name \<noteq> []"
  shows "\<exists>r s'. py_disable it env name s = Some (r, s') \<and> fiu_ready (py_lib s') \<and> (table_keeps s \<longrightarrow> r \<noteq> Raised \<longrightarrow> table_keeps s')"
proof (cases "i_parse it ''s:disable'' [P_str name]")
  case None
  then show ?thesis using assms(3) by (simp add: py_disable_def ll_disable_def forget_object_def)
next
  case (Some cs)
  from parsed(2) [OF assms(1) Some] have cs: "cs = [A_str name]" by blast
  obtain r l' where l: "fiu_disable env name (py_lib s) = Some (r, l')" "fiu_ready l'" "points l' = (points (py_lib s))(name := None)"
    using fiu_control.del_law [OF assms(2,3,4)] by blast
  show ?thesis
  proof (cases "i_new_long it r")
    case True
    with l Some cs show ?thesis
      by (auto simp: py_disable_def ll_disable_def forget_object_def ll_return_def new_long_def table_keeps_def)
  next
    case False
    with l Some cs show ?thesis by (simp add: py_disable_def ll_disable_def forget_object_def ll_return_def new_long_def)
  qed
qed

lemma py_seed_step:
  assumes "interp_ok it" and "fiu_ready (py_lib s)"
  shows "\<exists>r s'. py_set_prng_seed it n s = Some (r, s') \<and> fiu_ready (py_lib s') \<and> (table_keeps s \<longrightarrow> table_keeps s')"
proof (cases "i_parse it ''i:set_prng_seed'' [n]")
  case (Some cs)
  from parsed(5) [OF assms(1) this] obtain m where "cs = [A_int m]" by blast
  moreover have "points (py_lib s\<lparr>gen := g\<rparr>) = points (py_lib s)" for g
    by (auto simp: points_def fun_eq_iff split: ptr.split option.split)
  ultimately show ?thesis using Some assms(2)
    by (simp add: py_set_prng_seed_def ll_set_prng_seed_def ready_update table_keeps_def)
qed (use assms(2) in \<open>simp add: py_set_prng_seed_def ll_set_prng_seed_def\<close>)

lemma py_fifo_step:
  assumes "interp_ok it" and "fiu_ready (py_lib s)" and "sys_malloc_in sys" and "sys_malloc_out sys"
  shows "\<exists>r s'. py_rc_fifo it sys base s = Some (r, s') \<and> fiu_ready (py_lib s') \<and> (table_keeps s \<longrightarrow> table_keeps s')"
proof (cases "i_parse it ''s:rc_fifo'' [P_str base]")
  case (Some cs)
  from parsed(3) [OF assms(1) this] have "cs = [A_str base]" by blast
  moreover obtain r ps' where "fiu_rc_fifo sys base (py_pipes s) (py_lib s) = Some (r, ps', py_lib s)"
    using fiu_rc_fifo_same [OF assms(3,4)] by blast
  ultimately show ?thesis using Some assms(2)
    by (cases "i_new_long it r") (simp_all add: py_rc_fifo_def ll_rc_fifo_def new_long_def table_keeps_def)
qed (use assms(2) in \<open>simp add: py_rc_fifo_def ll_rc_fifo_def\<close>)

text \<open>A remote command that enables nothing removes at most one point of failure.\<close>

lemma rec_dec_ready: "fiu_ready_at 1 l \<Longrightarrow> fiu_ready (rec_dec l)" "points (rec_dec l) = points l"
  by (simp_all add: rec_dec_def fiu_ready_at_def fiu_at_def points_def fun_eq_iff cong: ptr.case_cong option.case_cong)

lemma py_remote_step:
  assumes "env_ok env" and "fiu_ready (py_lib s)" and "harmless (cmd_words cmd)"
  shows "\<exists>s'. py_remote env cmd s = Some (Returned Py_none, s') \<and> fiu_ready (py_lib s')
    \<and> (table_keeps s \<longrightarrow> went_well (Op_remote cmd) r \<longrightarrow> table_keeps s')"
proof (cases "serving (py_pipes s) = 0")
  case False
  obtain x e l where run: "fiu_rc_string env cmd (rec_inc (py_lib s)) = Some (x, e, l)" "fiu_ready_at 1 l"
    and eff: "case cmd_words cmd of
       [] \<Rightarrow> (x, e, l) = (-1, ''Cannot get command'', rec_inc (py_lib s))
     | [c] \<Rightarrow> (x, e, l) = (-1, ''Cannot get parameters'', rec_inc (py_lib s))
     | c # opts # _ \<Rightarrow>
         if \<not> known_opts opts then (x, e, l) = (-1, ''Unknown parameter'', rec_inc (py_lib s))
         else if c \<notin> rc_commands then (x, e, l) = (-1, ''Unknown command'', rec_inc (py_lib s))
         else x \<in> {0, -1} \<and> e = ''Error in '' @ c \<and> (\<exists>n pf. given_name NULL opts = Ptr n
           \<and> points l = (points (rec_inc (py_lib s)))(n := pf) \<and> (c = ''disable'' \<longrightarrow> pf = None))"
    using rc_string_words_safe [OF rec_inc_ready(1) [OF assms(2)] assms(1,3)] by blast
  have shrinks: "points l = points (py_lib s) \<or> (\<exists>n. points l = (points (py_lib s))(n := None))" if "went_well (Op_remote cmd) r"
  proof (cases "\<exists>c opts more. cmd_words cmd = c # opts # more")
    case False
    with eff rec_inc_ready(2) [of "py_lib s"] show ?thesis by (auto split: list.splits)
  next
    case True
    then obtain c opts more where w: "cmd_words cmd = c # opts # more" by blast
    show ?thesis
    proof (cases "known_opts opts \<and> c \<in> rc_commands")
      case True
      with that w have "c = ''disable''" by (auto simp: rc_commands_def)
      with True eff w rec_inc_ready(2) [of "py_lib s"] show ?thesis by auto
    next
      case False
      with eff w rec_inc_ready(2) [of "py_lib s"] show ?thesis by (auto split: if_splits)
    qed
  qed
  have "table_keeps (s\<lparr>py_lib := rec_dec l\<rparr>)" if "table_keeps s" "went_well (Op_remote cmd) r"
    using shrinks [OF that(2)] that(1) by (auto simp: table_keeps_def rec_dec_ready(2) split: if_splits)
  with False run rec_dec_ready(1) show ?thesis by (simp add: py_remote_def)
qed (use assms(2) in \<open>simp add: py_remote_def\<close>)

text \<open>One operation.\<close>

lemma do_op_step:
  assumes "interp_ok it" and "env_ok env" and "fiu_ready (py_lib s)" and "op_ok op"
  shows "\<exists>r s'. do_op it env op s = Some (r, s') \<and> fiu_ready (py_lib s') \<and> (table_keeps s \<longrightarrow> went_well op r \<longrightarrow> table_keeps s')"
proof (cases op)
  case (Op_refs own)
  with assms(3) show ?thesis by (simp add: table_keeps_def)
next
  case (Op_fail name)
  with py_fail_step [OF assms(1-3), of name] show ?thesis by auto
next
  case (Op_disable name)
  with py_disable_step [OF assms(1-3), of name] assms(4) show ?thesis by auto
next
  case (Op_set_prng_seed n)
  with py_seed_step [OF assms(1,3), of n] show ?thesis by auto
next
  case (Op_rc_fifo sys base)
  with py_fifo_step [OF assms(1,3), of sys base] assms(4) show ?thesis by auto
next
  case (Op_remote cmd)
  with py_remote_step [OF assms(2,3), of cmd] assms(4) show ?thesis by (metis do_op.simps(10) op_ok.simps(7))
qed (use py_enables_kept [OF assms(1-3)] assms(4) in \<open>auto simp: kept_def\<close>)

lemma do_ops_step:
  assumes "fiu_ready (py_lib s)" and "\<forall>(it, env, op)\<in>set ops. interp_ok it \<and> env_ok env \<and> op_ok op"
  shows "\<exists>rs s'. do_ops ops s = Some (rs, s') \<and> fiu_ready (py_lib s')
    \<and> (table_keeps s \<longrightarrow> list_all2 (\<lambda>(_, _, op) r. went_well op r) ops rs \<longrightarrow> table_keeps s')"
  using assms
proof (induction ops arbitrary: s)
  case (Cons o1 ops)
  obtain it env op where o1: "o1 = (it, env, op)" by (metis prod.exhaust)
  with Cons.prems(2) have "interp_ok it" "env_ok env" "op_ok op" by simp_all
  from do_op_step [OF this(1,2) Cons.prems(1) this(3)] obtain r s1 where
    s1: "do_op it env op s = Some (r, s1)" "fiu_ready (py_lib s1)" "table_keeps s \<Longrightarrow> went_well op r \<Longrightarrow> table_keeps s1" by blast
  from Cons.IH [OF s1(2)] Cons.prems(2) obtain rs s2 where
    "do_ops ops s1 = Some (rs, s2)" "fiu_ready (py_lib s2)"
    "table_keeps s1 \<longrightarrow> list_all2 (\<lambda>(_, _, op) r. went_well op r) ops rs \<longrightarrow> table_keeps s2" by auto
  with s1 o1 show ?case by auto
qed simp

lemma kept_alive:
  assumes "table_keeps s" and "points (py_lib s) k = Some pf"
  shows "alive s (pf_failinfo pf)" and "pf_failinfo pf \<noteq> 0"
  using assms by (auto simp: table_keeps_def alive_def intro: ranI)

lemma py_failinfo_run:
  assumes "fiu_ready (py_lib s)" and "i_parse it '':failinfo'' [] = Some []"
    and "last_failinfo (py_lib s) = a" and "a \<noteq> 0"
  shows "py_failinfo it s = (if alive s a then Some (Returned (Py_obj a), s\<lparr>py_own := (py_own s)(a := py_own s a + 1)\<rparr>) else None)"
  using ll_failinfo_ready [OF assms(1,2)] assms(3,4) by (simp add: py_failinfo_def)

text \<open>Property C21: the table \<open>_fi_table\<close> of fiu.py keeps what enabled points of failure refer to. A program that imports the module and then calls
  its functions in any order, each with any arguments and any result of the interpreter, takes and drops references
  to objects as it likes, and executes remote commands (none of those that crash) once \<open>rc_fifo\<close> has succeeded, always gets a result. If no call of an
  \<open>enable\<close> function raised, no call of \<open>disable\<close> was
  refused by the interpreter and no remote command was one that enables, then at the end the object of every enabled point of failure is alive; and if the
  program then calls \<open>fail\<close> and it reports a failure, a call of \<open>failinfo\<close> directly after it returns the object, alive, of an enabled point of
  failure. This is all that the table achieves: \<open>failinfo\<close> at another time, after a \<open>disable\<close> say, or after an \<open>enable\<close> that raised,
  may be a dangling pointer, as a later property shows.\<close>

theorem python_failinfo_alive:
  assumes "env_good env0" and "PyInit_fiu_ll env0 m py_start = Some (m, s0)"
    and "\<forall>(it, env, op)\<in>set ops. interp_ok it \<and> env_ok env \<and> op_ok op"
    and "interp_ok it" and "env_ok env" and "i_parse it '':failinfo'' [] = Some []"
  shows "\<exists>rs s. do_ops ops s0 = Some (rs, s) \<and> (list_all2 (\<lambda>(_, _, op) r. went_well op r) ops rs \<longrightarrow>
      (\<forall>k pf. points (py_lib s) k = Some pf \<longrightarrow> alive s (pf_failinfo pf))
    \<and> (\<exists>r s1. py_fail it env name s = Some (r, s1) \<and> (\<forall>n. r = Returned (Py_long n) \<longrightarrow> n \<noteq> 0 \<longrightarrow>
        (\<exists>k pf s2. points (py_lib s1) k = Some pf \<and> py_failinfo it s1 = Some (Returned (Py_obj (pf_failinfo pf)), s2)
          \<and> alive s2 (pf_failinfo pf)))))"
proof -
  have s0: "fiu_ready (py_lib s0)" "table_keeps s0"
    using init_start [OF assms(1), of m] assms(2) by (auto simp: table_keeps_def)
  from do_ops_step [OF s0(1) assms(3)] s0(2) obtain rs s where s: "do_ops ops s0 = Some (rs, s)" "fiu_ready (py_lib s)"
    "list_all2 (\<lambda>(_, _, op) r. went_well op r) ops rs \<longrightarrow> table_keeps s" by blast
  obtain r s1 where f: "py_fail it env name s = Some (r, s1)" "fiu_ready (py_lib s1)" "table_keeps s \<longrightarrow> table_keeps s1"
    "\<And>n. r = Returned (Py_long n) \<Longrightarrow> n \<noteq> 0 \<Longrightarrow> \<exists>k pf. points (py_lib s1) k = Some pf \<and> last_failinfo (py_lib s1) = pf_failinfo pf"
    using py_fail_step [OF assms(4,5) s(2), of name] by blast
  have "\<exists>k pf s2. points (py_lib s1) k = Some pf \<and> py_failinfo it s1 = Some (Returned (Py_obj (pf_failinfo pf)), s2)
      \<and> alive s2 (pf_failinfo pf)" if "table_keeps s" "r = Returned (Py_long n)" "n \<noteq> 0" for n
  proof -
    from f(4) [OF that(2,3)] obtain k pf where p: "points (py_lib s1) k = Some pf" "last_failinfo (py_lib s1) = pf_failinfo pf" by blast
    note a = kept_alive [OF f(3) [rule_format, OF that(1)] p(1)]
    from py_failinfo_run [OF f(2) assms(6) p(2) a(2)] a(1)
    have "py_failinfo it s1 = Some (Returned (Py_obj (pf_failinfo pf)),
        s1\<lparr>py_own := (py_own s1)(pf_failinfo pf := py_own s1 (pf_failinfo pf) + 1)\<rparr>)" by simp
    with p(1) show ?thesis by (auto simp: alive_def)
  qed
  with s f(1) kept_alive(1) show ?thesis by blast
qed

subsection \<open>Runs\<close>

text \<open>An interpreter in which the calls below are accepted.\<close>

definition accepts :: "interp \<Rightarrow> bool" where
  "accepts it \<longleftrightarrow> i_parse it = plain_parse \<and> i_new_long it = (\<lambda>_. True)"

lemma plain_accepts: "accepts plain_interp"
  by (simp add: accepts_def plain_interp_def)

lemma accepts_ok: "accepts it \<Longrightarrow> interp_ok it"
  by (auto simp: interp_ok_def accepts_def intro: plain_parse_fits)

definition c_name :: "string \<Rightarrow> bool" where
  "c_name name \<longleftrightarrow> name \<noteq> [] \<and> CHR 0x00 \<notin> set name"

definition int_range :: "int \<Rightarrow> bool" where
  "int_range n \<longleftrightarrow> - (2 ^ 31) \<le> n \<and> n < 2 ^ 31"

lemma accepted:
  assumes "accepts it" and "c_name name"
  shows "i_parse it ''s:fail'' [P_str name] = Some [A_str name]"
    and "i_parse it ''s:disable'' [P_str name] = Some [A_str name]"
    and "i_parse it '':failinfo'' [] = Some []"
    and "int_range n \<Longrightarrow> i_parse it ''siOI:enable'' [P_str name, P_int n, P_ref a, P_int f]
      = Some [A_str name, A_int n, A_obj a, A_uint (word_of_int f)]"
    and "int_range n \<Longrightarrow> i_parse it ''siIO:enable_external'' [P_str name, P_int n, P_int f, P_ref a]
      = Some [A_str name, A_int n, A_uint (word_of_int f), A_obj a]"
    and "int_range n \<Longrightarrow> c_name g \<Longrightarrow> int_range p \<Longrightarrow>
      i_parse it ''siOIs|i:enable_stack_by_name'' [P_str name, P_int n, P_ref a, P_int f, P_str g, P_int p]
      = Some [A_str name, A_int n, A_obj a, A_uint (word_of_int f), A_str g, A_int p]"
  using assms by (simp_all add: accepts_def c_name_def int_range_def)

text \<open>\<open>enable\<close>, then \<open>fail\<close>.\<close>

lemma py_enable_run:
  assumes "accepts it" and "env_ok env" and "fiu_ready (py_lib s)" and "c_name name" and "int_range n"
  shows "\<exists>l. py_enable it env name (P_int n) a (P_int f) s = Some (Returned Py_none, s\<lparr>py_lib := l, fi_table := (fi_table s)(name \<mapsto> a)\<rparr>)
    \<and> fiu_ready l \<and> points l = (points (py_lib s))(name \<mapsto> new_pf name n a (word_of_int f) PF_ALWAYS M_unset)"
proof -
  have "name \<noteq> []" "args_typed (n, a, word_of_int f, PF_ALWAYS, M_unset)" using assms(4) by (simp_all add: c_name_def)
  from fiu_control.add_law [OF assms(2,3) this] obtain l where
    l: "fiu_enable env name n a (word_of_int f) (py_lib s) = Some (0, l)" "fiu_ready l"
    "points l = (points (py_lib s))(name \<mapsto> new_pf name n a (word_of_int f) PF_ALWAYS M_unset)"
    by (auto simp: fiu_enable_def)
  with accepted(4) [OF assms(1,4,5)] assms(1) show ?thesis
    by (intro exI [of _ l]) (simp add: py_enable_def ll_enable_def ll_return_def new_long_def keep_object_def accepts_def)
qed

lemma py_fail_run:
  assumes "accepts it" and "env_ok env" and "fiu_ready (py_lib s)" and "c_name name" and "\<not> is_pat name"
    and "points (py_lib s) name = Some (new_pf name n a f PF_ALWAYS M_unset)"
  shows "\<exists>l. py_fail it env name s = Some (Returned (Py_long n), s\<lparr>py_lib := l\<rparr>) \<and> fiu_ready l \<and> last_failinfo l = a
    \<and> dom (points l) = dom (points (py_lib s))"
proof -
  from enabled_always_fails [OF assms(3) ll_env_ok [OF assms(2), of it] assms(5,6)] obtain l where
    l: "fiu_fail (ll_env it env) name (py_lib s) = Some (n, l)" "fiu_ready l" "last_failinfo l = a" "dom (points l) = dom (points (py_lib s))"
    by blast
  have "answer_pf (py_lib s) name = Some (new_pf name n a f PF_ALWAYS M_unset)"
    using answer_pf_answers [of 0 "py_lib s" name] assms(3,5,6) by (simp add: fiu_ready_at_def answers_def)
  then have "\<not> err_occurred it env name (py_lib s)"
    by (simp add: err_occurred_def asked_pf_answer [OF assms(3,2)])
  with l accepted(1) [OF assms(1,4)] assms(1) show ?thesis
    by (intro exI [of _ l]) (simp add: py_fail_def ll_fail_def new_long_def accepts_def)
qed

lemma py_disable_run:
  assumes "accepts it" and "env_ok env" and "fiu_ready (py_lib s)" and "c_name name" and "points (py_lib s) name \<noteq> None"
  shows "\<exists>l. py_disable it env name s = Some (Returned Py_none, s\<lparr>py_lib := l, fi_table := (fi_table s)(name := None)\<rparr>)
    \<and> fiu_ready l \<and> last_failinfo l = last_failinfo (py_lib s)"
proof -
  have "enabled_fails (py_lib s) \<noteq> NULL" "name \<noteq> []" "e_mem env = mem_ok" "fiu_inv (py_lib s)" "initialized (py_lib s)"
    using assms(2-4) by (simp_all add: c_name_def fiu_ready_at_def env_ok_def)
  from fiu_disable_ok [OF this(4,1,2,3)] assms(5) this(5) obtain l where
    "fiu_disable env name (py_lib s) = Some (0, l)" "fiu_ready l" "last_failinfo l = last_failinfo (py_lib s)"
    by (auto simp: fiu_ready_at_def)
  with accepted(2) [OF assms(1,4)] assms(1) show ?thesis
    by (intro exI [of _ l]) (simp add: py_disable_def ll_disable_def ll_return_def new_long_def forget_object_def accepts_def)
qed

theorem python_failinfo_alive_witness:
  "\<exists>s0 rs s. PyInit_fiu_ll quiet_env 2 py_start = Some (2, s0)
     \<and> do_ops [(plain_interp, quiet_env, Op_enable ''a'' (P_int 1) 4 (P_int 0)), (plain_interp, quiet_env, Op_refs (\<lambda>_. 0))] s0 = Some (rs, s)
     \<and> alive s 4"
proof -
  obtain s0 where s0: "PyInit_fiu_ll quiet_env 2 py_start = Some (2, s0)" "fiu_ready (py_lib s0)"
    using init_start [OF quiet_env_ok(2), of 2] by blast
  have n: "c_name ''a''" "int_range 1" by (simp_all add: c_name_def int_range_def)
  obtain l where l: "py_enable plain_interp quiet_env ''a'' (P_int 1) 4 (P_int 0) s0
      = Some (Returned Py_none, s0\<lparr>py_lib := l, fi_table := (fi_table s0)(''a'' \<mapsto> 4)\<rparr>)"
    "points l = (points (py_lib s0))(''a'' \<mapsto> new_pf ''a'' 1 4 (word_of_int 0) PF_ALWAYS M_unset)"
    using py_enable_run [OF plain_accepts quiet_env_ok(1) s0(2) n] by blast
  let ?ops = "[(plain_interp, quiet_env, Op_enable ''a'' (P_int 1) 4 (P_int 0)), (plain_interp, quiet_env, Op_refs (\<lambda>_. 0))]"
  let ?s = "s0\<lparr>py_lib := l, fi_table := (fi_table s0)(''a'' \<mapsto> 4), py_own := (\<lambda>_. 0)\<rparr>"
  have run: "do_ops ?ops s0 = Some ([Returned Py_none, Returned Py_none], ?s)" by (simp add: l(1))
  have ok: "\<forall>(it, env, op)\<in>set ?ops. interp_ok it \<and> env_ok env \<and> op_ok op" using plain_interp_ok quiet_env_ok(1) by simp
  have well: "list_all2 (\<lambda>(_, _, op) r. went_well op r) ?ops [Returned Py_none, Returned Py_none]" by simp
  from python_failinfo_alive [OF quiet_env_ok(2) s0(1) ok plain_interp_ok quiet_env_ok(1) accepted(3) [OF plain_accepts n(1)]] run
  have "list_all2 (\<lambda>(_, _, op) r. went_well op r) ?ops [Returned Py_none, Returned Py_none] \<longrightarrow>
      (\<forall>k pf. points (py_lib ?s) k = Some pf \<longrightarrow> alive ?s (pf_failinfo pf))"
    by (smt (verit) option.inject prod.inject)
  then have all: "\<And>k pf. points (py_lib ?s) k = Some pf \<Longrightarrow> alive ?s (pf_failinfo pf)" using well by blast
  have "points (py_lib ?s) ''a'' = Some (new_pf ''a'' 1 4 (word_of_int 0) PF_ALWAYS M_unset)" using l(2) by simp
  from all [OF this] have "alive ?s 4" unfolding args_pf_fields .
  with s0(1) run show ?thesis by blast
qed

lemma stale_runs:
  assumes "accepts it" and "env_ok env" and "fiu_ready (py_lib s)" and "c_name name" and "\<not> is_pat name" and "int_range n"
    and "a \<noteq> 0" and "b \<noteq> a" and "py_own s a = 0" and "\<forall>k. fi_table s k \<noteq> Some a"
    and "c_name g" and "get_func_addr (e_plat env) g = 0"
  shows "\<exists>s1 s2 s3. py_enable it env name (P_int n) a (P_int f) s = Some (Returned Py_none, s1)
      \<and> py_fail it env name s1 = Some (Returned (Py_long n), s2)
      \<and> py_disable it env name s2 = Some (Returned Py_none, s3) \<and> \<not> alive s3 a \<and> py_failinfo it s3 = None"
    and "\<exists>s1 s2 s3. py_enable it env name (P_int n) a (P_int f) s = Some (Returned Py_none, s1)
      \<and> py_enable_stack_by_name it env name (P_str g) (P_int n) b (P_int f) (P_int (-1)) s1 = Some (Runtime_error (-1), s2)
      \<and> points (py_lib s2) name \<noteq> None \<and> \<not> alive s2 a
      \<and> py_fail it env name s2 = Some (Returned (Py_long n), s3) \<and> py_failinfo it s3 = None"
proof -
  obtain l where l: "py_enable it env name (P_int n) a (P_int f) s = Some (Returned Py_none, s\<lparr>py_lib := l, fi_table := (fi_table s)(name \<mapsto> a)\<rparr>)"
    "fiu_ready l" "points l = (points (py_lib s))(name \<mapsto> new_pf name n a (word_of_int f) PF_ALWAYS M_unset)"
    using py_enable_run [OF assms(1-4,6)] by blast
  define s1 where "s1 = s\<lparr>py_lib := l, fi_table := (fi_table s)(name \<mapsto> a)\<rparr>"
  have pt: "points (py_lib s1) name = Some (new_pf name n a (word_of_int f) PF_ALWAYS M_unset)" and r1: "fiu_ready (py_lib s1)"
    using l(2,3) by (simp_all add: s1_def)
  have dead: "\<not> alive (s1\<lparr>py_lib := x, fi_table := (fi_table s)(name := None)\<rparr>) a" for x
    using assms(9,10) by (auto simp: alive_def ran_def s1_def split: if_splits)
  note info = accepted(3) [OF assms(1,4)]
  obtain l2 where l2: "py_fail it env name s1 = Some (Returned (Py_long n), s1\<lparr>py_lib := l2\<rparr>)" "fiu_ready l2" "last_failinfo l2 = a"
    "dom (points l2) = dom (points (py_lib s1))"
    using py_fail_run [OF assms(1,2) r1 assms(4,5) pt] by blast
  have "points (py_lib (s1\<lparr>py_lib := l2\<rparr>)) name \<noteq> None" "fiu_ready (py_lib (s1\<lparr>py_lib := l2\<rparr>))" using l2(2,4) pt by auto
  from py_disable_run [OF assms(1,2) this(2) assms(4) this(1)] obtain l3 where
    l3: "py_disable it env name (s1\<lparr>py_lib := l2\<rparr>) = Some (Returned Py_none, s1\<lparr>py_lib := l3, fi_table := (fi_table s)(name := None)\<rparr>)"
    "fiu_ready l3" "last_failinfo l3 = a" using l2(3) by (auto simp: s1_def)
  have "py_failinfo it (s1\<lparr>py_lib := l3, fi_table := (fi_table s)(name := None)\<rparr>) = None"
    using py_failinfo_run [OF _ info _ assms(7), of "s1\<lparr>py_lib := l3, fi_table := (fi_table s)(name := None)\<rparr>"] l3(2,3) dead by simp
  then show "\<exists>s1 s2 s3. py_enable it env name (P_int n) a (P_int f) s = Some (Returned Py_none, s1)
      \<and> py_fail it env name s1 = Some (Returned (Py_long n), s2)
      \<and> py_disable it env name s2 = Some (Returned Py_none, s3) \<and> \<not> alive s3 a \<and> py_failinfo it s3 = None"
    using l(1) l2(1) l3(1) dead unfolding s1_def [symmetric] by blast
  have "int_range (- 1)" by (simp add: int_range_def)
  note stack = accepted(6) [OF assms(1,4,6,11) this, of b f]
  define w where "w = backtrace_works (e_plat env) (e_self_stack_by_name env) (bt_works l)"
  have w: "fiu_enable_stack_by_name env name n b (word_of_int f) g (- 1) l = Some (-1, l\<lparr>bt_works := w\<rparr>)"
    using assms(12) by (simp add: fiu_enable_stack_by_name_def Let_def w_def)
  define s2 where "s2 = s1\<lparr>py_lib := l\<lparr>bt_works := w\<rparr>, fi_table := (fi_table s)(name := None)\<rparr>"
  have e: "py_enable_stack_by_name it env name (P_str g) (P_int n) b (P_int f) (P_int (-1)) s1 = Some (Runtime_error (-1), s2)"
    using stack w assms(1)
    by (simp add: py_enable_stack_by_name_def ll_enable_stack_by_name_def ll_return_def new_long_def keep_object_def forget_object_def
        accepts_def s1_def s2_def Let_def)
  have pt2: "points (py_lib s2) name = Some (new_pf name n a (word_of_int f) PF_ALWAYS M_unset)" "fiu_ready (py_lib s2)"
    using l(2,3) by (simp_all add: s2_def ready_update)
  from py_fail_run [OF assms(1,2) pt2(2) assms(4,5) pt2(1)] obtain l4 where
    l4: "py_fail it env name s2 = Some (Returned (Py_long n), s2\<lparr>py_lib := l4\<rparr>)" "fiu_ready l4" "last_failinfo l4 = a" by blast
  have "\<not> alive (s2\<lparr>py_lib := l4\<rparr>) a" using assms(9,10) by (auto simp: alive_def ran_def s1_def s2_def split: if_splits)
  then have "py_failinfo it (s2\<lparr>py_lib := l4\<rparr>) = None"
    using py_failinfo_run [OF _ info _ assms(7), of "s2\<lparr>py_lib := l4\<rparr>"] l4(2,3) by simp
  then show "\<exists>s1 s2 s3. py_enable it env name (P_int n) a (P_int f) s = Some (Returned Py_none, s1)
      \<and> py_enable_stack_by_name it env name (P_str g) (P_int n) b (P_int f) (P_int (-1)) s1 = Some (Runtime_error (-1), s2)
      \<and> points (py_lib s2) name \<noteq> None \<and> \<not> alive s2 a
      \<and> py_fail it env name s2 = Some (Returned (Py_long n), s3) \<and> py_failinfo it s3 = None"
    using l(1) e pt2(1) l4(1) dead unfolding s1_def [symmetric] by (metis option.distinct(1) s2_def)
qed

text \<open>Property C39: \<open>failinfo\<close> of fiu.py can still return a dangling pointer. Take an object that only the table holds, enabled as the
  info of a name. First, if the point of failure fails and is then disabled, the library still remembers the object as that of the last
  failure, but nothing holds it any more: \<open>failinfo\<close> has no defined result. Second, if enabling the name again raises
  (by stack, with a function that cannot be found), the table has forgotten the object while the point of failure stays enabled and
  refers to it: the next failure is reported, and \<open>failinfo\<close> has no defined result again.\<close>

theorem python_stale_failinfo:
  assumes "accepts it" and "env_ok env" and "fiu_ready (py_lib s)" and "c_name name" and "\<not> is_pat name" and "int_range n"
    and "a \<noteq> 0" and "b \<noteq> a" and "py_own s a = 0" and "\<forall>k. fi_table s k \<noteq> Some a"
    and "c_name g" and "get_func_addr (e_plat env) g = 0"
  shows "\<exists>s1. py_enable it env name (P_int n) a (P_int f) s = Some (Returned Py_none, s1)
    \<and> (\<exists>s2 s3. py_fail it env name s1 = Some (Returned (Py_long n), s2)
      \<and> py_disable it env name s2 = Some (Returned Py_none, s3) \<and> \<not> alive s3 a \<and> py_failinfo it s3 = None)
    \<and> (\<exists>s2 s3. py_enable_stack_by_name it env name (P_str g) (P_int n) b (P_int f) (P_int (-1)) s1 = Some (Runtime_error (-1), s2)
      \<and> points (py_lib s2) name \<noteq> None \<and> \<not> alive s2 a
      \<and> py_fail it env name s2 = Some (Returned (Py_long n), s3) \<and> py_failinfo it s3 = None)"
proof -
  from stale_runs(1) [OF assms, of f] obtain s1 s2 s3 where
    a: "py_enable it env name (P_int n) a (P_int f) s = Some (Returned Py_none, s1)"
    "py_fail it env name s1 = Some (Returned (Py_long n), s2)"
    "py_disable it env name s2 = Some (Returned Py_none, s3)" "\<not> alive s3 a" "py_failinfo it s3 = None" by blast
  from stale_runs(2) [OF assms, of f] obtain s2' s3' where
    "py_enable_stack_by_name it env name (P_str g) (P_int n) b (P_int f) (P_int (-1)) s1 = Some (Runtime_error (-1), s2')"
    "points (py_lib s2') name \<noteq> None" "\<not> alive s2' a"
    "py_fail it env name s2' = Some (Returned (Py_long n), s3')" "py_failinfo it s3' = None"
    unfolding a(1) option.inject prod.inject by blast
  with a show ?thesis by blast
qed

theorem python_stale_failinfo_witness:
  "\<exists>s. PyInit_fiu_ll quiet_env 2 py_start = Some (2, s) \<and>
     (\<exists>s1 s2 s3. py_enable plain_interp quiet_env ''a'' (P_int 5) 4 (P_int 0) s = Some (Returned Py_none, s1)
       \<and> py_enable_stack_by_name plain_interp quiet_env ''a'' (P_str ''f'') (P_int 5) 8 (P_int 0) (P_int (-1)) s1 = Some (Runtime_error (-1), s2)
       \<and> py_fail plain_interp quiet_env ''a'' s2 = Some (Returned (Py_long 5), s3) \<and> py_failinfo plain_interp s3 = None)"
proof -
  obtain s where s: "PyInit_fiu_ll quiet_env 2 py_start = Some (2, s)" "fiu_ready (py_lib s)" "fi_table s = Map.empty" "py_own s = (\<lambda>_. 0)"
    using init_start [OF quiet_env_ok(2), of 2] by blast
  have n: "c_name ''a''" "\<not> is_pat ''a''" "int_range 5" "c_name ''f''" "get_func_addr (e_plat quiet_env) ''f'' = 0"
    by (simp_all add: c_name_def is_pat_def int_range_def get_func_addr_def quiet_env_def dummy_platform_def)
  have "(4 :: addr) \<noteq> 0" "(8 :: addr) \<noteq> 4" "py_own s 4 = 0" "\<forall>k. fi_table s k \<noteq> Some 4" by (simp_all add: s(3,4))
  from python_stale_failinfo [OF plain_accepts quiet_env_ok(1) s(2) n(1-3) this n(4,5), of 0] s(1) show ?thesis by blast
qed

lemma py_enable_external_run:
  assumes "accepts it" and "i_callable it cb" and "env_ok env" and "fiu_ready (py_lib s)" and "c_name name" and "int_range n"
  shows "\<exists>l. py_enable_external it env name cb (P_int n) (P_int f) s
      = Some (Returned Py_none, s\<lparr>py_lib := l, fi_table := (fi_table s)(name \<mapsto> cb)\<rparr>)
    \<and> fiu_ready l \<and> points l name = Some (new_pf name n cb (word_of_int f) PF_EXTERNAL (M_external_cb 1))
    \<and> last_failinfo l = last_failinfo (py_lib s)"
proof -
  have "fiu_inv (py_lib s)" "enabled_fails (py_lib s) \<noteq> NULL" "initialized (py_lib s)" "name \<noteq> []" "e_mem env = mem_ok"
    using assms(3-5) by (simp_all add: fiu_ready_at_def c_name_def env_ok_def)
  with create_and_insert_ok [of 0 "py_lib s" name env n cb "word_of_int f" PF_EXTERNAL "M_external_cb 1"] obtain l where
    l: "fiu_enable_external env name n cb (word_of_int f) 1 (py_lib s) = Some (0, l)" "fiu_ready l"
    "points l name = Some (new_pf name n cb (word_of_int f) PF_EXTERNAL (M_external_cb 1))" "last_failinfo l = last_failinfo (py_lib s)"
    by (auto simp: fiu_enable_external_def fiu_ready_at_def)
  with accepted(5) [OF assms(1,5,6), of f cb] assms(1,2) show ?thesis
    by (intro exI [of _ l])
      (simp add: py_enable_external_def ll_enable_external_def ll_return_def new_long_def keep_object_def accepts_def)
qed

text \<open>A point of failure that was enabled with a Python function is decided by it: \<open>fail\<close> calls the function with the name, the number
  and the flags. If it raises (or its arguments cannot be built), \<open>fail\<close> raises and nothing failed, so \<open>failinfo\<close> keeps its value; if it returns something that is not
  a number, \<open>fail\<close> raises too, but the point of failure counts as failed; and if it returns a number, \<open>fail\<close> returns the number of the
  point of failure if the value is not 0 as a C int, and 0 otherwise (so that 4294967296 does not fail).\<close>

theorem python_callback_decides:
  assumes "accepts it" and "i_build it" and "i_callable it cb" and "env_ok env" and "env_ok env'" and "fiu_ready (py_lib s)"
    and "c_name name" and "\<not> is_pat name" and "int_range n"
  shows "\<exists>s1 o1 s2. py_enable_external it env name cb (P_int n) (P_int f) s = Some (Returned Py_none, s1)
    \<and> py_fail it env' name s1 = Some (o1, s2)
    \<and> (case i_call it cb name n (word_of_int f) of
         Raises \<Rightarrow> o1 = Raised \<and> last_failinfo (py_lib s2) = last_failinfo (py_lib s)
       | Gives None \<Rightarrow> o1 = Raised \<and> last_failinfo (py_lib s2) = cb
       | Gives (Some v) \<Rightarrow> o1 = Returned (Py_long (if c_int v = 0 then 0 else n))
           \<and> last_failinfo (py_lib s2) = (if c_int v = 0 then last_failinfo (py_lib s) else cb))"
proof -
  let ?pf = "new_pf name n cb (word_of_int f) PF_EXTERNAL (M_external_cb 1)" and ?e = "ll_env it env'"
  have e: "callbacks_keep_onetime ?e" "e_mem ?e = mem_ok" using ll_env_ok [OF assms(5), of it] by (simp_all add: env_ok_def)
  obtain l where l: "py_enable_external it env name cb (P_int n) (P_int f) s
      = Some (Returned Py_none, s\<lparr>py_lib := l, fi_table := (fi_table s)(name \<mapsto> cb)\<rparr>)"
    "fiu_ready l" "points l name = Some ?pf" "last_failinfo l = last_failinfo (py_lib s)"
    using py_enable_external_run [OF assms(1,3,4,6,7,9)] by blast
  define s1 where "s1 = s\<lparr>py_lib := l, fi_table := (fi_table s)(name \<mapsto> cb)\<rparr>"
  note en = l(1) [folded s1_def]
  have inv: "fiu_inv l" using l(2) by (simp add: fiu_ready_at_def)
  have ans: "answer_pf l name = Some ?pf"
    using answer_pf_answers [OF inv, of name] l(3) assms(8) by (simp add: answers_def)
  define rv where "rv = fst (external_callback it name n cb (word_of_int f))"
  obtain pf' where st: "pf_step ?e ?pf (gen l) = (rv \<noteq> 0, pf', gen l)"
    by (cases "rv = 0") (auto simp: pf_step_def pf_decision_def ll_env_def external_callback_def rv_def onetime_def Let_def)
  note ids = ll_env_step [OF st]
  obtain l2 where l2: "fiu_fail ?e name l = Some (if rv \<noteq> 0 then n else 0, l2)"
    "last_failinfo l2 = (if rv \<noteq> 0 then cb else last_failinfo (py_lib s))"
    using fiu_fail_ok [OF inv e, of name] l(4) ids unfolding ans option.case st prod.case args_pf_fields by auto
  have err: "err_occurred it env' name l \<longleftrightarrow> callback_error it name n cb (word_of_int f)"
    using l(2) by (simp add: err_occurred_def asked_pf_answer [OF l(2) assms(5)] ans onetime_def fiu_ready_at_def fiu_at_def)
  define o1 where "o1 = (if callback_error it name n cb (word_of_int f) then Raised else Returned (Py_long (if rv \<noteq> 0 then n else 0)))"
  define s2 where "s2 = s1\<lparr>py_lib := l2\<rparr>"
  have fail: "py_fail it env' name s1 = Some (o1, s2)"
    using accepted(1) [OF assms(1,7)] l2(1) assms(1) err unfolding o1_def s2_def
    by (cases "callback_error it name n cb (word_of_int f)") (simp_all add: py_fail_def ll_fail_def s1_def new_long_def accepts_def)
  have last: "last_failinfo (py_lib s2) = (if rv \<noteq> 0 then cb else last_failinfo (py_lib s))" by (simp add: s2_def l2(2))
  have "case i_call it cb name n (word_of_int f) of
         Raises \<Rightarrow> o1 = Raised \<and> last_failinfo (py_lib s2) = last_failinfo (py_lib s)
       | Gives None \<Rightarrow> o1 = Raised \<and> last_failinfo (py_lib s2) = cb
       | Gives (Some v) \<Rightarrow> o1 = Returned (Py_long (if c_int v = 0 then 0 else n))
           \<and> last_failinfo (py_lib s2) = (if c_int v = 0 then last_failinfo (py_lib s) else cb)"
    using assms(2)
    by (simp add: last o1_def rv_def callback_error_def external_callback_def split: call_result.split option.split)
  with en fail show ?thesis by blast
qed

theorem python_callback_decides_witness:
  "\<exists>s s1 s2 s3. PyInit_fiu_ll quiet_env 2 py_start = Some (2, s)
     \<and> py_enable_external plain_interp quiet_env ''a'' 8 (P_int 5) (P_int 0) s = Some (Returned Py_none, s1)
     \<and> py_fail plain_interp quiet_env ''a'' s1 = Some (Raised, s2) \<and> last_failinfo (py_lib s2) = 8
     \<and> (\<exists>s1. py_enable_external plain_interp quiet_env ''a'' 12 (P_int 5) (P_int 0) s = Some (Returned Py_none, s1)
        \<and> py_fail plain_interp quiet_env ''a'' s1 = Some (Returned (Py_long 5), s3))"
proof -
  obtain s where s: "PyInit_fiu_ll quiet_env 2 py_start = Some (2, s)" "fiu_ready (py_lib s)"
    using init_start [OF quiet_env_ok(2), of 2] by blast
  have n: "i_build plain_interp" "i_callable plain_interp 8" "i_callable plain_interp 12" "c_name ''a''" "\<not> is_pat ''a''" "int_range 5"
    by (simp_all add: c_name_def is_pat_def int_range_def plain_interp_def)
  have c: "i_call plain_interp 8 nm k f = Gives None" "i_call plain_interp 12 nm k f = Gives (Some 12)" for nm k f
    by (simp_all add: plain_interp_def)
  note d = python_callback_decides [OF plain_accepts n(1) _ quiet_env_ok(1,1) s(2) n(4-6), of _ 0]
  from d [OF n(2)] d [OF n(3)] s(1) show ?thesis unfolding c call_result.case option.case by (simp add: c_int_def) blast
qed

end
