(* ===== verification/Instrument.thy ===== *)
theory Instrument
  imports Fiu_API
begin

text \<open>
  The macros of libfiu/fiu.h, with which a program puts points of failure into its own functions, and the stubs that replace
  them when the program is built without \<open>FIU_ENABLE\<close>. The body of a function is a list of statements: the program's own,
  which are functions on its state, and uses of the macros.
\<close>

subsection \<open>Statements\<close>

text \<open>How a statement ends: control goes on behind it, or leaves the loop or its round, the function, or the program.\<close>

datatype 'r flow = Go | Broke | Continued | Ret 'r | Exited int

type_synonym ('p, 'r) code = "'p \<times> fiu \<Rightarrow> ('r flow \<times> 'p \<times> fiu) option"

definition EXIT_FAILURE :: int where
  "EXIT_FAILURE = 1"

text \<open>\<open>do { ... } while (0)\<close> is a loop: a \<open>break\<close> or \<open>continue\<close> in it goes to its own end.\<close>

fun do_while_0 :: "'r flow \<Rightarrow> 'r flow" where
  "do_while_0 Broke = Go"
| "do_while_0 Continued = Go"
| "do_while_0 f = f"

subsection \<open>With the library\<close>

text \<open>What the library finds outside of itself depends on the moment, so on the state of the program.\<close>

definition fiu_do_on :: "('p \<Rightarrow> env) \<Rightarrow> string \<Rightarrow> ('p \<Rightarrow> 'r flow \<times> 'p) \<Rightarrow> ('p, 'r) code" where
  "fiu_do_on env name action = (\<lambda>(p, s). do {
     (failed, s1) \<leftarrow> fiu_fail (env p) name s;
     (case if failed \<noteq> 0 then action p else (Go, p) of (f, p1) \<Rightarrow> Some (do_while_0 f, p1, s1)) })"

definition fiu_exit_on :: "('p \<Rightarrow> env) \<Rightarrow> string \<Rightarrow> ('p, 'r) code" where
  "fiu_exit_on env name = fiu_do_on env name (\<lambda>p. (Exited EXIT_FAILURE, p))"

definition fiu_return_on :: "('p \<Rightarrow> env) \<Rightarrow> string \<Rightarrow> ('p \<Rightarrow> 'r) \<Rightarrow> ('p, 'r) code" where
  "fiu_return_on env name retval = fiu_do_on env name (\<lambda>p. (Ret (retval p), p))"

subsection \<open>Without the library\<close>

definition fiu_init_stub :: int where
  "fiu_init_stub = 0"

definition fiu_fail_stub :: "string \<Rightarrow> int" where
  "fiu_fail_stub name = 0"

definition fiu_failinfo_stub :: addr where
  "fiu_failinfo_stub = 0"

text \<open>The three macros expand to nothing.\<close>

definition fiu_do_on_stub :: "string \<Rightarrow> ('p \<Rightarrow> 'r flow \<times> 'p) \<Rightarrow> ('p, 'r) code" where
  "fiu_do_on_stub name action = (\<lambda>(p, s). Some (Go, p, s))"

definition fiu_exit_on_stub :: "string \<Rightarrow> ('p, 'r) code" where
  "fiu_exit_on_stub name = (\<lambda>(p, s). Some (Go, p, s))"

definition fiu_return_on_stub :: "string \<Rightarrow> ('p \<Rightarrow> 'r) \<Rightarrow> ('p, 'r) code" where
  "fiu_return_on_stub name retval = (\<lambda>(p, s). Some (Go, p, s))"

subsection \<open>Function bodies\<close>

text \<open>\<open>Ask\<close> is \<open>if (fiu_fail (name)) ... else ...\<close> written without a macro.\<close>

datatype ('p, 'r) stm =
    Own "'p \<Rightarrow> 'r flow \<times> 'p"
  | Ask string "'p \<Rightarrow> 'r flow \<times> 'p" "'p \<Rightarrow> 'r flow \<times> 'p"
  | Do_on string "'p \<Rightarrow> 'r flow \<times> 'p"
  | Exit_on string
  | Return_on string "'p \<Rightarrow> 'r"

definition own :: "('p \<Rightarrow> 'r flow \<times> 'p) \<Rightarrow> ('p, 'r) code" where
  "own f = (\<lambda>(p, s). case f p of (fl, p1) \<Rightarrow> Some (fl, p1, s))"

text \<open>A statement as the two builds compile it.\<close>

fun with_fiu :: "('p \<Rightarrow> env) \<Rightarrow> ('p, 'r) stm \<Rightarrow> ('p, 'r) code" where
  "with_fiu env (Own f) = own f"
| "with_fiu env (Ask name f g) = (\<lambda>(p, s). do { (failed, s1) \<leftarrow> fiu_fail (env p) name s; own (if failed \<noteq> 0 then f else g) (p, s1) })"
| "with_fiu env (Do_on name action) = fiu_do_on env name action"
| "with_fiu env (Exit_on name) = fiu_exit_on env name"
| "with_fiu env (Return_on name retval) = fiu_return_on env name retval"

fun without_fiu :: "('p, 'r) stm \<Rightarrow> ('p, 'r) code" where
  "without_fiu (Own f) = own f"
| "without_fiu (Ask name f g) = own (if fiu_fail_stub name \<noteq> 0 then f else g)"
| "without_fiu (Do_on name action) = fiu_do_on_stub name action"
| "without_fiu (Exit_on name) = fiu_exit_on_stub name"
| "without_fiu (Return_on name retval) = fiu_return_on_stub name retval"

fun run_stms :: "(('p, 'r) stm \<Rightarrow> ('p, 'r) code) \<Rightarrow> ('p, 'r) stm list \<Rightarrow> ('p, 'r) code" where
  "run_stms build [] x = Some (Go, x)"
| "run_stms build (c # cs) x = do { (f, x1) \<leftarrow> build c x; if f = Go then run_stms build cs x1 else Some (f, x1) }"

fun stm_name :: "('p, 'r) stm \<Rightarrow> string option" where
  "stm_name (Own f) = None"
| "stm_name (Ask name f g) = Some name"
| "stm_name (Do_on name action) = Some name"
| "stm_name (Exit_on name) = Some name"
| "stm_name (Return_on name retval) = Some name"

text \<open>No point of failure answers for a name of the body.\<close>

definition unanswered :: "(string \<rightharpoonup> pf_info) \<Rightarrow> ('p, 'r) stm \<Rightarrow> bool" where
  "unanswered pts c \<longleftrightarrow> (\<forall>name. stm_name c = Some name \<longrightarrow> (\<forall>q \<in> dom pts. q \<noteq> name \<and> \<not> pat_matches q name))"

subsection \<open>The two builds\<close>

lemma without_fiu_lib: "\<exists>f p1. without_fiu c (p, s) = Some (f, p1, s) \<and> (\<forall>t. without_fiu c (p, t) = Some (f, p1, t))"
proof (cases c)
  case (Own f)
  then show ?thesis by (cases "f p") (simp add: own_def)
next
  case (Ask name f g)
  then show ?thesis by (cases "g p") (simp add: own_def fiu_fail_stub_def)
qed (simp_all add: fiu_do_on_stub_def fiu_exit_on_stub_def fiu_return_on_stub_def)

lemma unanswered_ask:
  assumes "fiu_ready s" and "env_ok env" and "unanswered (points s) c" and "stm_name c = Some name"
  shows "\<exists>s'. fiu_fail env name s = Some (0, s') \<and> fiu_ready s' \<and> points s' = points s \<and> last_failinfo s' = last_failinfo s"
proof -
  have "points s name = None" "\<forall>q \<in> dom (points s). \<not> pat_matches q name"
    using assms(3,4) by (auto simp: unanswered_def)
  with assms(1,2) show ?thesis by (rule nothing_answers)
qed

lemma stm_same:
  assumes "fiu_ready s" and "\<forall>p. env_ok (env p)" and "unanswered (points s) c"
  shows "\<exists>f p1 s1. with_fiu env c (p, s) = Some (f, p1, s1) \<and> without_fiu c (p, t) = Some (f, p1, t)
    \<and> fiu_ready s1 \<and> points s1 = points s \<and> last_failinfo s1 = last_failinfo s"
proof (cases "stm_name c")
  case None
  then obtain f where c: "c = Own f" by (cases c) auto
  with assms(1) show ?thesis by (cases "f p") (simp add: own_def)
next
  case (Some name)
  from unanswered_ask [OF assms(1) assms(2) [rule_format] assms(3) Some, of p] obtain s1 where
    s1: "fiu_fail (env p) name s = Some (0, s1)" "fiu_ready s1" "points s1 = points s" "last_failinfo s1 = last_failinfo s" by blast
  show ?thesis
  proof (cases c)
    case (Ask nm f g)
    with Some s1 show ?thesis by (cases "g p") (simp add: own_def fiu_fail_stub_def)
  qed (use Some s1 in \<open>simp_all add: fiu_do_on_def fiu_exit_on_def fiu_return_on_def fiu_do_on_stub_def fiu_exit_on_stub_def fiu_return_on_stub_def\<close>)
qed

lemma stms_same:
  assumes "fiu_ready s" and "\<forall>p. env_ok (env p)" and "\<forall>c\<in>set cs. unanswered (points s) c"
  shows "\<exists>f p1 s1. run_stms (with_fiu env) cs (p, s) = Some (f, p1, s1) \<and> run_stms without_fiu cs (p, t) = Some (f, p1, t)
    \<and> fiu_ready s1 \<and> points s1 = points s \<and> last_failinfo s1 = last_failinfo s"
  using assms(1,3)
proof (induction cs arbitrary: p s)
  case (Cons c cs)
  then have "unanswered (points s) c" by simp
  from stm_same [OF Cons.prems(1) assms(2) this, of p t] obtain f p1 s1 where
    c: "with_fiu env c (p, s) = Some (f, p1, s1)" "without_fiu c (p, t) = Some (f, p1, t)" "fiu_ready s1"
      "points s1 = points s" "last_failinfo s1 = last_failinfo s" by blast
  show ?case
  proof (cases "f = Go")
    case True
    from Cons.IH [OF c(3), of p1] Cons.prems(2) c True show ?thesis by simp
  qed (use c in simp)
qed simp

lemma run_stms_append:
  "run_stms build (cs @ ds) x = do { (f, x1) \<leftarrow> run_stms build cs x; if f = Go then run_stms build ds x1 else Some (f, x1) }"
proof (induction cs arbitrary: x)
  case (Cons c cs)
  show ?case
  proof (cases "build c x")
    case (Some y)
    then show ?thesis using Cons.IH by (cases y) simp
  qed simp
qed simp

text \<open>Property C22: A program with points of failure in its functions is the program without them as long as nothing is enabled
  for their names: a function body that uses \<open>fiu_fail\<close> and the macros \<open>fiu_do_on\<close>, \<open>fiu_exit_on\<close> and \<open>fiu_return_on\<close> of fiu.h, compiled with
  \<open>FIU_ENABLE\<close>, ends in the same way and in the same state of the program as compiled with the stubs, and leaves the library's points of
  failure and the information of the last failure as they were.\<close>

theorem instrumented_as_plain:
  assumes "fiu_ready s" and "\<forall>p. env_ok (env p)" and "\<forall>c\<in>set cs. unanswered (points s) c"
  shows "\<exists>f p1 s1. run_stms (with_fiu env) cs (p, s) = Some (f, p1, s1) \<and> run_stms without_fiu cs (p, t) = Some (f, p1, t)
    \<and> fiu_ready s1 \<and> points s1 = points s \<and> last_failinfo s1 = last_failinfo s"
  by (rule stms_same [OF assms])

theorem instrumented_as_plain_witness:
  "\<exists>s p1 s1. fiu_init quiet_env fiu_start = Some (0, s)
     \<and> run_stms (with_fiu (\<lambda>_. quiet_env)) [Return_on ''a'' (\<lambda>p. 1), Own (\<lambda>p. (Ret p, p + 1))] (7 :: int, s) = Some (Ret 7, p1, s1)
     \<and> points s1 = Map.empty"
proof -
  obtain s where s: "fiu_init quiet_env fiu_start = Some (0, s)" "fiu_ready s" "points s = Map.empty" by (rule quiet_start)
  let ?b = "[Return_on ''a'' (\<lambda>p. 1), Own (\<lambda>p. (Ret p, p + 1))] :: (int, int) stm list"
  have "\<forall>c\<in>set ?b. unanswered (points s) c" by (simp add: unanswered_def s(3))
  from instrumented_as_plain [OF s(2) _ this, of "\<lambda>_. quiet_env" 7 s] quiet_env_ok(1) s(1,3) show ?thesis
    by (auto simp: fiu_return_on_stub_def own_def)
qed

text \<open>What an enabled point of failure does to such a function: the statements before the macro run as in the plain program;
  if they fall through, then \<open>fiu_return_on\<close> for an enabled name (with a number other than 0) makes the function return the given
  value, computed in the state they left, \<open>fiu_exit_on\<close> ends the program with \<open>EXIT_FAILURE\<close>, and \<open>fiu_do_on\<close> runs the action in that state, where a
  \<open>break\<close> or \<open>continue\<close> as the action leaves only the macro itself; the information is that of the point of failure.\<close>

theorem instrumented_fails:
  assumes "fiu_ready s" and "\<forall>p. env_ok (env p)" and "\<forall>c\<in>set cs. unanswered (points s) c"
    and "run_stms without_fiu cs (p, s) = Some (Go, p1, s)"
    and "points s name = Some (new_pf name n i flags PF_ALWAYS M_unset)" and "\<not> is_pat name" and "n \<noteq> 0"
  shows "\<exists>s1. last_failinfo s1 = i
    \<and> run_stms (with_fiu env) (cs @ Return_on name retval # ds) (p, s) = Some (Ret (retval p1), p1, s1)
    \<and> run_stms (with_fiu env) (cs @ Exit_on name # ds) (p, s) = Some (Exited EXIT_FAILURE, p1, s1)
    \<and> run_stms (with_fiu env) (cs @ [Do_on name (\<lambda>q. (f, act q))]) (p, s) = Some (do_while_0 f, act p1, s1)"
proof -
  from stms_same [OF assms(1-3), of p s] assms(4) obtain s1 where
    s1: "run_stms (with_fiu env) cs (p, s) = Some (Go, p1, s1)" "fiu_ready s1" "points s1 = points s" by auto
  have "points s1 name = Some (new_pf name n i flags PF_ALWAYS M_unset)" using assms(5) s1(3) by simp
  from enabled_always_fails [OF s1(2) assms(2) [rule_format] assms(6) this, of p1] obtain s2 where
    s2: "fiu_fail (env p1) name s1 = Some (n, s2)" "last_failinfo s2 = i" by blast
  show ?thesis
    using s1(1) s2 assms(7)
    by (intro exI [of _ s2]) (simp add: run_stms_append fiu_return_on_def fiu_exit_on_def fiu_do_on_def)
qed

theorem instrumented_fails_witness:
  "\<exists>s s1 s2. fiu_init quiet_env fiu_start = Some (0, s) \<and> fiu_enable quiet_env ''b'' 1 5 0 s = Some (0, s1)
     \<and> run_stms (with_fiu (\<lambda>_. quiet_env)) [Return_on ''a'' (\<lambda>p. 1), Own (\<lambda>p. (Go, p + 1)), Return_on ''b'' (\<lambda>p. - p), Own (\<lambda>p. (Ret p, p))] (7 :: int, s1)
        = Some (Ret (- 8), 8, s2) \<and> last_failinfo s2 = 5"
proof -
  obtain s where s: "fiu_init quiet_env fiu_start = Some (0, s)" "fiu_ready s" "points s = Map.empty" by (rule quiet_start)
  have typed: "args_typed (1, 5, 0, PF_ALWAYS, M_unset)" "''b'' \<noteq> []" by simp_all
  obtain s1 where s1: "fiu_enable quiet_env ''b'' 1 5 0 s = Some (0, s1)" "fiu_ready s1"
    "points s1 = [''b'' \<mapsto> new_pf ''b'' 1 5 0 PF_ALWAYS M_unset]"
    using fiu_control.add_law [OF quiet_env_ok(1) s(2) typed(2,1)] s(3) by (auto simp: fiu_enable_def)
  let ?a = "[Return_on ''a'' (\<lambda>p. 1), Own (\<lambda>p. (Go, p + 1))] :: (int, int) stm list"
  have a: "\<forall>c\<in>set ?a. unanswered (points s1) c" by (simp add: unanswered_def s1(3) pat_matches_def is_pat_def)
  have b: "run_stms without_fiu ?a (7, s1) = Some (Go, 8, s1)" by (simp add: fiu_return_on_stub_def own_def)
  have e: "\<forall>p :: int. env_ok ((\<lambda>_. quiet_env) p)" using quiet_env_ok(1) by simp
  have p: "points s1 ''b'' = Some (new_pf ''b'' 1 5 0 PF_ALWAYS M_unset)" "\<not> is_pat ''b''" "(1 :: int) \<noteq> 0"
    by (simp_all add: s1(3) is_pat_def)
  from instrumented_fails [OF s1(2) e a b p, of "\<lambda>p. - p" "[Own (\<lambda>p. (Ret p, p))]" Go id] s(1) s1(1) show ?thesis by auto
qed

end
