(* ===== verification/Fiu_Run.thy ===== *)
theory Fiu_Run
  imports Run_Preload
begin

text \<open>
  The script fiu-run (preload/run/fiu-run.in): its options become the variables of the environment that the run preloader reads.
  The parsing of the command line by \<open>getopts\<close> is left to the shell; the model starts from its result, the list of options.
\<close>

subsection \<open>Options\<close>

datatype run_opt = O_c string | O_f string | O_l string | O_x | O_n
  | O_e string | O_p string | O_u string | O_i string | O_other

record runner =
  r_enable :: string
  r_fifo :: string
  r_plib :: string
  r_posix :: bool
  r_dry :: bool
  dep_name :: string
  dep_prob :: string
  dep_failnum :: string
  dep_failinfo :: string

definition opts_reset :: "runner \<Rightarrow> runner" where
  "opts_reset r = r\<lparr>dep_name := [], dep_prob := ''-1'', dep_failnum := ''1'', dep_failinfo := ''0''\<rparr>"

text \<open>The variables before the loop over the options; \<open>tmpdir\<close> is \<open>TMPDIR\<close> if it is set.\<close>

definition runner_start :: "string option \<Rightarrow> string \<Rightarrow> runner" where
  "runner_start tmpdir plib = opts_reset
     \<lparr>r_enable = [], r_fifo = (case tmpdir of None \<Rightarrow> ''/tmp'' | Some d \<Rightarrow> if d = [] then ''/tmp'' else d) @ ''/fiu-ctrl'',
      r_plib = plib, r_posix = False, r_dry = False, dep_name = [], dep_prob = [], dep_failnum = [], dep_failinfo = []\<rparr>"

text \<open>An argument of \<open>-ge\<close>: a decimal number of 64 bits, with white space around it.\<close>

definition bash_int :: "string \<Rightarrow> int option" where
  "bash_int s =
     (let (neg, t) = sign_part s; (n, rest) = digits 0 t; v = (if neg then - int n else int n)
      in if (case t of [] \<Rightarrow> False | c # _ \<Rightarrow> digit_val c \<noteq> None) \<and> dropWhile (\<lambda>c. c = CHR '' '' \<or> c = CHR 0x09) rest = []
           \<and> - (2 ^ 63) \<le> v \<and> v < 2 ^ 63 then Some v else None)"

text \<open>With something else, \<open>[\<close> fails, as if the comparison did not hold.\<close>

definition add_deprecated_enable :: "runner \<Rightarrow> runner" where
  "add_deprecated_enable r =
     (if dep_name r = [] then r
      else let params = ''name='' @ dep_name r @ '',failnum='' @ dep_failnum r @ '',failinfo='' @ dep_failinfo r;
               c = (if (case bash_int (dep_prob r) of None \<Rightarrow> False | Some p \<Rightarrow> 0 \<le> p)
                    then ''enable_random '' @ params @ '',probability='' @ dep_prob r
                    else ''enable '' @ params)
           in r\<lparr>r_enable := r_enable r @ [CHR 0x0A, CHR 0x09, CHR 0x09] @ c\<rparr>)"

fun run_option :: "run_opt \<Rightarrow> runner \<Rightarrow> runner option" where
  "run_option (O_c c) r = Some (r\<lparr>r_enable := r_enable r @ [CHR 0x0A, CHR 0x09, CHR 0x09, CHR 0x09] @ c\<rparr>)"
| "run_option (O_f f) r = Some (r\<lparr>r_fifo := f\<rparr>)"
| "run_option (O_l l) r = Some (r\<lparr>r_plib := l\<rparr>)"
| "run_option O_x r = Some (r\<lparr>r_posix := True\<rparr>)"
| "run_option O_n r = Some (r\<lparr>r_dry := True\<rparr>)"
| "run_option (O_e n) r = Some ((opts_reset (add_deprecated_enable r))\<lparr>dep_name := n\<rparr>)"
| "run_option (O_p p) r = Some (r\<lparr>dep_prob := p\<rparr>)"
| "run_option (O_u u) r = Some (r\<lparr>dep_failnum := u\<rparr>)"
| "run_option (O_i i) r = Some (r\<lparr>dep_failinfo := i\<rparr>)"
| "run_option O_other r = None"

fun run_options :: "run_opt list \<Rightarrow> runner \<Rightarrow> runner option" where
  "run_options [] r = Some r"
| "run_options (opt # opts) r = do { r1 \<leftarrow> run_option opt r; run_options opts r1 }"

record run_vars =
  v_enable :: string
  v_fifo :: string
  v_preload :: string

text \<open>The script prints its help and fails, or shows the command, or executes it.\<close>

datatype run_effect = Usage | Shows run_vars "string list" | Executes run_vars "string list"

definition run_end_vars :: "runner \<Rightarrow> run_vars" where
  "run_end_vars r = \<lparr>v_enable = r_enable r, v_fifo = r_fifo r,
     v_preload = r_plib r @ ''/fiu_run_preload.so '' @ (if r_posix r then '' '' @ r_plib r @ ''/fiu_posix_preload.so'' else [])\<rparr>"

definition fiu_run :: "string option \<Rightarrow> string \<Rightarrow> run_opt list \<Rightarrow> string list \<Rightarrow> run_effect" where
  "fiu_run tmpdir plib opts args =
     (if opts = [] \<and> args = [] then Usage
      else case run_options opts (runner_start tmpdir plib) of
          None \<Rightarrow> Usage
        | Some r \<Rightarrow> let v = run_end_vars (opts_reset (add_deprecated_enable r)) in if r_dry r then Shows v args else Executes v args)"

subsection \<open>The commands\<close>

text \<open>An option that is not deprecated, and executes the program.\<close>

fun current_opt :: "run_opt \<Rightarrow> bool" where
  "current_opt (O_c _) \<longleftrightarrow> True"
| "current_opt (O_f _) \<longleftrightarrow> True"
| "current_opt (O_l _) \<longleftrightarrow> True"
| "current_opt O_x \<longleftrightarrow> True"
| "current_opt _ \<longleftrightarrow> False"

fun opt_commands :: "run_opt list \<Rightarrow> string list" where
  "opt_commands [] = []"
| "opt_commands (O_c c # opts) = c # opt_commands opts"
| "opt_commands (_ # opts) = opt_commands opts"

text \<open>The last argument of \<open>-l\<close> and of \<open>-f\<close>.\<close>

fun opt_lib :: "run_opt list \<Rightarrow> string \<Rightarrow> string" where
  "opt_lib [] l = l"
| "opt_lib (opt # opts) l = opt_lib opts (case opt of O_l l' \<Rightarrow> l' | _ \<Rightarrow> l)"

fun opt_fifo :: "run_opt list \<Rightarrow> string \<Rightarrow> string" where
  "opt_fifo [] f = f"
| "opt_fifo (opt # opts) f = opt_fifo opts (case opt of O_f f' \<Rightarrow> f' | _ \<Rightarrow> f)"

definition indented :: "string \<Rightarrow> string" where
  "indented c = [CHR 0x0A, CHR 0x09, CHR 0x09, CHR 0x09] @ c"

lemma opt_commands_Cons: "opt_commands (opt # opts) = opt_commands [opt] @ opt_commands opts"
  by (cases opt) simp_all

lemma run_option_current:
  assumes "current_opt opt"
  shows "\<exists>r1. run_option opt r = Some r1 \<and> r_enable r1 = r_enable r @ concat (map indented (opt_commands [opt]))
    \<and> r_dry r1 = r_dry r \<and> dep_name r1 = dep_name r \<and> (r_posix r1 \<longleftrightarrow> r_posix r \<or> opt = O_x)
    \<and> r_plib r1 = opt_lib [opt] (r_plib r) \<and> r_fifo r1 = opt_fifo [opt] (r_fifo r)"
  using assms by (cases opt) (simp_all add: indented_def)

lemma run_options_current:
  assumes "\<forall>opt\<in>set opts. current_opt opt"
  shows "\<exists>r'. run_options opts r = Some r' \<and> r_enable r' = r_enable r @ concat (map indented (opt_commands opts))
    \<and> r_dry r' = r_dry r \<and> dep_name r' = dep_name r \<and> (r_posix r' \<longleftrightarrow> r_posix r \<or> O_x \<in> set opts)
    \<and> r_plib r' = opt_lib opts (r_plib r) \<and> r_fifo r' = opt_fifo opts (r_fifo r)"
  using assms
proof (induction opts arbitrary: r)
  case (Cons opt opts)
  then have "current_opt opt" by simp
  from run_option_current [OF this, of r] obtain r1 where r1: "run_option opt r = Some r1"
    "r_enable r1 = r_enable r @ concat (map indented (opt_commands [opt]))" "r_dry r1 = r_dry r" "dep_name r1 = dep_name r"
    "r_posix r1 \<longleftrightarrow> r_posix r \<or> opt = O_x" "r_plib r1 = opt_lib [opt] (r_plib r)" "r_fifo r1 = opt_fifo [opt] (r_fifo r)" by blast
  from Cons.IH [of r1] Cons.prems obtain r' where "run_options opts r1 = Some r'"
    "r_enable r' = r_enable r1 @ concat (map indented (opt_commands opts))" "r_dry r' = r_dry r1" "dep_name r' = dep_name r1"
    "r_posix r' \<longleftrightarrow> r_posix r1 \<or> O_x \<in> set opts" "r_plib r' = opt_lib opts (r_plib r1)" "r_fifo r' = opt_fifo opts (r_fifo r1)" by auto
  with r1 show ?case by (intro exI [of _ r']) (auto simp: opt_commands_Cons [of opt opts])
qed simp

lemma rc_string_tabs:
  assumes "length c + 3 < MAX_LINE"
  shows "fiu_rc_string env ([CHR 0x09, CHR 0x09, CHR 0x09] @ c) s = fiu_rc_string env c s"
proof -
  have "strncpy (MAX_LINE - 1) ([CHR 0x09, CHR 0x09, CHR 0x09] @ c) = [CHR 0x09, CHR 0x09, CHR 0x09] @ c"
    "strncpy (MAX_LINE - 1) c = c" using assms by (simp_all add: strncpy_def MAX_LINE_def)
  moreover have "strtok [CHR '' '', CHR 0x09] ([CHR 0x09, CHR 0x09, CHR 0x09] @ c) = strtok [CHR '' '', CHR 0x09] c"
    by (simp add: strtok_def)
  ultimately show ?thesis by (simp add: fiu_rc_string_def del: append_Cons append_Nil)
qed

lemma strtok_newline: "strtok [CHR 0x0A] (CHR 0x0A # t) = strtok [CHR 0x0A] t"
  by (simp add: strtok_def)

lemma run_commands_newline: "run_commands envs i (CHR 0x0A # t) s = run_commands envs i t s"
  unfolding run_commands.simps [of envs i "CHR 0x0A # t"] run_commands.simps [of envs i t] strtok_newline ..

lemma run_commands_indented:
  assumes "fiu_ready_at rc s" and "\<forall>j. env_ok (envs j)" and "\<forall>l\<in>set ls. line_ok l \<and> length (rc_text l) + 3 < MAX_LINE"
  shows "commands_done ls rc s (run_commands envs i (concat (map indented (map rc_text ls))) s)"
  using assms(1,3)
proof (induction ls arbitrary: s i)
  case Nil
  then show ?case by (simp add: run_commands_none)
next
  case (Cons l ls)
  let ?w = "[CHR 0x09, CHR 0x09, CHR 0x09] @ rc_text l" and ?rest = "concat (map indented (map rc_text ls))"
  from Cons.prems(2) have l: "line_ok l" "length (rc_text l) < MAX_LINE" "length (rc_text l) + 3 < MAX_LINE" by auto
  have w: "?w \<noteq> []" "\<forall>c\<in>set ?w. c \<notin> set [CHR 0x0A]" using rc_text_chars(1) [OF l(1)] by auto
  have tok: "strtok [CHR 0x0A] (indented (rc_text l) @ ?rest) = Some (?w, drop 1 ?rest)"
  proof (cases ls)
    case Nil
    with strtok_word(2) [OF w, of "CHR 0x0A"] show ?thesis by (simp add: indented_def strtok_newline)
  next
    case (Cons l' ls')
    then have "?rest = CHR 0x0A # drop 1 ?rest" by (simp add: indented_def)
    with strtok_word(1) [OF w, of "CHR 0x0A" "drop 1 ?rest"] show ?thesis
      by (metis append.assoc append_Cons append_Nil indented_def list.set_intros(1) strtok_newline)
  qed
  have skip: "run_commands envs i' (drop 1 ?rest) s1 = run_commands envs i' ?rest s1" for i' s1
  proof (cases ls)
    case (Cons l' ls')
    then have "?rest = CHR 0x0A # drop 1 ?rest" by (simp add: indented_def)
    then show ?thesis by (metis run_commands_newline)
  qed simp
  have "commands_done ls rc s1 (run_commands envs (i + 1) (drop 1 ?rest) s1)" if "fiu_ready_at rc s1" for s1
    unfolding skip using Cons.IH [OF that] Cons.prems(2) by simp
  from run_command_step [OF Cons.prems(1) assms(2) l(1,2) tok rc_string_tabs [OF l(3)] this] show ?case by simp
qed

text \<open>Property C23: The commands given to \<open>fiu-run\<close>: a program started with any options that are not deprecated, with the remote control
  on or off, gets from the script the variables with which the run preloader executes exactly the commands of the options \<open>-c\<close>, in their order
  and up to the first that fails, on a library that has just been initialized; the POSIX preloader is loaded exactly if \<open>-x\<close> is given, in
  any position.\<close>

theorem fiu_run_commands:
  assumes "\<forall>opt\<in>set opts. current_opt opt" and "opt_commands opts = map rc_text ls" and "args \<noteq> []"
    and "\<forall>l\<in>set ls. line_ok l \<and> length (rc_text l) + 3 < MAX_LINE"
    and "env_good env" and "\<forall>j. env_ok (envs j)" and "sys_malloc_in sys" and "sys_malloc_out sys"
  shows "\<exists>v. fiu_run tmpdir plib opts args = Executes v args
    \<and> v_preload v = opt_lib opts plib @ ''/fiu_run_preload.so '' @ (if O_x \<in> set opts then '' '' @ opt_lib opts plib @ ''/fiu_posix_preload.so'' else [])
    \<and> v_fifo v = opt_fifo opts (r_fifo (runner_start tmpdir plib))
    \<and> (\<exists>ps' s. fiu_run_init env sys envs True (Ptr (v_fifo v)) (Ptr (v_enable v)) ps fiu_start
          = Some (if snd (until_failure args_pf (map rc_ctl ls) Map.empty) then Run_done else Run_failed ''Error in disable'', ps', s)
        \<and> fiu_ready s \<and> points s = fst (until_failure args_pf (map rc_ctl ls) Map.empty))"
proof -
  let ?start = "runner_start tmpdir plib"
  have start: "r_enable ?start = []" "r_dry ?start = False" "dep_name ?start = []" "r_posix ?start = False" "r_plib ?start = plib"
    by (simp_all add: runner_start_def opts_reset_def)
  obtain r where r: "run_options opts ?start = Some r" "r_enable r = concat (map indented (map rc_text ls))" "\<not> r_dry r" "dep_name r = []"
    "r_posix r \<longleftrightarrow> O_x \<in> set opts" "r_plib r = opt_lib opts plib" "r_fifo r = opt_fifo opts (r_fifo ?start)"
    using run_options_current [OF assms(1), of ?start] start assms(2) by auto
  define v where "v = run_end_vars (opts_reset r)"
  have run: "fiu_run tmpdir plib opts args = Executes v args"
    using r assms(3) by (simp add: fiu_run_def add_deprecated_enable_def v_def)
  have v: "v_enable v = concat (map indented (map rc_text ls))"
    "v_preload v = opt_lib opts plib @ ''/fiu_run_preload.so '' @ (if O_x \<in> set opts then '' '' @ opt_lib opts plib @ ''/fiu_posix_preload.so'' else [])"
    "v_fifo v = opt_fifo opts (r_fifo ?start)"
    using r(2,5-7) by (simp_all add: v_def run_end_vars_def opts_reset_def)
  obtain s0 where s0: "fiu_init env fiu_start = Some (0, s0)" "fiu_ready s0" "points s0 = Map.empty"
    using fiu_init_start [OF assms(5)] by blast
  have "\<exists>ps'. (if v_fifo v = [] then Some (ps, s0) else do { (r, ps', s') \<leftarrow> fiu_rc_fifo sys (v_fifo v) ps s0; Some (ps', s') })
      = Some (ps', s0)"
    using fiu_rc_fifo_same [OF assms(7,8), of "v_fifo v" ps s0] by (cases "v_fifo v = []") auto
  then obtain ps' where fifo: "(if v_fifo v = [] then Some (ps, s0)
      else do { (r, ps', s') \<leftarrow> fiu_rc_fifo sys (v_fifo v) ps s0; Some (ps', s') }) = Some (ps', s0)" by blast
  have finish: "commands_done ls 0 s0 (run_commands envs 0 (v_enable v) s0)"
    unfolding v(1) by (rule run_commands_indented [OF s0(2) assms(6,4)])
  have "\<exists>s. fiu_run_init env sys envs True (Ptr (v_fifo v)) (Ptr (v_enable v)) ps fiu_start
          = Some (if snd (until_failure args_pf (map rc_ctl ls) Map.empty) then Run_done else Run_failed ''Error in disable'', ps', s)
        \<and> fiu_ready s \<and> points s = fst (until_failure args_pf (map rc_ctl ls) Map.empty)"
  proof (cases "v_enable v = []")
    case True
    then have "ls = []" using v(1) by (cases ls) (simp_all add: indented_def)
    with True fifo s0 show ?thesis by (simp add: fiu_run_init_def)
  next
    case False
    with finish fifo s0 show ?thesis by (auto simp: fiu_run_init_def commands_done_def)
  qed
  with run v(2,3) show ?thesis by blast
qed

theorem fiu_run_commands_witness:
  "\<exists>v ps s. fiu_run None ''/lib'' [O_x, O_c ''enable name=a,failnum=1,failinfo=5'', O_f []] [''ls''] = Executes v [''ls'']
     \<and> v_preload v = ''/lib/fiu_run_preload.so  /lib/fiu_posix_preload.so'' \<and> v_fifo v = []
     \<and> fiu_run_init quiet_env \<lparr>sys_malloc_in = True, sys_malloc_out = True, sys_pid = 7, sys_mkfifo_in = Fifo_made, sys_mkfifo_out = Fifo_made,
         sys_thread = True, sys_strdup = True\<rparr> (\<lambda>_. quiet_env) True (Ptr (v_fifo v)) (Ptr (v_enable v))
         \<lparr>npipe_basename = NULL, npipe_path_in = NULL, npipe_path_out = NULL, pipe_files = [], serving = 0, atexits = 0, atforks = 0\<rparr> fiu_start
       = Some (Run_done, ps, s)
     \<and> points s = [''a'' \<mapsto> args_pf ''a'' (1, 5, 0, PF_ALWAYS, M_unset)]"
proof -
  let ?opts = "[O_x, O_c ''enable name=a,failnum=1,failinfo=5'', O_f []]" and ?ls = "[L_enable ''a'' 1 5 False]"
  let ?sys = "\<lparr>sys_malloc_in = True, sys_malloc_out = True, sys_pid = 7, sys_mkfifo_in = Fifo_made, sys_mkfifo_out = Fifo_made,
      sys_thread = True, sys_strdup = True\<rparr>"
  have opts: "\<forall>opt\<in>set ?opts. current_opt opt" "[''ls''] \<noteq> []" by simp_all
  have dec: "dec_int 1 = ''1''" "dec_nat 5 = ''5''" by code_simp+
  have cmds: "opt_commands ?opts = map rc_text ?ls" by (simp add: dec(1,2) once_text_def)
  have line: "\<forall>l\<in>set ?ls. line_ok l \<and> length (rc_text l) + 3 < MAX_LINE" by (simp add: dec(1,2) word_ok_def MAX_LINE_def once_text_def)
  have env: "\<forall>j :: nat. env_ok ((\<lambda>_. quiet_env) j)" using quiet_env_ok(1) by simp
  from fiu_run_commands [OF opts(1) cmds opts(2) line quiet_env_ok(2) env, of ?sys None "''/lib''"
      "\<lparr>npipe_basename = NULL, npipe_path_in = NULL, npipe_path_out = NULL, pipe_files = [], serving = 0, atexits = 0, atforks = 0\<rparr>"]
  show ?thesis by (auto simp: once_flags_def)
qed

text \<open>The deprecated options: a probability given in percent becomes a probability greater than 1, and one given as a fraction fails
  the comparison with 0, so that the command enables the name unconditionally.\<close>

lemma fiu_run_deprecated:
  "fiu_run None ''/lib'' [O_e ''a'', O_p ''10''] [''ls''] = Executes \<lparr>v_enable = [CHR 0x0A, CHR 0x09, CHR 0x09]
      @ ''enable_random name=a,failnum=1,failinfo=0,probability=10'', v_fifo = ''/tmp/fiu-ctrl'', v_preload = ''/lib/fiu_run_preload.so ''\<rparr> [''ls'']"
  "fiu_run None ''/lib'' [O_e ''a'', O_p ''0.25''] [''ls''] = Executes \<lparr>v_enable = [CHR 0x0A, CHR 0x09, CHR 0x09]
      @ ''enable name=a,failnum=1,failinfo=0'', v_fifo = ''/tmp/fiu-ctrl'', v_preload = ''/lib/fiu_run_preload.so ''\<rparr> [''ls'']"
  by code_simp+

end
