(* ===== verification/Fiu_Ctrl.thy ===== *)
theory Fiu_Ctrl
  imports Fiu_Run
begin

text \<open>
  The script fiu-ctrl (utils/fiu-ctrl): it sends the commands of its options to running processes, through the pipes of their remote control.
  As for fiu-run the parsing of the command line by \<open>getopts\<close> is left to the shell; \<open>pipe\<close> says which paths are named pipes
  (\<open>test -p\<close>), \<open>alive\<close> whether \<open>kill -0\<close> succeeds. The expansion of file name patterns in words without quotes is not
  modelled, their splitting into words is.
\<close>

subsection \<open>Options\<close>

datatype ctrl_opt = CO_c string | CO_e string | CO_p string | CO_u string | CO_i string | CO_d string | CO_f string | CO_other

record ctrl =
  k_cmds :: "string list"
  k_fifo :: string
  k_name :: string
  k_prob :: string
  k_failnum :: string
  k_failinfo :: string

definition ctrl_opts_reset :: "ctrl \<Rightarrow> ctrl" where
  "ctrl_opts_reset k = k\<lparr>k_name := [], k_prob := ''-1'', k_failnum := ''1'', k_failinfo := ''0''\<rparr>"

definition ctrl_start :: "string option \<Rightarrow> ctrl" where
  "ctrl_start tmpdir = ctrl_opts_reset
     \<lparr>k_cmds = [], k_fifo = (case tmpdir of None \<Rightarrow> ''/tmp'' | Some d \<Rightarrow> if d = [] then ''/tmp'' else d) @ ''/fiu-ctrl'',
      k_name = [], k_prob = [], k_failnum = [], k_failinfo = []\<rparr>"

definition ctrl_add_deprecated :: "ctrl \<Rightarrow> ctrl" where
  "ctrl_add_deprecated k =
     (if k_name k = [] then k
      else let params = ''name='' @ k_name k @ '',failnum='' @ k_failnum k @ '',failinfo='' @ k_failinfo k;
               c = (if (case bash_int (k_prob k) of None \<Rightarrow> False | Some p \<Rightarrow> 0 \<le> p)
                    then ''enable_random '' @ params @ '',probability=0.'' @ k_prob k
                    else ''enable '' @ params)
           in k\<lparr>k_cmds := k_cmds k @ [c]\<rparr>)"

fun ctrl_option :: "ctrl_opt \<Rightarrow> ctrl \<Rightarrow> ctrl option" where
  "ctrl_option (CO_c c) k = Some (k\<lparr>k_cmds := k_cmds k @ [c]\<rparr>)"
| "ctrl_option (CO_e n) k = Some ((ctrl_opts_reset (ctrl_add_deprecated k))\<lparr>k_name := n\<rparr>)"
| "ctrl_option (CO_p p) k = Some (k\<lparr>k_prob := p\<rparr>)"
| "ctrl_option (CO_u u) k = Some (k\<lparr>k_failnum := u\<rparr>)"
| "ctrl_option (CO_i i) k = Some (k\<lparr>k_failinfo := i\<rparr>)"
| "ctrl_option (CO_f f) k = Some (k\<lparr>k_fifo := f\<rparr>)"
| "ctrl_option (CO_d n) k = Some (ctrl_opts_reset (k\<lparr>k_cmds := k_cmds k @ [''disable name='' @ n]\<rparr>))"
| "ctrl_option CO_other k = None"

fun ctrl_options :: "ctrl_opt list \<Rightarrow> ctrl \<Rightarrow> ctrl option" where
  "ctrl_options [] k = Some (ctrl_add_deprecated k)"
| "ctrl_options (opt # opts) k = do { k1 \<leftarrow> ctrl_option opt k; ctrl_options opts k1 }"

subsection \<open>Targets\<close>

text \<open>The words of an expansion without quotes.\<close>

definition in_ifs :: "char \<Rightarrow> bool" where
  "in_ifs c \<longleftrightarrow> c = CHR '' '' \<or> c = CHR 0x09 \<or> c = CHR 0x0A"

function ifs_words :: "string \<Rightarrow> string list" where
  "ifs_words [] = []"
| "ifs_words (c # cs) = (if in_ifs c then ifs_words cs
     else (c # takeWhile (\<lambda>d. \<not> in_ifs d) cs) # ifs_words (dropWhile (\<lambda>d. \<not> in_ifs d) cs))"
  by pat_completeness auto
termination
  by (relation "measure length") (auto simp: le_imp_less_Suc [OF length_dropWhile_le])

text \<open>\<open>PIDS\<close>, \<open>PREFIXES\<close> and what is printed.\<close>

fun ctrl_targets :: "(string \<Rightarrow> bool) \<Rightarrow> (string list \<Rightarrow> bool) \<Rightarrow> string \<Rightarrow> string list \<Rightarrow> string \<times> string \<times> string list
    \<Rightarrow> string \<times> string \<times> string list" where
  "ctrl_targets pipe alive fifo [] acc = acc"
| "ctrl_targets pipe alive fifo (i # args) (pids, prefs, out) = ctrl_targets pipe alive fifo args
     (if pipe (i @ ''.out'') then (pids, prefs @ '' '' @ i, out)
      else if alive (ifs_words i) \<and> pipe (fifo @ ''-'' @ i @ ''.out'') then (pids @ '' '' @ i, prefs, out)
      else (pids, prefs, out @ [''Error: unknown pid or named pipe '' @ i @ '', skipping'', ''Note that options must come before the PID'']))"

subsection \<open>Commands\<close>

fun unwords :: "string list \<Rightarrow> string" where
  "unwords [] = []"
| "unwords [w] = w"
| "unwords (w # ws) = w @ CHR '' '' # unwords ws"

text \<open>What the builtin \<open>echo\<close> prints: leading words that are made of its options are not printed, and with \<open>n\<close> no newline is.\<close>

definition echo_opt :: "string \<Rightarrow> bool" where
  "echo_opt w \<longleftrightarrow> (case w of c # d # ds \<Rightarrow> c = CHR ''-'' \<and> set (d # ds) \<subseteq> {CHR ''n'', CHR ''e'', CHR ''E''} | _ \<Rightarrow> False)"

definition echo_line :: "string list \<Rightarrow> string" where
  "echo_line ws = unwords (dropWhile echo_opt ws) @ (if \<exists>w\<in>set (takeWhile echo_opt ws). CHR ''n'' \<in> set w then [] else [CHR 0x0A])"

text \<open>The substitution of a command drops the newlines at its end.\<close>

definition substituted :: "string \<Rightarrow> string" where
  "substituted t = rev (dropWhile (\<lambda>c. c = CHR 0x0A) (rev t))"

text \<open>\<open>ex P t w\<close> is what happens when \<open>t\<close> is written to the pipe \<open>P.in\<close>, which is then closed, and \<open>P.out\<close> is read to
  its end: what is read, and the processes after it.\<close>

fun send_cmd_fifo :: "(string \<Rightarrow> string \<Rightarrow> 'w \<Rightarrow> (string \<times> 'w) option) \<Rightarrow> string list \<Rightarrow> 'w \<Rightarrow> (string list \<times> 'w) option" where
  "send_cmd_fifo ex [] w = None"
| "send_cmd_fifo ex (p # args) w = do {
     (t, w1) \<leftarrow> ex p (echo_line args) w;
     let reply = substituted t;
     Some (if reply = ''-1'' then [p @ '': Command '' @ [CHR 0x27] @ unwords args @ [CHR 0x27] @ '' returned error ('' @ reply @ '')''] else [], w1) }"

fun send_all :: "(string \<Rightarrow> string \<Rightarrow> 'w \<Rightarrow> (string \<times> 'w) option) \<Rightarrow> string list list \<Rightarrow> 'w \<Rightarrow> (string list \<times> 'w) option" where
  "send_all ex [] w = Some ([], w)"
| "send_all ex (args # rest) w = do {
     (out, w1) \<leftarrow> send_cmd_fifo ex args w;
     (out', w2) \<leftarrow> send_all ex rest w1;
     Some (out @ out', w2) }"

definition ctrl_sends :: "string \<Rightarrow> string \<Rightarrow> string \<Rightarrow> string list \<Rightarrow> string list list" where
  "ctrl_sends fifo pids prefs cmds = concat (map (\<lambda>c.
     map (\<lambda>i. ifs_words (fifo @ ''-'' @ i) @ [c]) (ifs_words pids) @ map (\<lambda>i. ifs_words i @ [c]) (ifs_words prefs)) cmds)"

datatype 'w ctrl_effect = Ctrl_usage | Ctrl_sent "string list" 'w

definition fiu_ctrl :: "(string \<Rightarrow> bool) \<Rightarrow> (string list \<Rightarrow> bool) \<Rightarrow> (string \<Rightarrow> string \<Rightarrow> 'w \<Rightarrow> (string \<times> 'w) option)
    \<Rightarrow> string option \<Rightarrow> ctrl_opt list \<Rightarrow> string list \<Rightarrow> 'w \<Rightarrow> 'w ctrl_effect option" where
  "fiu_ctrl pipe alive ex tmpdir opts args w =
     (if opts = [] \<and> args = [] then Some Ctrl_usage
      else case ctrl_options opts (ctrl_start tmpdir) of
          None \<Rightarrow> Some Ctrl_usage
        | Some k \<Rightarrow> (case ctrl_targets pipe alive (k_fifo k) args ([], [], []) of (pids, prefs, out) \<Rightarrow>
            map_option (\<lambda>(out', w'). Ctrl_sent (out @ out') w') (send_all ex (ctrl_sends (k_fifo k) pids prefs (k_cmds k)) w)))"


subsection \<open>The processes\<close>

text \<open>The processes by the path of their pipes; each has the thread of the remote control of \<open>fiu-rc.c\<close>, whose recursion count
  is 1. One opening of the pipes is a session of that thread: it reads what was written and then the end of the input, and its replies, which
  \<open>write\<close> takes whole, are what the script reads.\<close>

definition client_session :: "env \<Rightarrow> string \<Rightarrow> session" where
  "client_session env t = \<lparr>s_open_in = 3, s_open_out = 4, s_input = map Byte t, s_calls = replicate (length t + 1) (env, (\<lambda>reply. int (length reply)), False)\<rparr>"

definition exchange :: "(string \<Rightarrow> env) \<Rightarrow> string \<Rightarrow> string \<Rightarrow> (string \<Rightarrow> fiu) \<Rightarrow> (string \<times> (string \<Rightarrow> fiu)) option" where
  "exchange envs p t w = do {
     (_, _, replies, s) \<leftarrow> rc_reopen [client_session (envs p) t] 0 (w p);
     Some (concat replies, w(p := s)) }"

subsection \<open>One command\<close>

lemma rc_text_echo:
  assumes "line_ok l"
  shows "echo_line [rc_text l] = rc_text l @ [CHR 0x0A]"
proof -
  have "\<not> echo_opt (rc_text l)" by (cases l) (simp_all add: echo_opt_def)
  then show ?thesis by (simp add: echo_line_def)
qed

lemma exchange_line:
  assumes "fiu_ready_at 1 (w p)" and "env_ok (envs p)" and "line_ok l" and "length (rc_text l) < MAX_LINE"
  shows "\<exists>s. exchange envs p (rc_text l @ [CHR 0x0A]) w = Some (rc_reply (ctl_result (rc_ctl l) (points (w p))), w(p := s))
    \<and> fiu_ready_at 1 s \<and> points s = ctl_map args_pf (rc_ctl l) (points (w p))"
proof -
  let ?env = "envs p" and ?t = "rc_text l @ [CHR 0x0A]" and ?r = "ctl_result (rc_ctl l) (points (w p))"
  from fiu_control.step_law [OF assms(2,1) line_ok_ctl [OF assms(3)]] obtain s where
    s: "ctl_step fiu_add fiu_disable ?env (rc_ctl l) (w p) = Some (?r, s)" "fiu_ready_at 1 s"
      "points s = ctl_map args_pf (rc_ctl l) (points (w p))" by blast
  have "rc_text l \<noteq> []" by (cases l) simp_all
  then obtain n where n: "length (rc_text l) = Suc n" by (cases "rc_text l") auto
  have w: "0 < (\<lambda>reply :: string. int (length reply)) (rc_reply ?r)" by (simp add: rc_reply_def)
  have run: "rc_do_command ?env (\<lambda>reply. int (length reply)) (map Byte (rc_text l) @ Byte (CHR 0x0A) # []) (w p)
      = Some (int (Suc n), Some (rc_reply ?r), [], s)"
    using rc_do_command_line [where w = "\<lambda>reply. int (length reply)" and fd = "[]", OF assms(3,4) w s(1) ctl_result_range] n by simp
  define calls where "calls = replicate (Suc (Suc n)) (?env, (\<lambda>reply :: string. int (length reply)), False)"
  have closed: "rc_loop calls [] s = Some (Closed, [], s)"
    using rc_loop_closed [of "client_session ?env []\<lparr>s_calls := calls\<rparr>" s]
    by (simp add: session_closed_def client_session_def calls_def del: rc_loop.simps)
  have "s_calls (client_session ?env ?t) = (?env, (\<lambda>reply. int (length reply)), False) # calls" "s_input (client_session ?env ?t) = map Byte (rc_text l) @ Byte (CHR 0x0A) # []"
    by (simp_all add: client_session_def calls_def n)
  then have "rc_loop (s_calls (client_session ?env ?t)) (s_input (client_session ?env ?t)) (w p) = Some (Closed, [rc_reply ?r], s)"
    using run closed by simp
  then have "rc_reopen [client_session ?env ?t] 0 (w p) = Some (Serving, 0, [rc_reply ?r], s)"
    by (simp add: client_session_def)
  with s(2,3) show ?thesis by (intro exI [of _ s]) (simp add: exchange_def)
qed

lemma reply_error: "substituted (rc_reply 0) = ''0''" "substituted (rc_reply (-1)) = ''-1''"
  by code_simp+

subsection \<open>All commands\<close>

text \<open>What the commands do to the points of failure of each process, with their results.\<close>

fun ctl_sends :: "(string \<times> rc_line) list \<Rightarrow> (string \<Rightarrow> string \<rightharpoonup> pf_info) \<Rightarrow> int list \<times> (string \<Rightarrow> string \<rightharpoonup> pf_info)" where
  "ctl_sends [] m = ([], m)"
| "ctl_sends ((p, l) # ps) m = (case ctl_sends ps (m(p := ctl_map args_pf (rc_ctl l) (m p))) of
     (rs, m') \<Rightarrow> (ctl_result (rc_ctl l) (m p) # rs, m'))"

definition complaint :: "string \<times> rc_line \<Rightarrow> int \<Rightarrow> string list" where
  "complaint pl r = (if r = -1 then [fst pl @ '': Command '' @ [CHR 0x27] @ rc_text (snd pl) @ [CHR 0x27] @ '' returned error (-1)''] else [])"

text \<open>What the script needs of the pipes: a command that is written to those of a process has there the result and the effect that it has
  on a map, the reply is the result, and other processes notice nothing.\<close>

locale command_channel =
  fixes ex :: "string \<Rightarrow> string \<Rightarrow> 'w \<Rightarrow> (string \<times> 'w) option"
    and up :: "string \<Rightarrow> 'w \<Rightarrow> bool"
    and view :: "'w \<Rightarrow> string \<Rightarrow> string \<rightharpoonup> pf_info"
  assumes ex_law: "up p w \<Longrightarrow> line_ok l \<Longrightarrow> length (rc_text l) < MAX_LINE \<Longrightarrow>
      \<exists>w'. ex p (rc_text l @ [CHR 0x0A]) w = Some (rc_reply (ctl_result (rc_ctl l) (view w p)), w')
        \<and> view w' = (view w)(p := ctl_map args_pf (rc_ctl l) (view w p)) \<and> (\<forall>q. up q w \<longrightarrow> up q w')"
begin

lemma send_line:
  assumes "up p w" and "line_ok l" and "length (rc_text l) < MAX_LINE"
  shows "\<exists>w'. send_cmd_fifo ex [p, rc_text l] w = Some (complaint (p, l) (ctl_result (rc_ctl l) (view w p)), w')
    \<and> view w' = (view w)(p := ctl_map args_pf (rc_ctl l) (view w p)) \<and> (\<forall>q. up q w \<longrightarrow> up q w')"
proof -
  obtain w' where w': "ex p (rc_text l @ [CHR 0x0A]) w = Some (rc_reply (ctl_result (rc_ctl l) (view w p)), w')"
    "view w' = (view w)(p := ctl_map args_pf (rc_ctl l) (view w p))" "\<forall>q. up q w \<longrightarrow> up q w'"
    using ex_law [OF assms] by blast
  moreover from ctl_result_range have "ctl_result (rc_ctl l) (view w p) = 0 \<or> ctl_result (rc_ctl l) (view w p) = -1" .
  ultimately show ?thesis using rc_text_echo [OF assms(2)] reply_error by (auto simp: complaint_def)
qed

lemma send_all_lines:
  assumes "\<forall>(p, l)\<in>set ps. up p w \<and> line_ok l \<and> length (rc_text l) < MAX_LINE"
  shows "\<exists>w'. send_all ex (map (\<lambda>(p, l). [p, rc_text l]) ps) w = Some (concat (map2 complaint ps (fst (ctl_sends ps (view w)))), w')
    \<and> view w' = snd (ctl_sends ps (view w)) \<and> (\<forall>q. up q w \<longrightarrow> up q w')"
  using assms
proof (induction ps arbitrary: w)
  case (Cons pl ps)
  obtain p l where pl: "pl = (p, l)" by (cases pl)
  with Cons.prems have ok: "up p w" "line_ok l" "length (rc_text l) < MAX_LINE" by simp_all
  obtain w1 where w1: "send_cmd_fifo ex [p, rc_text l] w = Some (complaint (p, l) (ctl_result (rc_ctl l) (view w p)), w1)"
    "view w1 = (view w)(p := ctl_map args_pf (rc_ctl l) (view w p))" "\<forall>q. up q w \<longrightarrow> up q w1"
    using send_line [OF ok] by blast
  have "\<forall>(p', l)\<in>set ps. up p' w1 \<and> line_ok l \<and> length (rc_text l) < MAX_LINE" using Cons.prems w1(3) by auto
  from Cons.IH [OF this] obtain w' where
    "send_all ex (map (\<lambda>(p, l). [p, rc_text l]) ps) w1 = Some (concat (map2 complaint ps (fst (ctl_sends ps (view w1)))), w')"
    "view w' = snd (ctl_sends ps (view w1))" "\<forall>q. up q w1 \<longrightarrow> up q w'" by blast
  with w1 show ?case by (intro exI [of _ w']) (auto simp: pl split: prod.split)
qed simp

end

text \<open>The threads of the remote control are such a channel.\<close>

interpretation rc_channel: command_channel "exchange envs" "\<lambda>p w. fiu_ready_at 1 (w p) \<and> env_ok (envs p)" "\<lambda>w p. points (w p)" for envs
proof
  fix p l and w :: "string \<Rightarrow> fiu"
  assume p: "fiu_ready_at 1 (w p) \<and> env_ok (envs p)" and l: "line_ok l" "length (rc_text l) < MAX_LINE"
  obtain s where s: "exchange envs p (rc_text l @ [CHR 0x0A]) w = Some (rc_reply (ctl_result (rc_ctl l) (points (w p))), w(p := s))"
    "fiu_ready_at 1 s" "points s = ctl_map args_pf (rc_ctl l) (points (w p))"
    using exchange_line [of w p envs l] p l by blast
  then show "\<exists>w'. exchange envs p (rc_text l @ [CHR 0x0A]) w = Some (rc_reply (ctl_result (rc_ctl l) (points (w p))), w')
      \<and> (\<lambda>p. points (w' p)) = (\<lambda>p. points (w p))(p := ctl_map args_pf (rc_ctl l) (points (w p)))
      \<and> (\<forall>q. fiu_ready_at 1 (w q) \<and> env_ok (envs q) \<longrightarrow> fiu_ready_at 1 (w' q) \<and> env_ok (envs q))"
    by (intro exI [of _ "w(p := s)"]) (auto simp: fun_eq_iff)
qed

subsection \<open>The command line\<close>

fun ctrl_current :: "ctrl_opt \<Rightarrow> bool" where
  "ctrl_current (CO_c c) = True"
| "ctrl_current (CO_f f) = True"
| "ctrl_current _ = False"

fun ctrl_commands :: "ctrl_opt list \<Rightarrow> string list" where
  "ctrl_commands [] = []"
| "ctrl_commands (CO_c c # opts) = c # ctrl_commands opts"
| "ctrl_commands (_ # opts) = ctrl_commands opts"

fun ctrl_fifo :: "ctrl_opt list \<Rightarrow> string \<Rightarrow> string" where
  "ctrl_fifo [] f = f"
| "ctrl_fifo (opt # opts) f = ctrl_fifo opts (case opt of CO_f f' \<Rightarrow> f' | _ \<Rightarrow> f)"

lemma ctrl_options_current:
  assumes "\<forall>opt\<in>set opts. ctrl_current opt" and "k_name k = []"
  shows "\<exists>k'. ctrl_options opts k = Some k' \<and> k_cmds k' = k_cmds k @ ctrl_commands opts \<and> k_fifo k' = ctrl_fifo opts (k_fifo k)"
  using assms
proof (induction opts arbitrary: k)
  case Nil
  then show ?case by (simp add: ctrl_add_deprecated_def)
next
  case (Cons opt opts)
  then have "ctrl_current opt" by simp
  then show ?case
  proof (cases opt)
    case (CO_c c)
    from Cons.IH [of "k\<lparr>k_cmds := k_cmds k @ [c]\<rparr>"] Cons.prems CO_c show ?thesis by auto
  next
    case (CO_f f)
    from Cons.IH [of "k\<lparr>k_fifo := f\<rparr>"] Cons.prems CO_f show ?thesis by auto
  qed simp_all
qed

text \<open>The deprecated options: an option \<open>-d\<close> forgets the point of failure of the option \<open>-e\<close> before it, which no command enables.\<close>

lemma ctrl_disable_forgets:
  "ctrl_options [CO_e a, CO_d b] (ctrl_start tmpdir) = Some k \<Longrightarrow> k_cmds k = [''disable name='' @ b]"
  by (auto simp: ctrl_start_def ctrl_opts_reset_def ctrl_add_deprecated_def)

lemma ctrl_deprecated_enable:
  assumes "a \<noteq> []" and "bash_int p = Some n" and "0 \<le> n"
  shows "map_option k_cmds (ctrl_options [CO_e a, CO_p p] (ctrl_start tmpdir)) = Some [rc_text (L_random a 1 0 (''0.'' @ p) False)]"
  using assms by (simp add: ctrl_start_def ctrl_opts_reset_def ctrl_add_deprecated_def once_text_def dec_int_def dec_nat.simps char_of_def bit_0)

definition one_word :: "string \<Rightarrow> bool" where
  "one_word s \<longleftrightarrow> s \<noteq> [] \<and> (\<forall>c\<in>set s. \<not> in_ifs c)"

lemma ifs_words_one: "one_word i \<Longrightarrow> ifs_words i = [i]"
proof (cases i)
  case (Cons c cs)
  moreover assume "one_word i"
  ultimately have "\<not> in_ifs c" "takeWhile (\<lambda>d. \<not> in_ifs d) cs = cs" "dropWhile (\<lambda>d. \<not> in_ifs d) cs = []"
    by (simp_all add: one_word_def takeWhile_eq_all_conv dropWhile_eq_Nil_conv)
  with Cons show ?thesis by (simp del: dropWhile_eq_Nil_conv takeWhile_eq_all_conv)
qed (simp add: one_word_def)

lemma ifs_words_list:
  assumes "\<forall>i\<in>set is. one_word i"
  shows "ifs_words (concat (map (\<lambda>i. '' '' @ i) is)) = is"
  using assms
proof (induction "is")
  case (Cons i "is")
  let ?r = "concat (map (\<lambda>i. '' '' @ i) is)"
  obtain c cs where i: "i = c # cs" "\<not> in_ifs c" "\<forall>d\<in>set cs. \<not> in_ifs d" using Cons.prems by (cases i) (auto simp: one_word_def)
  have sep: "in_ifs (CHR '' '')" by (simp add: in_ifs_def)
  have "takeWhile (\<lambda>d. \<not> in_ifs d) (cs @ ?r) = cs" "dropWhile (\<lambda>d. \<not> in_ifs d) (cs @ ?r) = ?r"
    using i(3) sep by (cases "is"; simp add: takeWhile_append2 dropWhile_append2)+
  with Cons i sep show ?case by simp
qed simp

definition is_prefix :: "(string \<Rightarrow> bool) \<Rightarrow> string \<Rightarrow> bool" where
  "is_prefix pipe i \<longleftrightarrow> pipe (i @ ''.out'')"

definition is_pid :: "(string \<Rightarrow> bool) \<Rightarrow> (string list \<Rightarrow> bool) \<Rightarrow> string \<Rightarrow> string \<Rightarrow> bool" where
  "is_pid pipe alive fifo i \<longleftrightarrow> \<not> is_prefix pipe i \<and> alive (ifs_words i) \<and> pipe (fifo @ ''-'' @ i @ ''.out'')"

definition unknown_target :: "string \<Rightarrow> string list" where
  "unknown_target i = [''Error: unknown pid or named pipe '' @ i @ '', skipping'', ''Note that options must come before the PID'']"

lemma ctrl_targets_all: "ctrl_targets pipe alive fifo args (pids, prefs, out) =
    (pids @ concat (map (\<lambda>i. '' '' @ i) (filter (is_pid pipe alive fifo) args)), prefs @ concat (map (\<lambda>i. '' '' @ i) (filter (is_prefix pipe) args)),
     out @ concat (map unknown_target (filter (\<lambda>i. \<not> is_prefix pipe i \<and> \<not> is_pid pipe alive fifo i) args)))"
  by (induction args arbitrary: pids prefs out) (auto simp: is_prefix_def is_pid_def unknown_target_def)

text \<open>The paths that the script sends to, in its order: the processes by their numbers first, then those by the path of their pipes.\<close>

definition reached :: "(string \<Rightarrow> bool) \<Rightarrow> (string list \<Rightarrow> bool) \<Rightarrow> string \<Rightarrow> string list \<Rightarrow> string list" where
  "reached pipe alive fifo args = map (\<lambda>i. fifo @ ''-'' @ i) (filter (is_pid pipe alive fifo) args) @ filter (is_prefix pipe) args"

lemma ctrl_sends_all:
  assumes "\<forall>i\<in>set args. one_word i" and "\<forall>c\<in>set fifo. \<not> in_ifs c" and "ctrl_targets pipe alive fifo args ([], [], []) = (pids, prefs, out)"
  shows "ctrl_sends fifo pids prefs cmds = concat (map (\<lambda>c. map (\<lambda>p. [p, c]) (reached pipe alive fifo args)) cmds)"
proof -
  have dash: "one_word (fifo @ ''-'' @ i)" if "one_word i" for i
    using that assms(2) by (auto simp: one_word_def in_ifs_def)
  have "pids = concat (map (\<lambda>i. '' '' @ i) (filter (is_pid pipe alive fifo) args))"
    "prefs = concat (map (\<lambda>i. '' '' @ i) (filter (is_prefix pipe) args))"
    using assms(3) unfolding ctrl_targets_all append_Nil prod.inject by blast+
  then have w: "ifs_words pids = filter (is_pid pipe alive fifo) args" "ifs_words prefs = filter (is_prefix pipe) args"
    using ifs_words_list [of "filter (is_pid pipe alive fifo) args"] ifs_words_list [of "filter (is_prefix pipe) args"] assms(1) by auto
  have "map (\<lambda>i. ifs_words (fifo @ ''-'' @ i) @ [c]) (filter (is_pid pipe alive fifo) args)
      = map (\<lambda>p. [p, c]) (map (\<lambda>i. fifo @ ''-'' @ i) (filter (is_pid pipe alive fifo) args))"
    "map (\<lambda>i. ifs_words i @ [c]) (filter (is_prefix pipe) args) = map (\<lambda>p. [p, c]) (filter (is_prefix pipe) args)" for c
    using ifs_words_one dash assms(1) by auto
  then show ?thesis unfolding ctrl_sends_def w reached_def map_append by presburger
qed


lemma ctrl_session_run:
  assumes "opts \<noteq> [] \<or> args \<noteq> []" and "\<forall>opt\<in>set opts. ctrl_current opt" and "ctrl_commands opts = map rc_text ls"
    and "\<forall>l\<in>set ls. line_ok l \<and> length (rc_text l) < MAX_LINE" and "\<forall>i\<in>set args. one_word i"
    and "ctrl_fifo opts (k_fifo (ctrl_start tmpdir)) = fifo" and "\<forall>c\<in>set fifo. \<not> in_ifs c"
    and "\<forall>p\<in>set (reached pipe alive fifo args). fiu_ready_at 1 (w p) \<and> env_ok (envs p)"
    and "sends = concat (map (\<lambda>l. map (\<lambda>p. (p, l)) (reached pipe alive fifo args)) ls)"
  shows "\<exists>w'. fiu_ctrl pipe alive (exchange envs) tmpdir opts args w = Some (Ctrl_sent
      (concat (map unknown_target (filter (\<lambda>i. \<not> is_prefix pipe i \<and> \<not> is_pid pipe alive fifo i) args))
       @ concat (map2 complaint sends (fst (ctl_sends sends (\<lambda>p. points (w p)))))) w')
    \<and> (\<forall>p. points (w' p) = snd (ctl_sends sends (\<lambda>p. points (w p))) p)
    \<and> (\<forall>p. fiu_ready_at 1 (w p) \<and> env_ok (envs p) \<longrightarrow> fiu_ready_at 1 (w' p))"
proof -
  have "k_name (ctrl_start tmpdir) = []" "k_cmds (ctrl_start tmpdir) = []" by (simp_all add: ctrl_start_def ctrl_opts_reset_def)
  with ctrl_options_current [OF assms(2), of "ctrl_start tmpdir"] assms(3,6) obtain k where
    k: "ctrl_options opts (ctrl_start tmpdir) = Some k" "k_cmds k = map rc_text ls" "k_fifo k = fifo" by auto
  obtain pids prefs out where t: "ctrl_targets pipe alive fifo args ([], [], []) = (pids, prefs, out)" by (metis prod.exhaust)
  then have out: "out = concat (map unknown_target (filter (\<lambda>i. \<not> is_prefix pipe i \<and> \<not> is_pid pipe alive fifo i) args))"
    unfolding ctrl_targets_all append_Nil prod.inject by blast
  have s: "ctrl_sends fifo pids prefs (map rc_text ls) = map (\<lambda>(p, l). [p, rc_text l]) sends"
    using ctrl_sends_all [OF assms(5,7) t] by (simp add: assms(9) map_concat comp_def)
  have "\<forall>(p, l)\<in>set sends. (fiu_ready_at 1 (w p) \<and> env_ok (envs p)) \<and> line_ok l \<and> length (rc_text l) < MAX_LINE"
    using assms(4,8) by (auto simp: assms(9))
  from rc_channel.send_all_lines [OF this] obtain w' where
    w': "send_all (exchange envs) (map (\<lambda>(p, l). [p, rc_text l]) sends) w
       = Some (concat (map2 complaint sends (fst (ctl_sends sends (\<lambda>p. points (w p))))), w')"
    "(\<lambda>p. points (w' p)) = snd (ctl_sends sends (\<lambda>p. points (w p)))"
    "\<forall>p. fiu_ready_at 1 (w p) \<and> env_ok (envs p) \<longrightarrow> fiu_ready_at 1 (w' p) \<and> env_ok (envs p)" by blast
  with assms(1) k t s out show ?thesis by (intro exI [of _ w']) (auto simp: fiu_ctrl_def fun_eq_iff)
qed

text \<open>What one process gets.\<close>

lemma ctl_sends_one: "snd (ctl_sends ps m) p = snd (ctl_maps args_pf (map (rc_ctl \<circ> snd) (filter (\<lambda>x. fst x = p) ps)) (m p))"
proof (induction ps arbitrary: m)
  case (Cons x ps)
  obtain q l where x: "x = (q, l)" by (cases x)
  show ?case
    using Cons.IH [of "m(q := ctl_map args_pf (rc_ctl l) (m q))"]
    by (cases "q = p") (simp_all add: x split_beta del: fun_upd_apply, simp_all)
qed simp

lemma sends_to_one:
  assumes "distinct ps" and "p \<in> set ps"
  shows "filter (\<lambda>x. fst x = p) (concat (map (\<lambda>l. map (\<lambda>p. (p, l)) ps) ls)) = map (\<lambda>l. (p, l)) ls"
proof -
  have one: "filter (\<lambda>x. fst x = p) (map (\<lambda>p. (p, l)) ps) = [(p, l)]" for l
    using assms by (induction ps) (auto simp: filter_empty_conv)
  show ?thesis by (induction ls) (simp_all add: one)
qed

subsection \<open>Properties\<close>

text \<open>Property C24: The script fiu-ctrl and the remote control of the processes together: with options that are not deprecated, commands of the remote
  control and paths without blanks, every command in its order is sent to every process that the arguments name, and takes effect there
  before the next one: the points of failure of each process are afterwards those that the same sequence has on a map, processes that are not
  named keep theirs, every thread can go on, and the script prints exactly a message for each argument that names no process and one
  for each command whose result is an error.\<close>

theorem fiu_ctrl_session:
  assumes "opts \<noteq> [] \<or> args \<noteq> []" and "\<forall>opt\<in>set opts. ctrl_current opt" and "ctrl_commands opts = map rc_text ls"
    and "\<forall>l\<in>set ls. line_ok l \<and> length (rc_text l) < MAX_LINE" and "\<forall>i\<in>set args. one_word i"
    and "ctrl_fifo opts (k_fifo (ctrl_start tmpdir)) = fifo" and "\<forall>c\<in>set fifo. \<not> in_ifs c"
    and "\<forall>p\<in>set (reached pipe alive fifo args). fiu_ready_at 1 (w p) \<and> env_ok (envs p)"
    and "sends = concat (map (\<lambda>l. map (\<lambda>p. (p, l)) (reached pipe alive fifo args)) ls)"
  shows "\<exists>w'. fiu_ctrl pipe alive (exchange envs) tmpdir opts args w = Some (Ctrl_sent
      (concat (map unknown_target (filter (\<lambda>i. \<not> is_prefix pipe i \<and> \<not> is_pid pipe alive fifo i) args))
       @ concat (map2 complaint sends (fst (ctl_sends sends (\<lambda>p. points (w p)))))) w')
    \<and> (\<forall>p. points (w' p) = snd (ctl_sends sends (\<lambda>p. points (w p))) p)
    \<and> (\<forall>p. fiu_ready_at 1 (w p) \<and> env_ok (envs p) \<longrightarrow> fiu_ready_at 1 (w' p))"
  by (rule ctrl_session_run [OF assms])

text \<open>Two processes, one given by its number and one by its pipes, and a number of no process.\<close>

theorem fiu_ctrl_session_witness:
  "\<exists>s w'. fiu_init quiet_env fiu_start = Some (0, s)
     \<and> fiu_ctrl (\<lambda>f. f \<in> {''/tmp/fiu-ctrl-7.out'', ''/p.out''}) (\<lambda>ws. ws = [''7'']) (exchange (\<lambda>_. quiet_env)) None
         [CO_c (rc_text (L_enable ''a'' 1 0 False)), CO_c ''disable name=b''] [''/p'', ''7'', ''8''] (\<lambda>_. rec_inc s)
       = Some (Ctrl_sent [''Error: unknown pid or named pipe 8, skipping'', ''Note that options must come before the PID'',
          ''/tmp/fiu-ctrl-7: Command '' @ [CHR 0x27] @ ''disable name=b'' @ [CHR 0x27] @ '' returned error (-1)'',
          ''/p: Command '' @ [CHR 0x27] @ ''disable name=b'' @ [CHR 0x27] @ '' returned error (-1)''] w')
     \<and> points (w' ''/p'') ''a'' = Some (new_pf ''a'' 1 0 0 PF_ALWAYS M_unset) \<and> points (w' ''/q'') ''a'' = None"
proof -
  obtain s where s: "fiu_init quiet_env fiu_start = Some (0, s)" "fiu_ready s" "points s = Map.empty" by (rule quiet_start)
  let ?pipe = "\<lambda>f. f \<in> {''/tmp/fiu-ctrl-7.out'', ''/p.out''}" and ?alive = "\<lambda>ws. ws = [''7'']"
  let ?ls = "[L_enable ''a'' 1 0 False, L_disable ''b'']"
  let ?opts = "[CO_c (rc_text (L_enable ''a'' 1 0 False)), CO_c ''disable name=b'']" and ?args = "[''/p'', ''7'', ''8'']"
  have words: "one_word ''/p''" "one_word ''7''" "one_word ''8''" by (simp_all add: one_word_def in_ifs_def)
  have r: "reached ?pipe ?alive ''/tmp/fiu-ctrl'' ?args = [''/tmp/fiu-ctrl-7'', ''/p'']"
    "filter (\<lambda>i. \<not> is_prefix ?pipe i \<and> \<not> is_pid ?pipe ?alive ''/tmp/fiu-ctrl'' i) ?args = [''8'']"
    by (simp_all add: reached_def is_pid_def is_prefix_def in_ifs_def)
  have len: "length (dec_int 1) = 1" "length (dec_nat (unat (0 :: addr))) = 1" by (simp_all add: dec_int_def dec_nat.simps)
  have h: "?opts \<noteq> [] \<or> ?args \<noteq> []" "\<forall>opt\<in>set ?opts. ctrl_current opt" "ctrl_commands ?opts = map rc_text ?ls"
    "\<forall>l\<in>set ?ls. line_ok l \<and> length (rc_text l) < MAX_LINE" "\<forall>i\<in>set ?args. one_word i"
    "ctrl_fifo ?opts (k_fifo (ctrl_start None)) = ''/tmp/fiu-ctrl''" "\<forall>c\<in>set ''/tmp/fiu-ctrl''. \<not> in_ifs c"
    using words len by (simp_all add: word_ok_def MAX_LINE_def once_text_def ctrl_start_def ctrl_opts_reset_def in_ifs_def)
  have "\<forall>p\<in>set (reached ?pipe ?alive ''/tmp/fiu-ctrl'' ?args). fiu_ready_at 1 ((\<lambda>_. rec_inc s) p) \<and> env_ok ((\<lambda>_. quiet_env) p)"
    using rec_inc_ready(1) [OF s(2)] quiet_env_ok(1) by simp
  from fiu_ctrl_session [OF h this refl] s(1) show ?thesis
    unfolding r rec_inc_ready(2) s(3)
    by (auto simp: complaint_def unknown_target_def once_flags_def rec_inc_ready(2) s(3))
qed

end
