(* ===== verification/Fiu_Ls.thy ===== *)
theory Fiu_Ls
  imports Fiu_Ctrl
begin

text \<open>
  The script fiu-ls (utils/fiu-ls): it lists the processes that fiu-ctrl can control, by the names of their pipes. \<open>ls\<close> is what the program
  of that name prints for the words of its argument, \<open>pipe_r\<close> and \<open>pipe_w\<close> say which paths are named pipes that can be read and
  written, \<open>alive\<close> whether \<open>kill -0\<close> succeeds. What is modelled is the list of processes; the script prints each with its command line.
\<close>

subsection \<open>The script\<close>










subsection \<open>Which processes are listed\<close>












subsection \<open>Properties\<close>








end
