(* ===== verification/Init_Threads.thy ===== *)
theory Init_Threads
  imports Fiu_API
begin

text \<open>
  The initialization by several threads: the steps that any number of threads take through \<open>fiu_init\<close>, while others already call
  \<open>fiu_fail\<close>, in any interleaving. The library is one \<open>fiu\<close> record that all threads change; \<open>rec_count\<close>, which is
  a thread's own, is kept beside it. Every statement of \<open>fiu_init\<close> is a step. The readers of \<open>fiu_fail\<close> hold the lock for
  reading, many at a time, and look the name up in one step, as the lock of the cache makes it; no point of failure is enabled yet, so
  nothing follows the lookup.
\<close>

subsection \<open>Steps\<close>

text \<open>Where a thread is: outside; before it has the lock for writing; before the test of \<open>initialized\<close>; before each of the statements
  that follow; at the release of the lock, with the value to return; before the return. Then the same for \<open>fiu_fail\<close>.\<close>

datatype init_pc =
    I_out
  | I_want | I_test | I_key | I_table | I_fork | I_seed | I_prng | I_flag | I_unlock int | I_return int
  | F_want string | F_read string | F_release int | F_return int

text \<open>\<open>in_env\<close> is what the call of a thread finds outside the library; \<open>in_log\<close> are the calls that have had their
  effect, in that order, with the thread and the value that is returned; no step reads it.\<close>

record inits =
  in_lib :: fiu
  in_pc :: "nat \<Rightarrow> init_pc"
  in_env :: "nat \<Rightarrow> env"
  in_rec :: "nat \<Rightarrow> int"
  in_readers :: "nat set"
  in_log :: "(nat \<times> (env \<times> call) \<times> int) list"

definition inits_start :: "(nat \<Rightarrow> env) \<Rightarrow> inits" where
  "inits_start envs = \<lparr>in_lib = fiu_start, in_pc = (\<lambda>_. I_out), in_env = envs, in_rec = (\<lambda>_. 0), in_readers = {}, in_log = []\<rparr>"

definition to_pc :: "nat \<Rightarrow> init_pc \<Rightarrow> inits \<Rightarrow> inits" where
  "to_pc i c s = s\<lparr>in_pc := (in_pc s)(i := c)\<rparr>"

definition with_lib :: "fiu \<Rightarrow> inits \<Rightarrow> inits" where
  "with_lib l s = s\<lparr>in_lib := l\<rparr>"

definition rec_add :: "nat \<Rightarrow> int \<Rightarrow> inits \<Rightarrow> inits" where
  "rec_add i n s = s\<lparr>in_rec := (in_rec s)(i := in_rec s i + n)\<rparr>"

definition logged :: "nat \<Rightarrow> call \<Rightarrow> int \<Rightarrow> inits \<Rightarrow> inits" where
  "logged i c r s = s\<lparr>in_log := in_log s @ [(i, (in_env s i, c), r)]\<rparr>"

text \<open>The call that a thread that is outside makes next is the argument; inside, what it does next is determined. \<open>None\<close> is a
  thread that waits for the lock, or whose \<open>atoi\<close> has no defined value.\<close>

fun init_step :: "nat \<Rightarrow> string option \<Rightarrow> inits \<Rightarrow> inits option" where
  "init_step i c s = (let l = in_lib s; env = in_env s i in case in_pc s i of
     I_out \<Rightarrow> Some (to_pc i (case c of None \<Rightarrow> I_want | Some name \<Rightarrow> F_want name) (rec_add i 1 s))
   | I_want \<Rightarrow> if in_readers s = {} then map_option (\<lambda>l'. to_pc i I_test (with_lib l' s)) (ef_wlock l) else None
   | I_test \<Rightarrow> Some (to_pc i (if initialized l then I_unlock 0 else I_key) s)
   | I_key \<Rightarrow> Some (to_pc i I_table (with_lib (l\<lparr>key_created := True, last_failinfo := 0\<rparr>) s))
   | I_table \<Rightarrow> (let ok = e_create env in Some (to_pc i I_fork (with_lib (l\<lparr>enabled_fails :=
       wtable_create (ok 0) (ok 1) (ok 2) (ok 3) (ok 4) (ok 5) (ok 6) (e_junk env) (Ptr plain_destructor)\<rparr>) s)))
   | I_fork \<Rightarrow> Some (to_pc i (if e_atfork env \<noteq> 0 then I_unlock (-1) else I_seed) s)
   | I_seed \<Rightarrow> (case e_seed env of NULL \<Rightarrow> Some (to_pc i I_prng s)
       | Ptr e \<Rightarrow> map_option (\<lambda>n. to_pc i I_prng (with_lib (l\<lparr>gen := fiu_set_prng_seed (word_of_int n) (gen l)\<rparr>) s)) (atoi (Ptr e)))
   | I_prng \<Rightarrow> Some (to_pc i I_flag (with_lib (l\<lparr>gen := prng_seed (e_usec env) (gen l)\<rparr>) s))
   | I_flag \<Rightarrow> Some (to_pc i (I_unlock 0) (with_lib (l\<lparr>initialized := True\<rparr>) s))
   | I_unlock r \<Rightarrow> map_option (\<lambda>l'. to_pc i (I_return r) (logged i Init r (with_lib l' s))) (ef_unlock l)
   | I_return r \<Rightarrow> Some (to_pc i I_out (rec_add i (-1) s))
   | F_want name \<Rightarrow> if in_rec s i > 1 then Some (to_pc i (F_return 0) s)
       else if enabled_fails_lock l = Write_locked then None else Some (to_pc i (F_read name) (s\<lparr>in_readers := insert i (in_readers s)\<rparr>))
   | F_read name \<Rightarrow> map_option (\<lambda>(r, l'). to_pc i (F_release r) (logged i (Fail name) r (with_lib l' s))) (fiu_fail env name l)
   | F_release r \<Rightarrow> Some (to_pc i (F_return r) (s\<lparr>in_readers := in_readers s - {i}\<rparr>))
   | F_return r \<Rightarrow> Some (to_pc i I_out (rec_add i (-1) s)))"

declare init_step.simps [simp del]

inductive inits_reach :: "inits \<Rightarrow> bool" where
  start: "inits_reach (inits_start envs)"
| renew: "inits_reach s \<Longrightarrow> in_pc s i = I_out \<Longrightarrow> inits_reach (s\<lparr>in_env := (in_env s)(i := env)\<rparr>)"
| step: "inits_reach s \<Longrightarrow> init_step i c s = Some s' \<Longrightarrow> inits_reach s'"

subsection \<open>Invariant\<close>

text \<open>How far the thread that holds the lock for writing has changed the library \<open>l\<close> of the calls before it.\<close>

definition fresh_table :: "env \<Rightarrow> fiu \<Rightarrow> fiu" where
  "fresh_table env l = (let ok = e_create env in l\<lparr>key_created := True, last_failinfo := 0, enabled_fails :=
     wtable_create (ok 0) (ok 1) (ok 2) (ok 3) (ok 4) (ok 5) (ok 6) (e_junk env) (Ptr plain_destructor)\<rparr>)"

fun inside :: "init_pc \<Rightarrow> bool" where
  "inside I_test = True"
| "inside I_key = True"
| "inside I_table = True"
| "inside I_fork = True"
| "inside I_seed = True"
| "inside I_prng = True"
| "inside I_flag = True"
| "inside (I_unlock r) = True"
| "inside _ = False"

definition seeded :: "env \<Rightarrow> prng \<Rightarrow> prng option" where
  "seeded env g = (case e_seed env of NULL \<Rightarrow> Some g | Ptr e \<Rightarrow> map_option (\<lambda>n. fiu_set_prng_seed (word_of_int n) g) (atoi (Ptr e)))"

fun under_way :: "init_pc \<Rightarrow> env \<Rightarrow> fiu \<Rightarrow> fiu \<Rightarrow> bool" where
  "under_way I_test env l m \<longleftrightarrow> m = l"
| "under_way I_key env l m \<longleftrightarrow> \<not> initialized l \<and> m = l"
| "under_way I_table env l m \<longleftrightarrow> \<not> initialized l \<and> m = l\<lparr>key_created := True, last_failinfo := 0\<rparr>"
| "under_way I_fork env l m \<longleftrightarrow> \<not> initialized l \<and> m = fresh_table env l"
| "under_way I_seed env l m \<longleftrightarrow> \<not> initialized l \<and> e_atfork env = 0 \<and> m = fresh_table env l"
| "under_way I_prng env l m \<longleftrightarrow> \<not> initialized l \<and> e_atfork env = 0 \<and>
     (case seeded env (gen l) of None \<Rightarrow> False | Some g \<Rightarrow> m = (fresh_table env l)\<lparr>gen := g\<rparr>)"
| "under_way I_flag env l m \<longleftrightarrow> \<not> initialized l \<and> e_atfork env = 0 \<and>
     (case seeded env (gen l) of None \<Rightarrow> False | Some g \<Rightarrow> m = (fresh_table env l)\<lparr>gen := prng_seed (e_usec env) g\<rparr>)"
| "under_way (I_unlock r) env l m \<longleftrightarrow> fiu_init env l = Some (r, m)"
| "under_way _ env l m \<longleftrightarrow> False"

text \<open>The calls in the order of the log, one after the other.\<close>

definition sequential :: "inits \<Rightarrow> fiu \<Rightarrow> bool" where
  "sequential s l \<longleftrightarrow> do_calls (map (fst \<circ> snd) (in_log s)) fiu_start = Some (map (snd \<circ> snd) (in_log s), l)
     \<and> enabled_fails_lock l = Unlocked \<and> rec_count l = 0"

fun reads :: "init_pc \<Rightarrow> bool" where
  "reads (F_read name) = True"
| "reads (F_release r) = True"
| "reads _ = False"

definition lock_free :: "(nat \<Rightarrow> init_pc) \<Rightarrow> fiu \<Rightarrow> fiu \<Rightarrow> bool" where
  "lock_free c l m \<longleftrightarrow> m = l \<and> enabled_fails_lock m = Unlocked \<and> (\<forall>i. \<not> inside (c i))"

definition lock_held :: "nat \<Rightarrow> (nat \<Rightarrow> init_pc) \<Rightarrow> (nat \<Rightarrow> env) \<Rightarrow> fiu \<Rightarrow> fiu \<Rightarrow> bool" where
  "lock_held i c e l m \<longleftrightarrow> enabled_fails_lock m = Write_locked \<and> inside (c i) \<and> (\<forall>j. inside (c j) \<longrightarrow> j = i)
     \<and> under_way (c i) (e i) l (m\<lparr>enabled_fails_lock := Unlocked\<rparr>)"

definition inits_inv :: "inits \<Rightarrow> bool" where
  "inits_inv s \<longleftrightarrow> (\<exists>l. sequential s l \<and> (lock_free (in_pc s) l (in_lib s)
       \<or> in_readers s = {} \<and> (\<exists>i. lock_held i (in_pc s) (in_env s) l (in_lib s))))
   \<and> in_readers s = {i. reads (in_pc s i)} \<and> (\<forall>i. in_rec s i = (if in_pc s i = I_out then 0 else 1))"

lemma sequential_start: "sequential (inits_start envs) fiu_start"
  by (simp add: sequential_def inits_start_def fiu_start_def)

lemma do_calls_snoc: "do_calls (cs @ [(env, c)]) s = do {
     (rs, s1) \<leftarrow> do_calls cs s; (r, s2) \<leftarrow> do_call env c s1; Some (rs @ [r], s2) }"
  by (induction cs s rule: do_calls.induct) (auto simp: bind_assoc split: Option.bind_split prod.split)

lemma sequential_logged:
  assumes "sequential s l" and "do_call (in_env s i) c l = Some (r, l')" and "enabled_fails_lock l' = Unlocked" and "rec_count l' = 0"
  shows "sequential (logged i c r s) l'"
  using assms by (simp add: sequential_def logged_def do_calls_snoc)

lemma sequential_more [simp]:
  "sequential (to_pc i c s) l = sequential s l" "sequential (with_lib m s) l = sequential s l" "sequential (rec_add i n s) l = sequential s l"
  "sequential (s\<lparr>in_readers := R\<rparr>) l = sequential s l" "sequential (s\<lparr>in_env := E\<rparr>) l = sequential s l"
  by (simp_all add: sequential_def to_pc_def with_lib_def rec_add_def)

lemma inits_select [simp]:
  "in_pc (to_pc i c s) = (in_pc s)(i := c)" "in_lib (to_pc i c s) = in_lib s" "in_env (to_pc i c s) = in_env s" "in_rec (to_pc i c s) = in_rec s"
  "in_readers (to_pc i c s) = in_readers s" "in_log (to_pc i c s) = in_log s"
  "in_pc (with_lib m s) = in_pc s" "in_lib (with_lib m s) = m" "in_env (with_lib m s) = in_env s" "in_rec (with_lib m s) = in_rec s"
  "in_readers (with_lib m s) = in_readers s" "in_log (with_lib m s) = in_log s"
  "in_pc (rec_add i n s) = in_pc s" "in_lib (rec_add i n s) = in_lib s" "in_env (rec_add i n s) = in_env s"
  "in_rec (rec_add i n s) = (in_rec s)(i := in_rec s i + n)" "in_readers (rec_add i n s) = in_readers s" "in_log (rec_add i n s) = in_log s"
  "in_pc (logged i d r s) = in_pc s" "in_lib (logged i d r s) = in_lib s" "in_env (logged i d r s) = in_env s" "in_rec (logged i d r s) = in_rec s"
  "in_readers (logged i d r s) = in_readers s" "in_log (logged i d r s) = in_log s @ [(i, (in_env s i, d), r)]"
  by (simp_all add: to_pc_def with_lib_def rec_add_def logged_def)


lemma set_pf_lock [simp]: "enabled_fails_lock (set_pf p pf s) = enabled_fails_lock s" "rec_count (set_pf p pf s) = rec_count s"
  by (simp_all add: set_pf_def)

lemma pf_decide_lock:
  assumes "pf_decide env p s = Some (b, s')"
  shows "enabled_fails_lock s' = enabled_fails_lock s \<and> rec_count s' = rec_count s"
proof -
  obtain pf where pf: "pfs s p = Some pf" using assms by (auto simp: pf_decide_def bind_eq_Some)
  show ?thesis
    using assms pf by (cases "pf_method pf"; cases "pf_minfo pf") (auto simp: pf_decide_def Let_def split: prod.splits)
qed

lemma fail_point_lock: "fail_point env p s = Some (f, s') \<Longrightarrow> enabled_fails_lock s' = enabled_fails_lock s \<and> rec_count s' = rec_count s"
  by (auto simp: fail_point_def pf_lock_def pf_unlock_def bind_eq_Some Let_def dest!: pf_decide_lock split: if_splits)

lemma exit_lock:
  "fail_exit s = Some (r, s') \<Longrightarrow> enabled_fails_lock s' = Unlocked \<and> rec_count s' = rec_count s - 1"
  "fail_exit_fail p s = Some (r, s') \<Longrightarrow> enabled_fails_lock s' = Unlocked \<and> rec_count s' = rec_count s - 1"
  by (auto simp: fail_exit_def fail_exit_fail_def ef_unlock_def rec_dec_def pf_unlock_def bind_eq_Some Let_def split: if_splits)

lemma fiu_fail_lock:
  assumes "fiu_fail env name s = Some (r, s')" and "enabled_fails_lock s = Unlocked"
  shows "enabled_fails_lock s' = Unlocked \<and> rec_count s' = rec_count s"
proof (cases "rec_count s > 0")
  case True
  then show ?thesis using assms by (auto simp: fiu_fail_def rec_inc_def rec_dec_def Let_def)
next
  case False
  let ?s = "s\<lparr>rec_count := rec_count s + 1, enabled_fails_lock := Read_locked\<rparr>"
  have s: "fiu_fail env name s = (case enabled_fails s of
      NULL \<Rightarrow> fail_exit ?s
    | Ptr t \<Rightarrow> do { (pf, t') \<leftarrow> wtable_get (e_mem env) t name;
        case pf of NULL \<Rightarrow> fail_exit (?s\<lparr>enabled_fails := Ptr t'\<rparr>)
        | Ptr p \<Rightarrow> do { (fails, s4) \<leftarrow> fail_point env p (?s\<lparr>enabled_fails := Ptr t'\<rparr>);
            case fails of None \<Rightarrow> fail_exit s4 | Some p \<Rightarrow> fail_exit_fail p s4 } })"
    using False assms(2) by (simp add: fiu_fail_def rec_inc_def ef_rlock_def Let_def cong: ptr.case_cong)
  show ?thesis
    using assms(1) unfolding s
    by (auto dest!: exit_lock fail_point_lock split: ptr.split_asm option.split_asm prod.split_asm Option.bind_split_asm)
qed

lemma fiu_init_lock:
  assumes "fiu_init env s = Some (r, s')"
  shows "enabled_fails_lock s' = Unlocked \<and> rec_count s' = rec_count s"
  using assms by (auto simp: fiu_init_def rec_inc_def rec_dec_def ef_wlock_def ef_unlock_def bind_eq_Some Let_def split: if_splits ptr.splits)


lemma under_way_changes:
  "under_way I_key env l m \<Longrightarrow> under_way I_table env l (m\<lparr>key_created := True, last_failinfo := 0\<rparr>)"
  "under_way I_table env l m \<Longrightarrow> under_way I_fork env l (m\<lparr>enabled_fails := wtable_create (e_create env 0) (e_create env 1) (e_create env 2)
     (e_create env 3) (e_create env 4) (e_create env 5) (e_create env 6) (e_junk env) (Ptr plain_destructor)\<rparr>)"
  "under_way I_seed env l m \<Longrightarrow> seeded env (gen m) = Some g \<Longrightarrow> under_way I_prng env l (m\<lparr>gen := g\<rparr>)"
  "under_way I_prng env l m \<Longrightarrow> gen m = h \<Longrightarrow> under_way I_flag env l (m\<lparr>gen := prng_seed (e_usec env) h\<rparr>)"
  by (auto simp: fresh_table_def Let_def split: option.splits)

lemma under_way_steps:
  assumes "under_way c env l m" and "enabled_fails_lock l = Unlocked" and "rec_count l = 0"
  shows "c = I_test \<Longrightarrow> initialized m \<Longrightarrow> under_way (I_unlock 0) env l m"
    and "c = I_test \<Longrightarrow> \<not> initialized m \<Longrightarrow> under_way I_key env l m"
    and "c = I_fork \<Longrightarrow> e_atfork env \<noteq> 0 \<Longrightarrow> under_way (I_unlock (-1)) env l m"
    and "c = I_flag \<Longrightarrow> under_way (I_unlock 0) env l (m\<lparr>initialized := True\<rparr>)"
proof -
  have l: "l\<lparr>enabled_fails_lock := Unlocked\<rparr> = l" "l\<lparr>rec_count := 0\<rparr> = l" "l\<lparr>enabled_fails_lock := Unlocked, rec_count := 0\<rparr> = l"
    using assms(2,3) by (cases l; simp)+
  note d = fiu_init_def rec_inc_def rec_dec_def ef_wlock_def ef_unlock_def fresh_table_def Let_def seeded_def
  show "c = I_test \<Longrightarrow> initialized m \<Longrightarrow> under_way (I_unlock 0) env l m"
    and "c = I_test \<Longrightarrow> \<not> initialized m \<Longrightarrow> under_way I_key env l m"
    using assms by (cases l; simp add: d)+
  show "c = I_fork \<Longrightarrow> e_atfork env \<noteq> 0 \<Longrightarrow> under_way (I_unlock (-1)) env l m"
    using assms by (cases l; simp add: d)
  show "c = I_flag \<Longrightarrow> under_way (I_unlock 0) env l (m\<lparr>initialized := True\<rparr>)"
    using assms by (cases l; cases "e_seed env"; auto simp: d bind_eq_Some split: option.splits)
qed


lemma inside_not: "inside c \<Longrightarrow> c \<noteq> I_out \<and> \<not> reads c"
  by (cases c) simp_all

lemma inv_inside:
  assumes "inits_inv s" and "inside (in_pc s i)"
  obtains l where "sequential s l" "lock_held i (in_pc s) (in_env s) l (in_lib s)" "in_readers s = {}"
    "enabled_fails_lock l = Unlocked" "rec_count l = 0"
proof -
  obtain l k where l: "sequential s l" "lock_held k (in_pc s) (in_env s) l (in_lib s)" "in_readers s = {}"
    using assms unfolding inits_inv_def lock_free_def by blast
  then have "k = i" using assms(2) by (auto simp: lock_held_def)
  with l that show ?thesis by (auto simp: sequential_def)
qed

lemma inv_rest:
  assumes "inits_inv s"
  shows "in_readers s = {i. reads (in_pc s i)}" "in_rec s i = (if in_pc s i = I_out then 0 else 1)"
  using assms by (simp_all add: inits_inv_def)

lemma inv_to_inside:
  assumes "inits_inv s" and "inside (in_pc s i)" and "inside c" and "enabled_fails_lock m = Write_locked"
    and "\<And>l. enabled_fails_lock l = Unlocked \<Longrightarrow> rec_count l = 0
      \<Longrightarrow> under_way (in_pc s i) (in_env s i) l ((in_lib s)\<lparr>enabled_fails_lock := Unlocked\<rparr>)
      \<Longrightarrow> under_way c (in_env s i) l (m\<lparr>enabled_fails_lock := Unlocked\<rparr>)"
  shows "inits_inv (to_pc i c (with_lib m s))"
proof -
  obtain l where l: "sequential s l" "lock_held i (in_pc s) (in_env s) l (in_lib s)" "in_readers s = {}"
    "enabled_fails_lock l = Unlocked" "rec_count l = 0"
    using inv_inside [OF assms(1,2)] by metis
  have "lock_held i ((in_pc s)(i := c)) (in_env s) l m"
    using l(2) assms(3,4) assms(5) [OF l(4,5)] by (auto simp: lock_held_def)
  moreover have "{j. reads (((in_pc s)(i := c)) j)} = {}"
    using l(3) inv_rest(1) [OF assms(1)] inside_not [OF assms(3)] by auto
  ultimately show ?thesis
    using l(1,3) inv_rest(2) [OF assms(1)] inside_not [OF assms(2)] inside_not [OF assms(3)] by (auto simp: inits_inv_def)
qed

lemma inv_start: "inits_inv (inits_start envs)"
proof -
  have "lock_free (in_pc (inits_start envs)) fiu_start (in_lib (inits_start envs))"
    by (simp add: lock_free_def inits_start_def fiu_start_def)
  with sequential_start [of envs] show ?thesis by (auto simp: inits_inv_def inits_start_def)
qed

text \<open>A step that leaves the library and the lock as they are.\<close>

lemma inv_outside:
  assumes "inits_inv s" and "\<not> inside (in_pc s i)" and "\<not> inside c"
    and "in_lib s' = in_lib s" and "in_env s' = (in_env s)(i := env)" and "in_log s' = in_log s" and "in_pc s' = (in_pc s)(i := c)"
    and "in_rec s' = (in_rec s)(i := (if c = I_out then 0 else 1))"
    and "in_readers s' = (if reads c then insert i (in_readers s) else in_readers s - {i})"
    and "enabled_fails_lock (in_lib s) = Write_locked \<Longrightarrow> \<not> reads c"
  shows "inits_inv s'"
proof -
  have q: "sequential s' = sequential s" using assms(6) by (simp add: sequential_def fun_eq_iff)
  obtain l where l: "sequential s l" "lock_free (in_pc s) l (in_lib s)
       \<or> in_readers s = {} \<and> (\<exists>i. lock_held i (in_pc s) (in_env s) l (in_lib s))"
    using assms(1) unfolding inits_inv_def by blast
  have "lock_free (in_pc s') l (in_lib s') \<or> in_readers s' = {} \<and> (\<exists>i. lock_held i (in_pc s') (in_env s') l (in_lib s'))"
    using l(2)
  proof
    assume "lock_free (in_pc s) l (in_lib s)"
    then show ?thesis using assms(3,4,7) by (auto simp: lock_free_def)
  next
    assume h: "in_readers s = {} \<and> (\<exists>i. lock_held i (in_pc s) (in_env s) l (in_lib s))"
    then obtain k where k: "lock_held k (in_pc s) (in_env s) l (in_lib s)" by blast
    then have "k \<noteq> i" "\<not> reads c" using assms(2,10) by (auto simp: lock_held_def)
    with k h assms(3-5,7,9) show ?thesis by (auto simp: lock_held_def intro!: exI [of _ k])
  qed
  moreover have "in_readers s' = {j. reads (in_pc s' j)}" using inv_rest(1) [OF assms(1)] assms(7,9) by auto
  moreover have "in_rec s' j = (if in_pc s' j = I_out then 0 else 1)" for j using inv_rest(2) [OF assms(1)] assms(7,8) by simp
  ultimately show ?thesis using l(1) unfolding inits_inv_def q by blast
qed


lemma inv_unlocked:
  assumes "inits_inv s" and "enabled_fails_lock (in_lib s) = Unlocked"
  shows "sequential s (in_lib s)" "\<not> inside (in_pc s i)" "in_readers s = {i. reads (in_pc s i)}"
  using assms by (auto simp: inits_inv_def lock_free_def lock_held_def)

lemma inv_wlock:
  assumes "inits_inv s" and "in_pc s i = I_want" and "in_readers s = {}" and "ef_wlock (in_lib s) = Some l'"
  shows "inits_inv (to_pc i I_test (with_lib l' s))"
proof -
  have u: "enabled_fails_lock (in_lib s) = Unlocked" "l' = (in_lib s)\<lparr>enabled_fails_lock := Write_locked\<rparr>"
    using assms(4) by (auto simp: ef_wlock_def split: if_splits)
  have same: "(in_lib s)\<lparr>enabled_fails_lock := Unlocked\<rparr> = in_lib s" using u(1) by (cases "in_lib s") simp
  note v = inv_unlocked [OF assms(1) u(1)]
  have "lock_held i ((in_pc s)(i := I_test)) (in_env s) (in_lib s) l'"
    using v(2) by (auto simp: lock_held_def u(2) same)
  then show ?thesis using v(1,3) assms(2,3) inv_rest(2) [OF assms(1)] by (auto simp: inits_inv_def)
qed

lemma inv_unlock:
  assumes "inits_inv s" and "in_pc s i = I_unlock r" and "ef_unlock (in_lib s) = Some l'"
  shows "inits_inv (to_pc i (I_return r) (logged i Init r (with_lib l' s)))"
proof -
  have i: "inside (in_pc s i)" using assms(2) by simp
  obtain l where l: "sequential s l" "lock_held i (in_pc s) (in_env s) l (in_lib s)" "in_readers s = {}"
    "enabled_fails_lock l = Unlocked" "rec_count l = 0"
    using inv_inside [OF assms(1) i] by metis
  have u: "l' = (in_lib s)\<lparr>enabled_fails_lock := Unlocked\<rparr>" using assms(3) by (auto simp: ef_unlock_def split: if_splits)
  have run: "fiu_init (in_env s i) l = Some (r, l')" using l(2) assms(2) by (simp add: lock_held_def u)
  note k = fiu_init_lock [OF run]
  have "sequential (logged i Init r (with_lib l' s)) l'"
    using sequential_logged [of "with_lib l' s" l i Init r l'] l(1,5) run k by simp
  moreover have "lock_free ((in_pc s)(i := I_return r)) l' l'" using l(2) k by (auto simp: lock_free_def lock_held_def)
  ultimately show ?thesis using l(3) inv_rest [OF assms(1)] assms(2) by (auto simp: inits_inv_def)
qed

lemma inv_read:
  assumes "inits_inv s" and "in_pc s i = F_read name" and "fiu_fail (in_env s i) name (in_lib s) = Some (r, l')"
  shows "inits_inv (to_pc i (F_release r) (logged i (Fail name) r (with_lib l' s)))"
proof -
  have "i \<in> in_readers s" using inv_rest(1) [OF assms(1)] assms(2) by simp
  then have u: "enabled_fails_lock (in_lib s) = Unlocked" using assms(1) by (auto simp: inits_inv_def lock_free_def)
  note v = inv_unlocked [OF assms(1) u]
  have k: "enabled_fails_lock l' = Unlocked" "rec_count l' = 0"
    using fiu_fail_lock [OF assms(3) u] v(1) by (simp_all add: sequential_def)
  have "sequential (logged i (Fail name) r (with_lib l' s)) l'"
    using sequential_logged [of "with_lib l' s" "in_lib s" i "Fail name" r l'] v(1) assms(3) k by simp
  moreover have "lock_free ((in_pc s)(i := F_release r)) l' l'" using v(2) k by (auto simp: lock_free_def)
  ultimately show ?thesis using inv_rest [OF assms(1)] assms(2) by (auto simp: inits_inv_def)
qed

lemma inv_change:
  assumes "inits_inv s" and "inside (in_pc s i)" and "inside c" and "enabled_fails_lock (f (in_lib s)) = Write_locked"
    and "(f (in_lib s))\<lparr>enabled_fails_lock := Unlocked\<rparr> = f ((in_lib s)\<lparr>enabled_fails_lock := Unlocked\<rparr>)"
    and "\<And>l m. under_way (in_pc s i) (in_env s i) l m \<Longrightarrow> gen m = gen (in_lib s) \<Longrightarrow> enabled_fails_lock l = Unlocked
      \<Longrightarrow> rec_count l = 0 \<Longrightarrow> under_way c (in_env s i) l (f m)"
  shows "inits_inv (to_pc i c (with_lib (f (in_lib s)) s))"
  by (rule inv_to_inside [OF assms(1-4)]) (simp add: assms(5,6))

lemma inv_move:
  assumes "inits_inv s" and "inside (in_pc s i)" and "inside c"
    and "\<And>l m. enabled_fails_lock l = Unlocked \<Longrightarrow> rec_count l = 0 \<Longrightarrow> m = (in_lib s)\<lparr>enabled_fails_lock := Unlocked\<rparr>
      \<Longrightarrow> under_way (in_pc s i) (in_env s i) l m \<Longrightarrow> under_way c (in_env s i) l m"
  shows "inits_inv (to_pc i c s)"
proof -
  have "enabled_fails_lock (in_lib s) = Write_locked" using inv_inside [OF assms(1,2)] by (auto simp: lock_held_def)
  then have "inits_inv (to_pc i c (with_lib (in_lib s) s))" using inv_to_inside [OF assms(1-3), of "in_lib s"] assms(4) by auto
  then show ?thesis by (simp add: with_lib_def)
qed

lemma inv_renew:
  assumes "inits_inv s" and "in_pc s i = I_out"
  shows "inits_inv (s\<lparr>in_env := (in_env s)(i := env)\<rparr>)"
  by (rule inv_outside [OF assms(1), of i I_out]) (use inv_rest [OF assms(1)] assms(2) in \<open>auto simp: fun_eq_iff\<close>)


lemma inv_step:
  assumes "inits_inv s" and "init_step i c s = Some s'"
  shows "inits_inv s'"
proof -
  note step = assms(2) [unfolded init_step.simps Let_def]
  note rest = inv_rest [OF assms(1)]
  have out: "inits_inv s'" if "\<not> inside (in_pc s i)" "s' = to_pc i d t" "\<not> inside d" "in_lib t = in_lib s" "in_env t = in_env s"
    "in_log t = in_log s" "in_pc t = in_pc s" "in_rec t = (in_rec s)(i := (if d = I_out then 0 else 1))"
    "in_readers t = (if reads d then insert i (in_readers s) else in_readers s - {i})"
    "enabled_fails_lock (in_lib s) = Write_locked \<Longrightarrow> \<not> reads d" for d t
    by (rule inv_outside [OF assms(1) that(1,3), of s' "in_env s i"]) (use that in auto)
  have locked: "enabled_fails_lock (in_lib s) = Write_locked" if "inside (in_pc s i)"
    using inv_inside [OF assms(1) that] by (auto simp: lock_held_def)
  show ?thesis
  proof (cases "in_pc s i")
    case I_out
    show ?thesis
    proof (rule out)
      show "s' = to_pc i (case c of None \<Rightarrow> I_want | Some name \<Rightarrow> F_want name) (rec_add i 1 s)" using I_out step by simp
    qed (use I_out rest in \<open>auto split: option.splits\<close>)
  next
    case I_want
    then show ?thesis using step inv_wlock [OF assms(1)] by (auto split: if_splits)
  next
    case I_test
    then have s': "s' = to_pc i (if initialized (in_lib s) then I_unlock 0 else I_key) s" using step by simp
    show ?thesis unfolding s'
      by (rule inv_move [OF assms(1)]) (use I_test under_way_steps(1,2) in auto)
  next
    case I_key
    then have s': "s' = to_pc i I_table (with_lib ((\<lambda>l. l\<lparr>key_created := True, last_failinfo := 0\<rparr>) (in_lib s)) s)" using step by simp
    show ?thesis unfolding s'
      by (rule inv_change [OF assms(1)]) (use I_key locked under_way_changes(1) in simp_all)
  next
    case I_table
    let ?f = "\<lambda>l. l\<lparr>enabled_fails := wtable_create (e_create (in_env s i) 0) (e_create (in_env s i) 1) (e_create (in_env s i) 2)
      (e_create (in_env s i) 3) (e_create (in_env s i) 4) (e_create (in_env s i) 5) (e_create (in_env s i) 6) (e_junk (in_env s i))
      (Ptr plain_destructor)\<rparr>"
    have s': "s' = to_pc i I_fork (with_lib (?f (in_lib s)) s)" using I_table step by simp
    show ?thesis unfolding s'
      by (rule inv_change [OF assms(1)]) (use I_table locked under_way_changes(2) in simp_all)
  next
    case I_fork
    then have s': "s' = to_pc i (if e_atfork (in_env s i) \<noteq> 0 then I_unlock (-1) else I_seed) s" using step by simp
    show ?thesis unfolding s'
      by (rule inv_move [OF assms(1)]) (use I_fork under_way_steps(3) in auto)
  next
    case I_seed
    then obtain g where g: "seeded (in_env s i) (gen (in_lib s)) = Some g"
      "s' = to_pc i I_prng (with_lib ((\<lambda>l. l\<lparr>gen := g\<rparr>) (in_lib s)) s)"
      using step by (auto simp: seeded_def with_lib_def split: ptr.splits)
    show ?thesis unfolding g(2)
      by (rule inv_change [OF assms(1)]) (use I_seed locked g(1) under_way_changes(3) in simp_all)
  next
    case I_prng
    then have s': "s' = to_pc i I_flag (with_lib ((\<lambda>l. l\<lparr>gen := prng_seed (e_usec (in_env s i)) (gen (in_lib s))\<rparr>) (in_lib s)) s)"
      using step by simp
    show ?thesis unfolding s'
      by (rule inv_change [OF assms(1)]) (use I_prng locked under_way_changes(4) in simp_all)
  next
    case I_flag
    then have s': "s' = to_pc i (I_unlock 0) (with_lib ((\<lambda>l. l\<lparr>initialized := True\<rparr>) (in_lib s)) s)" using step by simp
    show ?thesis unfolding s'
      by (rule inv_change [OF assms(1)]) (use I_flag locked under_way_steps(4) in simp_all)
  next
    case (I_unlock r)
    then show ?thesis using step inv_unlock [OF assms(1)] by auto
  next
    case (I_return r)
    show ?thesis
    proof (rule out)
      show "s' = to_pc i I_out (rec_add i (-1) s)" using I_return step by simp
    qed (use I_return rest in auto)
  next
    case (F_want name)
    then have w: "in_rec s i = 1" using rest by simp
    then have r: "enabled_fails_lock (in_lib s) \<noteq> Write_locked"
      "s' = to_pc i (F_read name) (s\<lparr>in_readers := insert i (in_readers s)\<rparr>)" using F_want step by (simp_all split: if_splits)
    show ?thesis by (rule out [OF _ r(2)]) (use F_want w r(1) in auto)
  next
    case (F_read name)
    then show ?thesis using step inv_read [OF assms(1)] by auto
  next
    case (F_release r)
    show ?thesis
    proof (rule out)
      show "s' = to_pc i (F_return r) (s\<lparr>in_readers := in_readers s - {i}\<rparr>)" using F_release step by simp
    qed (use F_release rest in auto)
  next
    case (F_return r)
    show ?thesis
    proof (rule out)
      show "s' = to_pc i I_out (rec_add i (-1) s)" using F_return step by simp
    qed (use F_return rest in auto)
  qed
qed


lemma reach_inv: "inits_reach s \<Longrightarrow> inits_inv s"
  by (induction rule: inits_reach.induct) (auto intro: inv_start inv_renew inv_step)

text \<open>A value that is about to be returned is that of a logged call of the thread.\<close>

definition answered :: "nat \<Rightarrow> inits \<Rightarrow> bool" where
  "answered i s \<longleftrightarrow> (case in_pc s i of
       I_return r \<Rightarrow> \<exists>e. (i, (e, Init), r) \<in> set (in_log s)
     | F_release r \<Rightarrow> \<exists>e name. (i, (e, Fail name), r) \<in> set (in_log s)
     | F_return r \<Rightarrow> \<exists>e name. (i, (e, Fail name), r) \<in> set (in_log s)
     | _ \<Rightarrow> True)"

lemma step_others:
  assumes "init_step i c s = Some s'"
  shows "j \<noteq> i \<Longrightarrow> in_pc s' j = in_pc s j" and "set (in_log s) \<subseteq> set (in_log s')"
  using assms by (auto simp: init_step.simps Let_def split: init_pc.splits option.splits ptr.splits if_splits)

lemma answered_mono:
  "answered j s \<Longrightarrow> in_pc s' j = in_pc s j \<Longrightarrow> set (in_log s) \<subseteq> set (in_log s') \<Longrightarrow> answered j s'"
  by (auto simp: answered_def split: init_pc.splits)

lemma answered_own:
  assumes "inits_inv s" and "answered i s" and "init_step i c s = Some s'"
  shows "answered i s'"
proof (cases "in_pc s i")
  case (F_want name)
  then show ?thesis using assms inv_rest(2) [OF assms(1), of i] by (auto simp: init_step.simps answered_def split: if_splits)
next
  case (F_read name)
  then obtain r l' where "s' = to_pc i (F_release r) (logged i (Fail name) r (with_lib l' s))" using assms(3) by (auto simp: init_step.simps)
  then show ?thesis by (auto simp: answered_def)
next
  case (F_release r)
  then have "in_pc s' i = F_return r" "in_log s' = in_log s" using assms(3) by (auto simp: init_step.simps)
  with F_release assms(2) show ?thesis by (simp add: answered_def)
qed (use assms(2,3) in \<open>auto simp: init_step.simps Let_def answered_def split: option.splits ptr.splits if_splits\<close>)

lemma reach_answered: "inits_reach s \<Longrightarrow> answered j s"
proof (induction rule: inits_reach.induct)
  case (start envs)
  then show ?case by (simp add: answered_def inits_start_def)
next
  case (renew s i env)
  then show ?case by (auto intro: answered_mono)
next
  case (step s i c s')
  then show ?case
    by (cases "j = i") (auto intro: answered_own reach_inv answered_mono dest: step_others)
qed

subsection \<open>One library\<close>

text \<open>The library after calls of \<open>fiu_init\<close> and \<open>fiu_fail\<close> that all found a good environment.\<close>

fun init_or_fail :: "call \<Rightarrow> bool" where
  "init_or_fail Init = True"
| "init_or_fail (Fail name) = True"
| "init_or_fail _ = False"

definition first_init :: "(env \<times> call) list \<Rightarrow> env option" where
  "first_init cs = map_option fst (find (\<lambda>(env, c). c = Init) cs)"

definition made_by :: "env option \<Rightarrow> fiu \<Rightarrow> bool" where
  "made_by e l \<longleftrightarrow> (case e of None \<Rightarrow> l = fiu_start
     | Some env \<Rightarrow> fiu_ready l \<and> points l = Map.empty \<and> (\<exists>l0. fiu_init env fiu_start = Some (0, l0) \<and> gen l = gen l0))"

lemma made_by_fail:
  assumes "made_by e l" and "env_ok env"
  shows "\<exists>l'. fiu_fail env name l = Some (0, l') \<and> made_by e l'"
proof (cases e)
  case None
  then show ?thesis using assms fiu_fail_before_init by (simp add: made_by_def)
next
  case (Some env0)
  then have l: "fiu_ready l" "points l = Map.empty" using assms(1) by (simp_all add: made_by_def)
  have inv: "fiu_inv l" using l(1) by (simp add: fiu_ready_at_def)
  have ans: "answer_pf l name = None" using answer_pf_answers [OF inv, of name] l(2) by (auto simp: answers_def)
  have e: "callbacks_keep_onetime env" "e_mem env = mem_ok" using assms(2) by (simp_all add: env_ok_def)
  from fiu_fail_ok [OF inv e, of name] obtain l' where "fiu_fail env name l = Some (0, l')" "fiu_inv l'"
    "enabled_fails l' = NULL \<longleftrightarrow> enabled_fails l = NULL" "initialized l' = initialized l" "points l' = points l" "gen l' = gen l"
    unfolding ans option.case by blast
  with assms(1) Some show ?thesis by (auto simp: made_by_def fiu_ready_at_def)
qed

lemma made_by_init:
  assumes "made_by e l" and "env_good env"
  shows "\<exists>l'. fiu_init env l = Some (0, l') \<and> made_by (if e = None then Some env else e) l'"
proof (cases e)
  case None
  then have "l = fiu_start" using assms(1) by (simp add: made_by_def)
  with None fiu_init_start [OF assms(2)] show ?thesis by (auto simp: made_by_def)
next
  case (Some env0)
  with assms(1) have "fiu_init env l = Some (0, l)" by (intro fiu_init_again) (simp add: made_by_def)
  with assms(1) Some show ?thesis by auto
qed

lemma made_by_calls:
  assumes "made_by e l" and "\<forall>ec\<in>set cs. env_good (fst ec) \<and> init_or_fail (snd ec)" and "do_calls cs l = Some (rs, l')"
  shows "set rs \<subseteq> {0} \<and> made_by (if e = None then first_init cs else e) l'"
  using assms
proof (induction cs arbitrary: e l rs)
  case Nil
  then show ?case by (auto simp: first_init_def)
next
  case (Cons ec cs)
  obtain env c where ec: "ec = (env, c)" by fastforce
  obtain r l1 rs' where d: "do_call env c l = Some (r, l1)" "do_calls cs l1 = Some (rs', l')" "rs = r # rs'"
    using Cons.prems(3) by (auto simp: ec bind_eq_Some)
  have g: "env_good env" "env_ok env" using Cons.prems(2) by (auto simp: ec env_good_def)
  show ?case
  proof (cases "c = Init")
    case True
    then have "r = 0" "made_by (if e = None then Some env else e) l1" using made_by_init [OF Cons.prems(1) g(1)] d(1) by auto
    with Cons.IH [OF this(2) _ d(2)] Cons.prems(2) True show ?thesis by (auto simp: ec d(3) first_init_def)
  next
    case False
    then obtain name where "c = Fail name" using Cons.prems(2) by (cases c) (auto simp: ec)
    then have "r = 0" "made_by e l1" using made_by_fail [OF Cons.prems(1) g(2), of name] d(1) by auto
    with Cons.IH [OF this(2) _ d(2)] Cons.prems(2) False show ?thesis by (auto simp: ec d(3) first_init_def)
  qed
qed


lemma reach_logs: "inits_reach s \<Longrightarrow> \<forall>x\<in>set (in_log s). init_or_fail (snd (fst (snd x)))"
proof (induction rule: inits_reach.induct)
  case (step s i c s')
  then show ?case by (auto simp: init_step.simps Let_def split: init_pc.splits option.splits ptr.splits if_splits)
qed (simp_all add: inits_start_def)

lemma reach_made_by:
  assumes "inits_reach s" and "\<forall>x\<in>set (in_log s). env_good (fst (fst (snd x)))" and "sequential s l"
  shows "(\<forall>x\<in>set (in_log s). snd (snd x) = 0) \<and> made_by (first_init (map (fst \<circ> snd) (in_log s))) l"
proof -
  have "made_by None fiu_start" by (simp add: made_by_def)
  moreover have "\<forall>ec\<in>set (map (fst \<circ> snd) (in_log s)). env_good (fst ec) \<and> init_or_fail (snd ec)"
    using assms(2) reach_logs [OF assms(1)] by auto
  moreover have "do_calls (map (fst \<circ> snd) (in_log s)) fiu_start = Some (map (snd \<circ> snd) (in_log s), l)"
    using assms(3) by (simp add: sequential_def)
  ultimately show ?thesis using made_by_calls [of None fiu_start "map (fst \<circ> snd) (in_log s)"] by fastforce
qed

text \<open>While a call is under way, somebody can take a step: the thread that holds the lock for writing, or a reader, or one that waits.\<close>

lemma holder_steps:
  assumes "inits_inv s" and "inside (in_pc s i)" and "env_good (in_env s i)"
  shows "init_step i c s \<noteq> None"
proof -
  have u: "enabled_fails_lock (in_lib s) = Write_locked" using inv_inside [OF assms(1,2)] by (auto simp: lock_held_def)
  show ?thesis
    using assms(2,3) u
    by (cases "in_pc s i") (auto simp: init_step.simps Let_def ef_unlock_def env_good_def split: ptr.splits)
qed

lemma reader_can_step:
  assumes "inits_inv s" and "reads (in_pc s i)" and "env_ok (in_env s i)" and "made_by e (in_lib s)"
  shows "init_step i c s \<noteq> None"
proof (cases "in_pc s i")
  case (F_read name)
  then show ?thesis using made_by_fail [OF assms(4,3), of name] by (auto simp: init_step.simps)
qed (use assms(2) in \<open>auto simp: init_step.simps\<close>)

lemma someone_steps:
  assumes "inits_inv s" and "in_pc s i \<noteq> I_out" and "\<forall>j. env_good (in_env s j)" and "\<And>l. sequential s l \<Longrightarrow> made_by e l"
  shows "\<exists>j. in_pc s j \<noteq> I_out \<and> init_step j None s \<noteq> None"
proof (cases "enabled_fails_lock (in_lib s) = Unlocked")
  case False
  then obtain j where j: "inside (in_pc s j)" using assms(1) by (auto simp: inits_inv_def lock_free_def lock_held_def)
  with holder_steps [OF assms(1) j] assms(3) inside_not [OF j] show ?thesis by blast
next
  case True
  note v = inv_unlocked [OF assms(1) True]
  show ?thesis
  proof (cases "in_readers s = {}")
    case False
    then obtain j where j: "reads (in_pc s j)" using v(3) by auto
    moreover have "env_ok (in_env s j)" using assms(3) by (simp add: env_good_def)
    ultimately have "init_step j None s \<noteq> None" using reader_can_step [OF assms(1) j] assms(4) [OF v(1)] by blast
    then show ?thesis using j by (intro exI [of _ j]) auto
  next
    case none: True
    have "\<not> reads (in_pc s i)" "\<not> inside (in_pc s i)" using none v by auto
    then have "init_step i None s \<noteq> None"
      using assms(2) none True by (cases "in_pc s i") (auto simp: init_step.simps Let_def ef_wlock_def)
    with assms(2) show ?thesis by blast
  qed
qed

subsection \<open>Properties\<close>

text \<open>Property C13: Threads that call \<open>fiu_init\<close> at the same time, and others that already call \<open>fiu_fail\<close>, see what the same calls
  one after the other would give: in every interleaving the calls that have had their effect, in the order in which they had it,
  are a run of the sequential library from its start, which returns exactly the values that the threads return; whenever no thread
  holds the lock for writing the library is exactly the result of that run, at most one thread is between the lock and its release,
  and then nobody reads.\<close>

theorem concurrent_inits:
  assumes "inits_reach s"
  shows "(\<exists>l. do_calls (map (fst \<circ> snd) (in_log s)) fiu_start = Some (map (snd \<circ> snd) (in_log s), l)
      \<and> (enabled_fails_lock (in_lib s) = Unlocked \<longrightarrow> in_lib s = l)
      \<and> (\<forall>i j. inside (in_pc s i) \<and> inside (in_pc s j) \<longrightarrow> i = j)
      \<and> (\<forall>i j. inside (in_pc s i) \<longrightarrow> \<not> reads (in_pc s j)))
    \<and> (in_pc s i = I_return r \<longrightarrow> (\<exists>e. (i, (e, Init), r) \<in> set (in_log s)))
    \<and> (in_pc s i = F_return r \<longrightarrow> (\<exists>e name. (i, (e, Fail name), r) \<in> set (in_log s)))"
proof (intro conjI impI)
  have inv: "inits_inv s" using assms by (rule reach_inv)
  have one: "j = k" if "inside (in_pc s j)" "inside (in_pc s k)" for j k
    using inv_inside [OF inv that(1)] that(2) by (auto simp: lock_held_def)
  have alone: "\<not> reads (in_pc s k)" if "inside (in_pc s j)" for j k
    using inv_inside [OF inv that] inv_rest(1) [OF inv] by auto
  obtain l where l: "sequential s l" "enabled_fails_lock (in_lib s) = Unlocked \<longrightarrow> in_lib s = l"
    using inv inv_unlocked(1) [OF inv] unfolding inits_inv_def by (cases "enabled_fails_lock (in_lib s) = Unlocked") blast+
  show "\<exists>l. do_calls (map (fst \<circ> snd) (in_log s)) fiu_start = Some (map (snd \<circ> snd) (in_log s), l)
      \<and> (enabled_fails_lock (in_lib s) = Unlocked \<longrightarrow> in_lib s = l)
      \<and> (\<forall>i j. inside (in_pc s i) \<and> inside (in_pc s j) \<longrightarrow> i = j)
      \<and> (\<forall>i j. inside (in_pc s i) \<longrightarrow> \<not> reads (in_pc s j))"
    using l one alone by (intro exI [of _ l]) (auto simp: sequential_def)
qed (use reach_answered [OF assms, of i] in \<open>auto simp: answered_def\<close>)


text \<open>Property C14: The library is initialized once: when the environments of the calls are good, every \<open>fiu_init\<close> and every
  \<open>fiu_fail\<close> returns 0; while no thread holds the lock for writing the library is untouched if no \<open>fiu_init\<close> has had its
  effect, and otherwise ready, without points of failure, and its generator is the one that the first of them alone would leave: no later
  call seeds it again; and as long as a call is under way some thread that is in a call can take a step.\<close>

theorem initialized_once:
  assumes "inits_reach s" and "\<forall>x\<in>set (in_log s). env_good (fst (fst (snd x)))" and "\<forall>j. env_good (in_env s j)"
  shows "(\<forall>x\<in>set (in_log s). snd (snd x) = 0)
    \<and> (enabled_fails_lock (in_lib s) = Unlocked \<longrightarrow> (case first_init (map (fst \<circ> snd) (in_log s)) of
         None \<Rightarrow> in_lib s = fiu_start
       | Some env \<Rightarrow> fiu_ready (in_lib s) \<and> points (in_lib s) = Map.empty
           \<and> (\<exists>l0. fiu_init env fiu_start = Some (0, l0) \<and> gen (in_lib s) = gen l0)))
    \<and> (in_pc s i \<noteq> I_out \<longrightarrow> (\<exists>j. in_pc s j \<noteq> I_out \<and> init_step j None s \<noteq> None))"
proof (intro conjI impI)
  note inv = reach_inv [OF assms(1)] and made = reach_made_by [OF assms(1,2)]
  obtain l where l: "sequential s l" using inv unfolding inits_inv_def by blast
  show "\<forall>x\<in>set (in_log s). snd (snd x) = 0" using made [OF l] by blast
  show "case first_init (map (fst \<circ> snd) (in_log s)) of
         None \<Rightarrow> in_lib s = fiu_start
       | Some env \<Rightarrow> fiu_ready (in_lib s) \<and> points (in_lib s) = Map.empty
           \<and> (\<exists>l0. fiu_init env fiu_start = Some (0, l0) \<and> gen (in_lib s) = gen l0)" if "enabled_fails_lock (in_lib s) = Unlocked"
    using made [OF inv_unlocked(1) [OF inv that]] by (simp add: made_by_def)
  show "\<exists>j. in_pc s j \<noteq> I_out \<and> init_step j None s \<noteq> None" if "in_pc s i \<noteq> I_out"
    by (rule someone_steps [OF inv that assms(3)]) (use made in blast)
qed

text \<open>Two threads: the second asks for the lock while the first initializes, a third has called \<open>fiu_fail\<close> before.\<close>

fun init_steps :: "(nat \<times> string option) list \<Rightarrow> inits \<Rightarrow> inits option" where
  "init_steps [] s = Some s"
| "init_steps ((i, c) # cs) s = do { s' \<leftarrow> init_step i c s; init_steps cs s' }"

lemma init_steps_reach: "inits_reach s \<Longrightarrow> init_steps cs s = Some s' \<Longrightarrow> inits_reach s'"
  by (induction cs s rule: init_steps.induct) (auto simp: bind_eq_Some intro: inits_reach.step)

definition two_inits :: "(nat \<times> string option) list" where
  "two_inits = [(3, Some ''a''), (1, None), (2, None), (3, None), (3, None), (3, None), (1, None), (1, None), (1, None), (1, None), (1, None),
     (1, None), (1, None), (1, None), (1, None), (2, None), (2, None), (2, None)]"

lemma two_inits_run:
  "\<exists>s. init_steps two_inits (inits_start (\<lambda>_. quiet_env)) = Some s
     \<and> in_log s = [(3, (quiet_env, Fail ''a''), 0), (1, (quiet_env, Init), 0), (2, (quiet_env, Init), 0)]
     \<and> in_pc s = ((\<lambda>_. I_out)(3 := F_return 0, 1 := I_return 0, 2 := I_return 0)) \<and> enabled_fails_lock (in_lib s) = Unlocked
     \<and> (\<forall>j. in_env s j = quiet_env)"
proof -
  obtain t :: "nat wtable" where t: "wtable_create True True True True True True True 0 (Ptr plain_destructor) = Ptr t"
    by (rule new_wtable)
  show ?thesis
    by (simp add: two_inits_def init_step.simps Let_def inits_start_def t quiet_env_def ef_wlock_def ef_unlock_def
      fiu_fail_def rec_inc_def rec_dec_def ef_rlock_def fail_exit_def fiu_start_def to_pc_def with_lib_def rec_add_def logged_def)
qed


theorem concurrent_inits_witness:
  "\<exists>s. init_steps two_inits (inits_start (\<lambda>_. quiet_env)) = Some s \<and> in_pc s 1 = I_return 0
     \<and> do_calls [(quiet_env, Fail ''a''), (quiet_env, Init), (quiet_env, Init)] fiu_start = Some ([0, 0, 0], in_lib s)
     \<and> (\<exists>e. (1, (e, Init), 0) \<in> set (in_log s))"
proof -
  obtain s where s: "init_steps two_inits (inits_start (\<lambda>_. quiet_env)) = Some s"
    "in_log s = [(3, (quiet_env, Fail ''a''), 0), (1, (quiet_env, Init), 0), (2, (quiet_env, Init), 0)]"
    "in_pc s = ((\<lambda>_. I_out)(3 := F_return 0, 1 := I_return 0, 2 := I_return 0))" "enabled_fails_lock (in_lib s) = Unlocked"
    using two_inits_run by blast
  from concurrent_inits [OF init_steps_reach [OF inits_reach.start s(1)], of 1 0] s show ?thesis by simp
qed

theorem initialized_once_witness:
  "\<exists>s l0. init_steps two_inits (inits_start (\<lambda>_. quiet_env)) = Some s \<and> fiu_ready (in_lib s)
     \<and> fiu_init quiet_env fiu_start = Some (0, l0) \<and> gen (in_lib s) = gen l0"
proof -
  obtain s where s: "init_steps two_inits (inits_start (\<lambda>_. quiet_env)) = Some s"
    "in_log s = [(3, (quiet_env, Fail ''a''), 0), (1, (quiet_env, Init), 0), (2, (quiet_env, Init), 0)]"
    "in_pc s = ((\<lambda>_. I_out)(3 := F_return 0, 1 := I_return 0, 2 := I_return 0))" "enabled_fails_lock (in_lib s) = Unlocked"
    "\<forall>j. in_env s j = quiet_env"
    using two_inits_run by blast
  from initialized_once [OF init_steps_reach [OF inits_reach.start s(1)], of 1] s quiet_env_ok(2) show ?thesis
    by (auto simp: first_init_def)
qed

end
