(* ===== verification/Callback_Calls.thy ===== *)
theory Callback_Calls
  imports Fiu_API
begin

text \<open>
  Callbacks that use the library: \<open>fiu_fail\<close> with an external callback that makes calls of the API before it decides. The callback
  runs while its thread holds the lock of the table for reading and, for a one-time point of failure, the mutex of that point, and with
  \<open>rec_count\<close> at 1. Elsewhere in the development a callback is a function of its arguments, which is right for those that call nothing
  but \<open>fiu_fail\<close> and \<open>fiu_failinfo\<close>, as is shown here.
\<close>

subsection \<open>\<open>fiu_fail\<close> around a callback that calls\<close>

definition decide_calling :: "env \<Rightarrow> (env \<times> call) list \<Rightarrow> nat \<Rightarrow> fiu \<Rightarrow> (bool \<times> fiu) option" where
  "decide_calling env cs p s = do {
     pf \<leftarrow> pfs s p;
     (_, s1) \<leftarrow> (if pf_method pf = PF_EXTERNAL then do_calls cs s else Some ([], s));
     pf_decide env p s1 }"

definition fail_point_calling :: "env \<Rightarrow> (env \<times> call) list \<Rightarrow> nat \<Rightarrow> fiu \<Rightarrow> (nat option \<times> fiu) option" where
  "fail_point_calling env cs p s = do {
     pf \<leftarrow> pfs s p;
     (skip, s1) \<leftarrow> (if onetime pf then do {
           s1 \<leftarrow> pf_lock p s;
           pf1 \<leftarrow> pfs s1 p;
           if pf_failed_once pf1 then do { s2 \<leftarrow> pf_unlock p s1; Some (True, s2) } else Some (False, s1) }
         else Some (False, s));
     if skip then Some (None, s1)
     else do {
       (fails, s2) \<leftarrow> decide_calling env cs p s1;
       if fails then Some (Some p, s2)
       else do {
         pf2 \<leftarrow> pfs s2 p;
         s3 \<leftarrow> (if onetime pf2 then pf_unlock p s2 else Some s2);
         Some (None, s3) } } }"

definition fiu_fail_calling :: "env \<Rightarrow> (env \<times> call) list \<Rightarrow> string \<Rightarrow> fiu \<Rightarrow> (int \<times> fiu) option" where
  "fiu_fail_calling env cs name s = do {
     let s1 = rec_inc s;
     if rec_count s1 > 1 then Some (0, rec_dec s1)
     else do {
       s2 \<leftarrow> ef_rlock s1;
       case enabled_fails s2 of
         NULL \<Rightarrow> fail_exit s2
       | Ptr t \<Rightarrow> do {
           (pf, t') \<leftarrow> wtable_get (e_mem env) t name;
           let s3 = s2\<lparr>enabled_fails := Ptr t'\<rparr>;
           case pf of
             NULL \<Rightarrow> fail_exit s3
           | Ptr p \<Rightarrow> do {
               (fails, s4) \<leftarrow> fail_point_calling env cs p s3;
               case fails of None \<Rightarrow> fail_exit s4 | Some p \<Rightarrow> fail_exit_fail p s4 } } } }"

subsection \<open>Calls from a callback\<close>

fun only_asks :: "call \<Rightarrow> bool" where
  "only_asks (Fail name) = True"
| "only_asks Failinfo = True"
| "only_asks _ = False"

fun takes_lock :: "call \<Rightarrow> bool" where
  "takes_lock Init = True"
| "takes_lock (Enable name n i f) = True"
| "takes_lock (Enable_random name n i f p) = True"
| "takes_lock (Enable_external name n i f cb) = True"
| "takes_lock (Disable name) = True"
| "takes_lock _ = False"

text \<open>The state of the library for a thread that is inside a callback.\<close>

definition in_callback :: "fiu \<Rightarrow> bool" where
  "in_callback s \<longleftrightarrow> rec_count s = 1 \<and> enabled_fails_lock s = Read_locked \<and> key_created s"

lemma asks_in_callback:
  assumes "in_callback s" and "only_asks c"
  shows "\<exists>r. do_call env c s = Some (r, s)"
  using assms by (cases c; cases s) (auto simp: in_callback_def fiu_fail_def rec_inc_def rec_dec_def fiu_failinfo_def)

lemma add_waits:
  assumes "in_callback s" and "e_mem env = mem_ok"
  shows "create_and_insert env name n i f me mi s = None"
  using assms
  by (auto simp: in_callback_def create_and_insert_def pf_create_def insert_pf_def ef_wlock_def rec_inc_def rec_dec_def set_pf_def Let_def
      strdup_def mem_ok_def
      split: ptr.splits)

lemma waits_in_callback:
  assumes "in_callback s" and "takes_lock c" and "e_mem env = mem_ok"
  shows "do_call env c s = None"
  using assms add_waits [OF assms(1,3)]
  by (cases c) (simp_all add: in_callback_def fiu_init_def fiu_disable_def ef_wlock_def rec_inc_def fiu_enable_def fiu_enable_random_def
      fiu_enable_external_def)

lemma asking_keeps:
  assumes "in_callback s" and "\<forall>ec\<in>set cs. only_asks (snd ec)"
  shows "\<exists>rs. do_calls cs s = Some (rs, s)"
  using assms(2)
proof (induction cs)
  case (Cons ec cs)
  obtain env c where ec: "ec = (env, c)" by fastforce
  with Cons obtain rs where "do_calls cs s = Some (rs, s)" by auto
  moreover obtain r where "do_call env c s = Some (r, s)" using asks_in_callback [OF assms(1), of c env] Cons.prems ec by auto
  ultimately show ?case by (simp add: ec)
qed simp

lemma locking_waits:
  assumes "in_callback s" and "\<forall>ec\<in>set cs. only_asks (snd ec) \<or> takes_lock (snd ec) \<and> e_mem (fst ec) = mem_ok"
    and "\<exists>ec\<in>set cs. takes_lock (snd ec)"
  shows "do_calls cs s = None"
  using assms(2,3)
proof (induction cs)
  case (Cons ec cs)
  obtain env c where ec: "ec = (env, c)" by fastforce
  show ?case
  proof (cases "takes_lock c")
    case True
    then have "e_mem env = mem_ok" using Cons.prems(1) ec by (cases c) auto
    with waits_in_callback [OF assms(1) True] show ?thesis by (simp add: ec)
  next
    case False
    then have "only_asks c" using Cons.prems(1) ec by auto
    then obtain r where "do_call env c s = Some (r, s)" using asks_in_callback [OF assms(1)] by blast
    moreover have "do_calls cs s = None" using Cons False ec by auto
    ultimately show ?thesis by (simp add: ec)
  qed
qed simp


subsection \<open>The two kinds of callback\<close>

lemma in_callback_set_pf [simp]: "in_callback (set_pf p pf s) = in_callback s"
  by (simp add: in_callback_def set_pf_def)

lemma decide_asking:
  assumes "in_callback s" and "\<forall>ec\<in>set cs. only_asks (snd ec)"
  shows "decide_calling env cs p s = pf_decide env p s"
  using asking_keeps [OF assms] by (cases "pfs s p") (auto simp: decide_calling_def pf_decide_def)

lemma fail_point_asking:
  assumes "in_callback s" and "\<forall>ec\<in>set cs. only_asks (snd ec)"
  shows "fail_point_calling env cs p s = fail_point env p s"
proof -
  have "decide_calling env cs p (set_pf p pf s) = pf_decide env p (set_pf p pf s)" for pf
    by (rule decide_asking) (use assms in simp_all)
  moreover have "decide_calling env cs p s = pf_decide env p s" by (rule decide_asking [OF assms])
  ultimately show ?thesis
    by (cases "pfs s p") (auto simp: fail_point_calling_def fail_point_def pf_lock_def pf_unlock_def set_pf_def)
qed

lemma fail_point_locking:
  assumes "in_callback s" and "pfs s p = Some pf" and "pf_method pf = PF_EXTERNAL" and "\<not> pf_locked pf" and "\<not> (onetime pf \<and> pf_failed_once pf)"
    and "\<forall>ec\<in>set cs. only_asks (snd ec) \<or> takes_lock (snd ec) \<and> e_mem (fst ec) = mem_ok" and "\<exists>ec\<in>set cs. takes_lock (snd ec)"
  shows "fail_point_calling env cs p s = None"
proof -
  have "do_calls cs s = None" "do_calls cs (set_pf p q s) = None" for q
    using locking_waits [OF _ assms(6,7)] assms(1) by simp_all
  then show ?thesis
    using assms(2-5) by (simp add: fail_point_calling_def pf_lock_def decide_calling_def set_pf_def)
qed

text \<open>The point of failure that answers, at the call of \<open>fail_point\<close>.\<close>

lemma fiu_fail_calling_run:
  assumes "fiu_ready s" and "e_mem env = mem_ok" and "answer_pf s name = Some pf"
  obtains p s3 where "in_callback s3" "pfs s3 p = Some pf" "pf_ok pf"
    "fiu_fail_calling env cs name s = do { (fails, s4) \<leftarrow> fail_point_calling env cs p s3;
       case fails of None \<Rightarrow> fail_exit s4 | Some p \<Rightarrow> fail_exit_fail p s4 }"
    "fiu_fail env name s = do { (fails, s4) \<leftarrow> fail_point env p s3;
       case fails of None \<Rightarrow> fail_exit s4 | Some p \<Rightarrow> fail_exit_fail p s4 }"
proof -
  obtain t where t: "enabled_fails s = Ptr t" using assms(1) by (cases "enabled_fails s") (auto simp: fiu_ready_at_def)
  then have parts: "enabled_fails_lock s = Unlocked" "rec_count s = 0" "table_pfs t (pfs s)" "key_created s"
    using assms(1) by (simp_all add: fiu_ready_at_def fiu_at_def)
  then have "wtable_inv t" by (simp add: table_pfs_def wtable_owns_def)
  from wtable_get_ok [OF this, of name] obtain c where c: "wtable_get mem_ok t name = Some (wtable_answer t name, t\<lparr>wcache := c\<rparr>)" by blast
  obtain p where p: "wtable_answer t name = Ptr p" "pfs s p = Some pf"
    using assms(3) t by (auto simp: answer_pf_def split: ptr.splits)
  let ?s3 = "s\<lparr>rec_count := 1, enabled_fails_lock := Read_locked, enabled_fails := Ptr (t\<lparr>wcache := c\<rparr>)\<rparr>"
  have "pf_ok pf" using table_pfs_answer [OF parts(3) p(1)] p(2) by auto
  moreover have "in_callback ?s3" "pfs ?s3 p = Some pf" using parts(4) p(2) by (simp_all add: in_callback_def)
  ultimately show ?thesis
    using parts(1,2) t c p(1) assms(2)
    by (intro that [of ?s3 p]) (simp_all add: fiu_fail_calling_def fiu_fail_def rec_inc_def ef_rlock_def Let_def)
qed

text \<open>Property C15: A callback may ask but not change: when the point of failure that answers is an external one, a callback that
  calls only \<open>fiu_fail\<close> and \<open>fiu_failinfo\<close> decides as it would without these calls, with the same result and the same state
  at the end; a callback that calls \<open>fiu_init\<close>, \<open>fiu_disable\<close> or one of the functions that enable (but by stack) never
  returns, since its own thread holds the lock of the table for reading.\<close>

theorem callback_reentry:
  assumes "fiu_ready s" and "e_mem env = mem_ok" and "answer_pf s name = Some pf" and "pf_method pf = PF_EXTERNAL"
    and "\<not> (onetime pf \<and> pf_failed_once pf)" and "\<forall>ec\<in>set cs. only_asks (snd ec) \<or> takes_lock (snd ec) \<and> e_mem (fst ec) = mem_ok"
  shows "fiu_fail_calling env cs name s = (if \<exists>ec\<in>set cs. takes_lock (snd ec) then None else fiu_fail env name s)"
proof -
  obtain p s3 where r: "in_callback s3" "pfs s3 p = Some pf" "pf_ok pf"
    "fiu_fail_calling env cs name s = do { (fails, s4) \<leftarrow> fail_point_calling env cs p s3;
       case fails of None \<Rightarrow> fail_exit s4 | Some p \<Rightarrow> fail_exit_fail p s4 }"
    "fiu_fail env name s = do { (fails, s4) \<leftarrow> fail_point env p s3;
       case fails of None \<Rightarrow> fail_exit s4 | Some p \<Rightarrow> fail_exit_fail p s4 }"
    by (rule fiu_fail_calling_run [OF assms(1-3), of cs])
  show ?thesis
  proof (cases "\<exists>ec\<in>set cs. takes_lock (snd ec)")
    case True
    have "\<not> pf_locked pf" using r(3) by (simp add: pf_ok_def)
    from fail_point_locking [OF r(1,2) assms(4) this assms(5,6) True] show ?thesis unfolding r(4) using True by simp
  next
    case False
    then have "\<forall>ec\<in>set cs. only_asks (snd ec)" using assms(6) by blast
    from fail_point_asking [OF r(1) this] show ?thesis unfolding r(4,5) using False by simp
  qed
qed

theorem callback_reentry_witness:
  "\<exists>s1 s. fiu_init quiet_env fiu_start = Some (0, s1) \<and> fiu_enable_external quiet_env ''a'' 7 0 0 5 s1 = Some (0, s)
     \<and> fiu_fail_calling quiet_env [(quiet_env, Fail ''a''), (quiet_env, Failinfo)] ''a'' s = fiu_fail quiet_env ''a'' s
     \<and> fiu_fail_calling quiet_env [(quiet_env, Fail ''a''), (quiet_env, Disable ''a'')] ''a'' s = None"
proof -
  let ?pf = "new_pf ''a'' 7 0 0 PF_EXTERNAL (M_external_cb 5)"
  obtain s1 where s1: "fiu_init quiet_env fiu_start = Some (0, s1)" "fiu_ready s1" using quiet_start by blast
  have typed: "args_typed (7, 0, 0, PF_EXTERNAL, M_external_cb 5)" and name: "''a'' \<noteq> []" by simp_all
  from fiu_control.add_law [OF quiet_env_ok(1) s1(2) name typed] obtain s where
    s: "fiu_add quiet_env ''a'' (7, 0, 0, PF_EXTERNAL, M_external_cb 5) s1 = Some (0, s)" "fiu_ready s" "points s ''a'' = Some ?pf"
    by auto
  have inv: "fiu_inv s" using s(2) by (simp add: fiu_ready_at_def)
  have ans: "answer_pf s ''a'' = Some ?pf"
    using answer_pf_answers [OF inv, of "''a''"] s(3) by (simp add: answers_def is_pat_def)
  have pf: "pf_method ?pf = PF_EXTERNAL" "\<not> (onetime ?pf \<and> pf_failed_once ?pf)" by (simp_all add: new_pf_def onetime_def)
  note c = callback_reentry [OF s(2) quiet_env_ok(3) ans pf]
  from c [of "[(quiet_env, Fail ''a''), (quiet_env, Failinfo)]"] c [of "[(quiet_env, Fail ''a''), (quiet_env, Disable ''a'')]"]
  show ?thesis using s1(1) s(1) by (auto simp: fiu_enable_external_def quiet_env_ok(3))
qed

end
