(* ===== verification/Preload_Trace.thy ===== *)
theory Preload_Trace
  imports Posix_Custom
begin

text \<open>
  Two builds of the POSIX preloader that are not the usual one. Without \<open>RTLD_NEXT\<close>, \<open>libc_symbol\<close> opens the C library itself.
  With \<open>FIU_POSIX_TRACE\<close> the macros \<open>rec_inc\<close>, \<open>rec_dec\<close> and \<open>printd\<close> of codegen.h print what they do with \<open>fprintf\<close> and
  \<open>fflush\<close>, which the preloader wraps; so the wrappers call each other, and the depth of these calls is bounded only by the stack. The
  stack is a number here: \<open>None\<close> at 0 is its overflow.
\<close>

subsection \<open>Without \<open>RTLD_NEXT\<close>\<close>

text \<open>The static variable \<open>_fiu_libc\<close> is the argument and the second result; \<open>dlopen\<close> is what the function of that name returns. The
  program ends with a status if it is NULL.\<close>

definition libc_symbol_soname :: "addr \<Rightarrow> (addr \<Rightarrow> string \<Rightarrow> addr) \<Rightarrow> string \<Rightarrow> addr \<Rightarrow> int + addr \<times> addr" where
  "libc_symbol_soname dlopen dlsym symbol libc =
     (let libc' = (if libc = 0 then dlopen else libc)
      in if libc' = 0 then Inl 1 else Inr (dlsym libc' symbol, libc'))"

text \<open>The first call that succeeds fixes the library: later ones do not open it again, whatever \<open>dlopen\<close> would return.\<close>

lemma libc_symbol_fixed:
  assumes "libc_symbol_soname dlopen dlsym symbol libc = Inr (p, libc')"
  shows "libc' \<noteq> 0" and "libc_symbol_soname dlopen' dlsym symbol' libc' = Inr (dlsym libc' symbol', libc')"
  using assms by (auto simp: libc_symbol_soname_def Let_def split: if_splits)

subsection \<open>The macros with traces\<close>

text \<open>\<open>pr\<close> is a call of \<open>fprintf\<close> on the standard error with the given format, \<open>fl\<close> a call of \<open>fflush\<close> on it; both results are
  ignored.\<close>

type_synonym 'w printer = "string \<Rightarrow> 'w preload \<Rightarrow> 'w preload option"
type_synonym 'w flusher = "'w preload \<Rightarrow> 'w preload option"

definition nl :: string where
  "nl = [CHR 0x0A]"

definition called_inc_traced :: "'w printer \<Rightarrow> 'w flusher \<Rightarrow> 'w preload \<Rightarrow> 'w preload option" where
  "called_inc_traced pr fl s = do { s1 \<leftarrow> pr (''I: %d %s'' @ nl) (called_inc s); fl s1 }"

definition called_dec_traced :: "'w printer \<Rightarrow> 'w flusher \<Rightarrow> 'w preload \<Rightarrow> 'w preload option" where
  "called_dec_traced pr fl s = do { s1 \<leftarrow> pr (''D: %d %s'' @ nl) (called_dec s); fl s1 }"

definition printd_traced :: "'w printer \<Rightarrow> 'w flusher \<Rightarrow> string \<Rightarrow> 'w preload \<Rightarrow> 'w preload option" where
  "printd_traced pr fl text s = do {
     s1 \<leftarrow> (if fiu_called s \<noteq> 0 then pr [CHR 0x09] s else Some s);
     s2 \<leftarrow> pr ''%6.6d '' (called_inc s1);
     s3 \<leftarrow> pr ''%s(): '' s2;
     s4 \<leftarrow> pr text s3;
     s5 \<leftarrow> fl s4;
     Some (called_dec s5) }"

definition wrap_init_traced :: "'w printer \<Rightarrow> 'w flusher \<Rightarrow> wcall \<Rightarrow> string \<Rightarrow> 'w preload \<Rightarrow> 'w preload option" where
  "wrap_init_traced pr fl cx name s = do {
     s1 \<leftarrow> called_inc_traced pr fl s;
     let s2 = s1\<lparr>in_init := (in_init s1)(name := in_init s1 name + 1)\<rparr>;
     let s3 = s2\<lparr>orig := (orig s2)(name := libc_symbol cx name)\<rparr>;
     called_dec_traced pr fl (s3\<lparr>in_init := (in_init s3)(name := in_init s3 name - 1)\<rparr>) }"

definition body_called_traced ::
  "'w printer \<Rightarrow> 'w flusher \<Rightarrow> wcall \<Rightarrow> ('a, 'r, 'w) cfun \<Rightarrow> string \<Rightarrow> 'r \<Rightarrow> 'a \<Rightarrow> 'w preload \<Rightarrow> ('r option \<times> 'w preload) option" where
  "body_called_traced pr fl cx call name on_err args s =
     (if fiu_called s \<noteq> 0 then
        (if orig s name = 0 \<and> in_init s name \<noteq> 0 then do { s1 \<leftarrow> printd_traced pr fl (''fail on init'' @ nl) s; Some (Some on_err, s1) }
         else do {
           s1 \<leftarrow> (if orig s name = 0
                  then do { s0 \<leftarrow> printd_traced pr fl (''get orig'' @ nl) s; wrap_init_traced pr fl cx name s0 } else Some s);
           s2 \<leftarrow> printd_traced pr fl (''orig'' @ nl) s1;
           (r, s3) \<leftarrow> call_orig call name args s2;
           Some (Some r, s3) })
      else do {
        s1 \<leftarrow> printd_traced pr fl (''fiu'' @ nl) s;
        s2 \<leftarrow> called_inc_traced pr fl s1;
        Some (None, s2) })"

text \<open>The body of a failure that sets \<open>errno\<close> and marks the stream, as \<open>fprintf\<close> and \<open>fflush\<close> have it.\<close>

definition body_errno_ferror_traced ::
  "'w printer \<Rightarrow> 'w flusher \<Rightarrow> wcall \<Rightarrow> string \<Rightarrow> 'r \<Rightarrow> int list \<Rightarrow> addr \<Rightarrow> 'w preload \<Rightarrow> ('r option \<times> 'w preload) option" where
  "body_errno_ferror_traced pr fl cx fname fail_ret valid stream s = do {
     (fstatus, s1) \<leftarrow> wrap_fail (wc_env cx) fname s;
     if fstatus \<noteq> 0 then do {
       finfo \<leftarrow> fiu_failinfo (lib s1);
       e \<leftarrow> (if finfo = 0 then pick_errno valid (wc_random cx) else Some (errno_of finfo));
       s2 \<leftarrow> printd_traced pr fl (''failing'' @ nl) (s1\<lparr>proc := (proc s1)\<lparr>errno := e\<rparr>\<rparr>);
       s3 \<leftarrow> set_ferror cx stream s2;
       Some (Some fail_ret, s3) }
     else Some (None, s1) }"

definition wrap_bottom_traced ::
  "'w printer \<Rightarrow> 'w flusher \<Rightarrow> wcall \<Rightarrow> ('a, 'r, 'w) cfun \<Rightarrow> string \<Rightarrow> 'a \<Rightarrow> 'r option \<times> 'w preload \<Rightarrow> ('r \<times> 'w preload) option" where
  "wrap_bottom_traced pr fl cx call name args x = do {
     (r, s1) \<leftarrow> (case x of
        (Some r, s) \<Rightarrow> Some (r, s)
      | (None, s) \<Rightarrow> do {
          s0 \<leftarrow> (if orig s name = 0 then wrap_init_traced pr fl cx name s else Some s);
          s1 \<leftarrow> printd_traced pr fl (''calling orig'' @ nl) s0;
          call_orig call name args s1 });
     s2 \<leftarrow> called_dec_traced pr fl s1;
     Some (r, s2) }"

definition stream_wrapper_traced :: "'w printer \<Rightarrow> 'w flusher \<Rightarrow> wcall \<Rightarrow> ('a, 'r, 'w) cfun \<Rightarrow> string \<Rightarrow> 'r \<Rightarrow> string \<Rightarrow> int list \<Rightarrow> addr
    \<Rightarrow> 'a \<Rightarrow> 'w preload \<Rightarrow> ('r \<times> 'w preload) option" where
  "stream_wrapper_traced pr fl cx call name on_err fname valid stream args s = do {
     (early, s1) \<leftarrow> body_called_traced pr fl cx call name on_err args s;
     case early of
       Some r \<Rightarrow> Some (r, s1)
     | None \<Rightarrow> do {
         x \<leftarrow> body_errno_ferror_traced pr fl cx fname on_err valid stream s1;
         wrap_bottom_traced pr fl cx call name args x } }"

subsection \<open>The calls from inside\<close>

definition fflush_errnos :: "(string \<times> string) list" where
  "fflush_errnos = guarded [''EAGAIN'', ''EBADF'', ''EFBIG'', ''EINTR'', ''EIO'', ''ENOMEM'', ''ENOSPC'', ''EPIPE'', ''ENXIO'']"

text \<open>What the wrappers of \<open>fprintf\<close> and \<open>fflush\<close> do on the standard error \<open>err\<close> in a build with traces, with so much stack.\<close>

fun trace_fprintf :: "wcall \<Rightarrow> posix \<Rightarrow> (addr \<times> string, int, 'w) cfun \<Rightarrow> (addr, int, 'w) cfun \<Rightarrow> addr \<Rightarrow> nat \<Rightarrow> 'w printer"
  and trace_fflush :: "wcall \<Rightarrow> posix \<Rightarrow> (addr \<times> string, int, 'w) cfun \<Rightarrow> (addr, int, 'w) cfun \<Rightarrow> addr \<Rightarrow> nat \<Rightarrow> 'w flusher" where
  "trace_fprintf cx px callp callf err 0 format s = None"
| "trace_fprintf cx px callp callf err (Suc n) format s = map_option snd
     (stream_wrapper_traced (trace_fprintf cx px callp callf err n) (trace_fflush cx px callp callf err n) cx callp ''vfprintf'' (-1)
       ''posix/stdio/sp/fprintf'' (valid_errnos px printf_errnos) err (err, format) s)"
| "trace_fflush cx px callp callf err 0 s = None"
| "trace_fflush cx px callp callf err (Suc n) s = map_option snd
     (stream_wrapper_traced (trace_fprintf cx px callp callf err n) (trace_fflush cx px callp callf err n) cx callf ''fflush'' (px_EOF px)
       ''posix/stdio/fflush'' (valid_errnos px fflush_errnos) err err s)"

definition fiu_init_final_traced :: "'w printer \<Rightarrow> 'w flusher \<Rightarrow> env \<Rightarrow> 'w preload \<Rightarrow> 'w preload option" where
  "fiu_init_final_traced pr fl env s = do {
     s1 \<leftarrow> called_inc_traced pr fl s;
     (_, l) \<leftarrow> fiu_init env (lib s1);
     called_dec_traced pr fl (s1\<lparr>lib := l\<rparr>) }"

subsection \<open>Properties\<close>

lemma silent_macros:
  assumes "\<And>t s. pr t s = None"
  shows "called_inc_traced pr fl s = None" "called_dec_traced pr fl s = None" "printd_traced pr fl t s = None"
    "wrap_init_traced pr fl cx name s = None" "body_called_traced pr fl cx call name on_err args s = None"
    "stream_wrapper_traced pr fl cx call name on_err fname valid stream args s = None"
    "fiu_init_final_traced pr fl env s = None"
proof -
  show i: "called_inc_traced pr fl s = None" "called_dec_traced pr fl s = None" for s
    by (simp_all add: called_inc_traced_def called_dec_traced_def assms)
  show p: "printd_traced pr fl t s = None" for t s by (simp add: printd_traced_def assms)
  show "wrap_init_traced pr fl cx name s = None" by (simp add: wrap_init_traced_def i)
  show b: "body_called_traced pr fl cx call name on_err args s = None" by (simp add: body_called_traced_def p)
  show "stream_wrapper_traced pr fl cx call name on_err fname valid stream args s = None" by (simp add: stream_wrapper_traced_def b)
  show "fiu_init_final_traced pr fl env s = None" by (simp add: fiu_init_final_traced_def i)
qed

lemma trace_prints_nothing: "trace_fprintf cx px callp callf err n format s = None" "trace_fflush cx px callp callf err n s = None"
proof -
  show p: "trace_fprintf cx px callp callf err n format s = None" for n format s
  proof (induction n arbitrary: format s)
    case (Suc n)
    then show ?case by (simp add: silent_macros)
  qed simp
  show "trace_fflush cx px callp callf err n s = None" by (cases n) (simp_all add: silent_macros p)
qed

text \<open>Property C33: A build with \<open>FIU_POSIX_TRACE\<close> cannot run: however much stack there is, a call of \<open>fprintf\<close> on the standard error
  exhausts it, in every state of the preloader, because every path through its wrapper prints a trace with \<open>fprintf\<close> before it does
  anything else; so does every other wrapper, whatever function it is for, and so do the constructors that run before the program starts.\<close>

theorem trace_never_returns:
  "trace_fprintf cx px callp callf err n format s = None
    \<and> trace_fflush cx px callp callf err n s = None
    \<and> body_called_traced (trace_fprintf cx px callp callf err n) (trace_fflush cx px callp callf err n) cx' call name on_err args s = None
    \<and> wrap_init_traced (trace_fprintf cx px callp callf err n) (trace_fflush cx px callp callf err n) cx' name s = None
    \<and> fiu_init_final_traced (trace_fprintf cx px callp callf err n) (trace_fflush cx px callp callf err n) env s = None"
  by (simp add: trace_prints_nothing silent_macros)

end
