(* ===== verification/Spec2Isabelle.thy ===== *)
theory Spec2Isabelle
  imports Thread_Refine Run_Preload Posix_Correct Wtable_Threads Wtable_Faults Bindings_Correct Instrument Fiu_Run Fiu_Ls
    Init_Threads Callback_Calls Preload_Trace
begin

text \<open>
  libfiu is a C library for fault injection. A program (or a wrapper of a libc function) asks \<open>fiu_fail (name)\<close> whether the point of
  failure \<open>name\<close> fails now; the control API, the remote control and the preloaders enable and disable points of failure by name, or
  by a pattern that ends in an asterisk. This development models the library, its preloaders, bindings and scripts and proves them correct.

  \<^bold>\<open>How the program is put together.\<close>
  libfiu/fiu.c keeps the enabled points of failure in a wildcard table (libfiu/wtable.c). The wildcard table keeps exact names in a
  hash table and puts a cache in front of its list of patterns (both libfiu/hash.c). Whether a point of failure fails is decided by
  its method: always, with a probability (the generator at the head of fiu.c), by a callback, or by the functions on the
  stack (libfiu/backtrace.c). The remote control (libfiu/fiu-rc.c) parses commands into calls of the control API, from a string or
  from a pair of named pipes. The run preloader (preload/run/run.c) executes the commands it finds in the environment when a program starts,
  and the POSIX preloader (preload/posix) puts a wrapper in front of every libc function it knows, which asks \<open>fiu_fail\<close> first.
  A program may also ask by itself, with the macros of libfiu/fiu.h, or use the library from Python (bindings/python). Three scripts are for the user: fiu-run
  starts a program with the preloaders and the commands in its environment, fiu-ctrl sends commands to running programs, fiu-ls lists these.

  \<^bold>\<open>The theories,\<close> in the order of the code that uses one another. A definition has the name of the C function it translates,
  a record or datatype that of the struct or enum.

  \<^item> \<open>Prelude\<close>: nullable pointers (\<open>'a ptr\<close>), arrays, \<open>strdup\<close> and \<open>malloc\<close> that may fail, shared lemmas. A computation of the C
    program is an \<open>'a option\<close>: \<open>None\<close> stands for a run without a defined result (a NULL or released pointer is used,
    an array is left, a mutex is misused or waited for in vain), so a theorem that a call has a result \<open>Some x\<close> is a safety theorem too.
  \<^item> \<open>Murmur\<close>, \<open>CFloat\<close>: \<open>murmurhash2\<close> on 32-bit words; the rounding of \<open>float\<close> and \<open>double\<close>, with which the tables compare their load.
  \<^item> \<open>Hash\<close>, \<open>Hash_Correct\<close>: \<open>struct hash\<close>. The record \<open>hash\<close> has the fields of the struct and, as ghost field, the values that the destructor has been
    called on. The invariant is that of linear probing without reuse of removed cells, with the bound on the load that makes every probe end.
  \<^item> \<open>Cache\<close>: \<open>struct cache\<close> of hash.c.
  \<^item> \<open>Wtable\<close>, \<open>Wtable_Correct\<close>: \<open>struct wtable\<close>, and that its answers do not depend on the cache. \<open>Wtable_Threads\<close>: lookups by many threads
    as steps (\<open>lstep\<close>), between which other lookups use the same cache; \<open>Wtable_Faults\<close>: a removal that fails for lack of memory.
  \<^item> \<open>Prng\<close>: the generator, its full period, and how many of the draws of a period fall below a probability.
  \<^item> \<open>Backtrace\<close>: backtrace.c over a record of what the unwinder and the dynamic linker answer.
  \<^item> \<open>Cstring\<close>: the functions of the C library that the parsers use (\<open>atoi\<close>, \<open>strtoul\<close>, \<open>strtod\<close>, \<open>strncpy\<close>, \<open>strtok_r\<close>, \<open>getsubopt\<close>).
  \<^item> \<open>Fiu\<close>: fiu.c, the calls of one thread. The record \<open>fiu\<close> holds the static variables, the thread-local ones and the blocks of
    \<open>pf_create\<close>; locks are fields whose misuse has no result.
  \<^item> \<open>Fiu_Correct\<close>, \<open>Fiu_API\<close>: the invariant of the library, the specification \<open>pf_step\<close> of one question, and what calls do to each other.
  \<^item> \<open>Fiu_Threads\<close>: the same code as steps (\<open>tstep\<close>) of any number of threads that meet at the read-write lock and at
    the mutexes, with reachable states and their invariants; and the child of a fork.
  \<^item> \<open>Init_Threads\<close>: the statements of \<open>fiu_init\<close> as steps (\<open>init_step\<close>) of any number of threads, beside threads that already call \<open>fiu_fail\<close>.
    Its invariant compares the shared library with the sequential run of the calls that have had their effect (\<open>in_log\<close>).
  \<^item> \<open>Callback_Calls\<close>: \<open>fiu_fail\<close> around an external callback that itself makes calls of the API (\<open>fiu_fail_calling\<close>).
  \<^item> \<open>Thread_Refine\<close>: every sequence of API calls of \<open>Fiu\<close> is an execution of \<open>Fiu_Threads\<close>, a simulation of the former by the latter that relates
    each call and its result to steps (\<open>served\<close>), by what the arguments ask to be written (\<open>request\<close>).
  \<^item> \<open>Instrument\<close>: the macros of fiu.h and their stubs, on function bodies as lists of statements.
  \<^item> \<open>Rc\<close>, \<open>Rc_Correct\<close>: fiu-rc.c: reading lines, parsing, executing, the thread and its pipes; a descriptor is the list of what its
    coming reads return.
  \<^item> \<open>Run_Preload\<close>: run.c. \<open>Fiu_Run\<close>: the script fiu-run.in, from its options to the variables of the environment.
  \<^item> \<open>Fiu_Ctrl\<close>, \<open>Fiu_Ls\<close>: the scripts utils/fiu-ctrl and utils/fiu-ls. What happens on the pipes is an argument of \<open>fiu_ctrl\<close>, and
    \<open>exchange\<close> is that argument made of the threads of \<open>Rc\<close>: one session for each command.
  \<^item> \<open>Preload\<close>, \<open>Posix_Custom\<close>, \<open>Preload_Correct\<close>, \<open>Posix_Correct\<close>: the macros of codegen.h, codegen.c, the shape that the generator script gives a
    wrapper, and the wrappers of modules/posix.custom.c. The wrapped functions are arguments, functions on \<open>errno\<close> and the rest of the process.
  \<^item> \<open>Preload_Trace\<close>: the builds of the POSIX preloader with traces, and without \<open>RTLD_NEXT\<close>.
  \<^item> \<open>Bindings\<close>, \<open>Bindings_Correct\<close>: the extension module fiu_ll.c and fiu.py over it. The interpreter is the record \<open>interp\<close>; of
    \<open>PyArg_ParseTuple\<close> only what its formats promise is assumed (\<open>interp_ok\<close>). Of an object the model has its address and who holds references to it.

  \<^bold>\<open>Interfaces.\<close>
  \<open>Table_Spec\<close> states what a table with string keys promises (\<open>str_table\<close>), with an exact lookup (\<open>str_map\<close>), with patterns
  (\<open>pattern_table\<close>), who owns its values (\<open>owning_table\<close>), and what the wildcard table needs of its cache (\<open>lookup_cache\<close>);
  \<open>Control_Spec\<close> what a client of the library relies on (\<open>fault_control\<close>): a map from names to points of failure; \<open>Stream_Spec\<close> what
  the stream wrappers need of the set of streams with a simulated error (\<open>stream_errors\<close>), and \<open>Fiu_Ctrl\<close> what the script needs of the pipes of
  a process (\<open>command_channel\<close>). Each is interpreted on the model where it is
  provided: \<open>hash_table\<close>, \<open>hash_owner\<close>, \<open>wcache\<close>, \<open>wild_table\<close>, \<open>wild_owner\<close>, \<open>fiu_control\<close>, \<open>stream_set\<close>, \<open>rc_channel\<close>. The clients use the facts of these interpretations.

  \<^bold>\<open>What the lemmas show.\<close>
  Tables: any sequence of operations has the results of a map, or of a map of patterns; values are released once; the load
  stays bounded; a failed allocation has the effects stated. Library: every sequence of calls has a result, leaves no lock and no
  mutex taken and the recursion counter as it was; \<open>fiu_fail\<close> is \<open>pf_step\<close>; one-time points fail once, for one thread and over all
  interleavings; no thread uses a point that another has freed, and some thread can always go on; concurrent initializations are as good as one; a callback
  may ask but not change. Remote control: texts and
  calls correspond both ways, a session has the effect of its calls, a line is read up to its end and no further, what any line does is stated by its words
  (except for those that crash, which are listed as findings), and the thread ends only after repeated errors. Preloaders: a wrapper asks once, and either calls the original with its arguments or returns the failure with
  a valid error number; nothing is asked from inside the library; streams report simulated errors until they are cleared. Programs: a function with checks is the plain function until a name is enabled.
  Python: the types of the module's results and that they agree with the error indicator, how a callback decides, which objects stay alive, also
  under remote commands, and when they do not. Scripts: which commands
  reach which programs in which order, what is reported, and which programs are found. This theory adds the composition of all of them: a program
  that is started with commands in its environment, and a running program that is sent commands.

  \<^bold>\<open>Bounds and loops.\<close>
  The probing loops count down from the table size, as the code's do, and are total functions; sizes are 64-bit words where the code computes
  with them, and the invariants need fewer than \<open>2 ^ 64\<close> cells. The counters of the loops of \<open>_hash_get\<close>, \<open>_hash_set\<close>, \<open>_hash_del\<close> and \<open>wtable_free\<close>
  are of type \<open>int\<close> in C, that of \<open>strlast\<close> is \<open>unsigned int\<close>, and all are natural numbers here: the definitions are the code for tables of
  fewer than \<open>2 ^ 31\<close> cells and strings of fewer than \<open>2 ^ 32\<close> characters. The loops over strings recur on what is left of the string; a line has at most \<open>MAX_LINE\<close>
  = 512 bytes. The loops of the remote control thread recur on the list of what the system calls return, so they end with it; \<open>Waiting\<close> and
  \<open>Serving\<close> say that the thread then waits for more. A session of \<open>fiu_ctrl\<close> allows the thread one reading more than it has bytes, which is
  enough because every reading but the last takes at least one. The only fuel is the stack of the build with traces (\<open>trace_fprintf\<close>), and the theorem there is that no
  amount is enough.

  \<^bold>\<open>Assumptions,\<close> as hypotheses of the theorems: enough memory (\<open>mem_ok\<close>) except where the theorem is about its lack; callbacks do not
  change the one-time flag (\<open>callbacks_keep_onetime\<close>; what happens otherwise is a theorem); names are not empty (the code reads
  before their beginning); \<open>dlsym\<close> finds the originals (\<open>wcall_ok\<close>). The platform is little-endian with signed \<open>char\<close> and 64-bit pointers.

  \<^bold>\<open>Not modelled.\<close>
  A failure of \<open>pthread_key_create\<close>, whose result \<open>fiu_init\<close> ignores; NaN and infinities (probabilities are rational numbers);
  Python callbacks that call the module again, the \<open>METH_VARARGS\<close> calling convention itself and the global interpreter lock; the parsing of the
  command line by \<open>getopts\<close>, the expansion of file name patterns in the words of the scripts, their warnings on the standard error and the command
  lines that fiu-ls prints; the build checks and the tests; hexadecimal, infinite and NaN input of \<open>strtod\<close>, locale-dependent
  behaviour; the text processing of the generator script (its lists of functions are data: the name, the error value, the error numbers and the
  reduced parameter of a wrapper are arguments of \<open>wrapper\<close>). Threads other than through \<open>fiu_fail\<close>, \<open>insert_pf\<close>, \<open>fiu_disable\<close> and \<open>fiu_init\<close>; in
  particular the unsynchronised use of the generator by \<open>randd\<close> and \<open>fiu_set_prng_seed\<close> is only the free choice of \<open>decides\<close>. Memory models weaker than
  interleaving. What is left of the C code are declarations, comments and the platform tests of the preprocessor.
\<close>

subsection \<open>A program under \<open>fiu-run\<close>\<close>

text \<open>The points of failure that a list of commands makes, starting from none.\<close>

definition configured :: "rc_line list \<Rightarrow> string \<rightharpoonup> pf_info" where
  "configured ls = fst (until_failure args_pf (map rc_ctl ls) Map.empty)"

text \<open>One call of a wrapped function outside the library, by what is enabled for its point of failure.\<close>

lemma wrapped_call:
  fixes s :: "'w preload" and call :: "('a, 'r, 'w) cfun"
  assumes "preload_ready s" and "wcall_ok cx" and "body_valid body" and "\<not> is_pat fname"
  shows "\<exists>r s'. wrapper cx call name on_err fname None body args s = Some (r, s') \<and> preload_ready s'
    \<and> (\<forall>n i fl. points (lib s) fname = Some (args_pf fname (n, i, fl, PF_ALWAYS, M_unset)) \<and> n \<noteq> 0
         \<longrightarrow> last_failinfo (lib s') = i \<and> body_fails body (lib s') r (proc s) (proc s'))
    \<and> ((\<forall>q \<in> dom (points (lib s)). q \<noteq> fname \<and> \<not> pat_matches q fname)
         \<longrightarrow> (r, proc s') = call (orig_addr cx name s) args (proc s) \<and> points (lib s') = points (lib s))"
proof -
  have env: "envs_ok cx" "env_ok (wc_env cx)" using assms(2) by (simp_all add: wcall_ok_def envs_ok_def)
  have l: "fiu_ready (lib s)" using assms(1) by (simp add: preload_ready_def)
  from wrapper_ready [OF assms(1) env(1) assms(3) wcall_ok_addr [OF assms(2)], of call name fname args on_err]
  obtain st l1 r s' where w: "fiu_fail (wc_env cx) fname (lib s) = Some (st, l1)"
      "wrapper cx call name on_err fname None body args s = Some (r, s')" "preload_ready s'" "lib s' = l1"
      "st = 0 \<Longrightarrow> (r, proc s') = call (orig_addr cx name s) args (proc s)" "st \<noteq> 0 \<Longrightarrow> body_fails body l1 r (proc s) (proc s')"
    unfolding call_outcome_def by (auto split: if_splits)
  have "last_failinfo (lib s') = i \<and> body_fails body (lib s') r (proc s) (proc s')"
    if "points (lib s) fname = Some (args_pf fname (n, i, fl, PF_ALWAYS, M_unset))" "n \<noteq> 0" for n i fl
    using enabled_always_fails [OF l env(2) assms(4), of n i fl] that w by auto
  moreover have "(r, proc s') = call (orig_addr cx name s) args (proc s) \<and> points (lib s') = points (lib s)"
    if q: "\<forall>q \<in> dom (points (lib s)). q \<noteq> fname \<and> \<not> pat_matches q fname"
  proof -
    from q have "points (lib s) fname = None" "\<forall>q \<in> dom (points (lib s)). \<not> pat_matches q fname" by auto
    from nothing_answers [OF l env(2) this] w show ?thesis by auto
  qed
  ultimately show ?thesis using w(2,3) by blast
qed

text \<open>Property C18: The way of a configured failure through the whole program: commands in \<open>FIU_ENABLE\<close>, the constructor of the run preloader, the
  last constructor of the POSIX preloader, then the program's first call of a wrapped function. If the commands left the point of failure of that
  function enabled with a number other than 0, the call fails in the way the wrapper was generated for, with the configured information;
  if no configured name or pattern answers for it, the call reaches the original with its arguments and the points of failure are as configured.\<close>

theorem program_fails_as_configured:
  fixes w :: 'w and call :: "('a, 'r, 'w) cfun"
  assumes "env_good env" and "\<forall>j. env_ok (envs j)" and "ls \<noteq> []" and "\<forall>l\<in>set ls. line_ok l \<and> length (rc_text l) < MAX_LINE"
    and "wcall_ok cx" and "body_valid body" and "\<not> is_pat fname"
  shows "\<exists>e l s r s'. fiu_run_init env sys envs True NULL (Ptr (rc_lines ls)) ps fiu_start = Some (e, ps, l)
    \<and> fiu_init_final env' (preload_start l w) = Some s
    \<and> wrapper cx call name on_err fname None body args s = Some (r, s') \<and> preload_ready s'
    \<and> (\<forall>n i fl. configured ls fname = Some (args_pf fname (n, i, fl, PF_ALWAYS, M_unset)) \<and> n \<noteq> 0
         \<longrightarrow> last_failinfo (lib s') = i \<and> body_fails body (lib s') r (proc s) (proc s'))
    \<and> ((\<forall>q \<in> dom (configured ls). q \<noteq> fname \<and> \<not> pat_matches q fname)
         \<longrightarrow> (r, proc s') = call (wc_dlsym cx name) args (proc s) \<and> points (lib s') = configured ls)"
proof -
  obtain e l where l: "fiu_run_init env sys envs True NULL (Ptr (rc_lines ls)) ps fiu_start = Some (e, ps, l)" "fiu_ready l" "points l = configured ls"
    using run_init_lines [OF assms(1-4), of sys ps] unfolding configured_def by blast
  let ?s = "preload_start l w"
  have ready: "preload_ready ?s" by (rule preload_start_ready(1) [OF l(2)])
  have final: "fiu_init_final env' ?s = Some ?s"
    using fiu_init_again [of l env'] l(2)
    by (simp add: fiu_init_final_def preload_start_def called_inc_def called_dec_def)
  from wrapped_call [OF ready assms(5-7), of call name on_err args] obtain r s' where
    "wrapper cx call name on_err fname None body args ?s = Some (r, s')" "preload_ready s'"
    "\<forall>n i fl. configured ls fname = Some (args_pf fname (n, i, fl, PF_ALWAYS, M_unset)) \<and> n \<noteq> 0
         \<longrightarrow> last_failinfo (lib s') = i \<and> body_fails body (lib s') r (proc ?s) (proc s')"
    "(\<forall>q \<in> dom (configured ls). q \<noteq> fname \<and> \<not> pat_matches q fname)
         \<longrightarrow> (r, proc s') = call (orig_addr cx name ?s) args (proc ?s) \<and> points (lib s') = configured ls"
    unfolding preload_start_ready(3) l(3) by blast
  moreover have "orig_addr cx name ?s = wc_dlsym cx name" by (simp add: orig_addr_def preload_start_def)
  ultimately show ?thesis using l(1) final by auto
qed

theorem program_fails_as_configured_witness:
  "\<forall>sys ps. \<exists>e l s r s'. fiu_run_init quiet_env sys (\<lambda>_. quiet_env) True NULL (Ptr (rc_lines [L_enable ''posix/io/oc/close'' 1 24 False])) ps fiu_start
      = Some (e, ps, l)
    \<and> fiu_init_final quiet_env (preload_start l ()) = Some s
    \<and> wrapper quiet_call (\<lambda>a fd p. (0, p)) ''close'' (-1) ''posix/io/oc/close'' None (Errno (-1) [4, 5]) (3 :: int) s = Some (r, s')
    \<and> r = (-1 :: int) \<and> errno (proc s') = 24"
proof (intro allI)
  fix sys ps
  let ?n = "''posix/io/oc/close''" and ?ls = "[L_enable ''posix/io/oc/close'' 1 24 False]"
  have len: "length (dec_int 1) = 1" "length (dec_nat (unat (24 :: addr))) = 2" by (simp_all add: dec_int_def dec_nat.simps)
  have line: "\<forall>l\<in>set ?ls. line_ok l \<and> length (rc_text l) < MAX_LINE"
    using len by (simp add: word_ok_def MAX_LINE_def once_text_def)
  have nopat: "\<not> is_pat ?n" by (simp add: is_pat_def)
  have conf: "configured ?ls ?n = Some (args_pf ?n (1, 24, 0, PF_ALWAYS, M_unset))" by (simp add: configured_def once_flags_def)
  have e24: "errno_of 24 = 24" by (simp add: errno_of_def)
  have env: "\<forall>j. env_ok ((\<lambda>_ :: nat. quiet_env) j)" using quiet_env_ok(1) by simp
  have valid: "body_valid (Errno (-1 :: int) [4, 5])" by simp
  obtain e l s r s' where
    run: "fiu_run_init quiet_env sys (\<lambda>_. quiet_env) True NULL (Ptr (rc_lines ?ls)) ps fiu_start = Some (e, ps, l)"
      "fiu_init_final quiet_env (preload_start l ()) = Some s"
      "wrapper quiet_call (\<lambda>a fd p. (0, p)) ''close'' (-1) ?n None (Errno (-1) [4, 5]) (3 :: int) s = Some (r, s')"
    and fails: "\<forall>n i fl. configured ?ls ?n = Some (args_pf ?n (n, i, fl, PF_ALWAYS, M_unset)) \<and> n \<noteq> 0
      \<longrightarrow> last_failinfo (lib s') = i \<and> body_fails (Errno (-1 :: int) [4, 5]) (lib s') r (proc s) (proc s')"
    using program_fails_as_configured [OF quiet_env_ok(2) env _ line quiet_call_ok(2) valid nopat, of sys ps quiet_env "()"
        "\<lambda>a fd p. (0, p)" "''close''" "-1 :: int" "3 :: int"] by blast
  from fails [rule_format, of 1 24 0] conf have "last_failinfo (lib s') = 24" "body_fails (Errno (-1 :: int) [4, 5]) (lib s') r (proc s) (proc s')"
    by simp_all
  with e24 have "r = -1" "errno (proc s') = 24" by simp_all
  with run show "\<exists>e l s r s'. fiu_run_init quiet_env sys (\<lambda>_. quiet_env) True NULL (Ptr (rc_lines [L_enable ''posix/io/oc/close'' 1 24 False])) ps fiu_start
      = Some (e, ps, l)
    \<and> fiu_init_final quiet_env (preload_start l ()) = Some s
    \<and> wrapper quiet_call (\<lambda>a fd p. (0, p)) ''close'' (-1) ''posix/io/oc/close'' None (Errno (-1) [4, 5]) (3 :: int) s = Some (r, s')
    \<and> r = (-1 :: int) \<and> errno (proc s') = 24" by blast
qed

subsection \<open>A program under \<open>fiu-ctrl\<close>\<close>

text \<open>The library of a process as its own threads see it: their recursion counters are not that of the thread of the remote control.\<close>

definition in_program :: "fiu \<Rightarrow> 'w preload \<Rightarrow> 'w preload" where
  "in_program l s = s\<lparr>lib := rec_dec l\<rparr>"

lemma in_program_ready:
  assumes "fiu_ready_at 1 l" and "preload_ready s"
  shows "preload_ready (in_program l s)" "points (lib (in_program l s)) = points l" "proc (in_program l s) = proc s"
    "orig_addr cx name (in_program l s) = orig_addr cx name s"
proof -
  have "fiu_ready (rec_dec l)" using assms(1) by (simp add: rec_dec_def fiu_ready_at_def fiu_at_def cong: ptr.case_cong)
  then show "preload_ready (in_program l s)" using assms(2) by (simp add: in_program_def preload_ready_def ferror_ok_def)
  show "points (lib (in_program l s)) = points l"
    by (simp add: in_program_def rec_dec_def points_def fun_eq_iff cong: ptr.case_cong option.case_cong)
qed (simp_all add: in_program_def orig_addr_def)

text \<open>Property C19: The way of a command through the whole system: \<open>fiu-ctrl\<close> writes it to the pipe of a running program, the thread of
  the remote control parses and executes it, and the program's next call of a wrapped function fails in the way the wrapper was generated for
  if the commands have left its point of failure enabled with a number other than 0, or reaches the original if no enabled name or pattern
  answers for it; the points of failure are those that the commands make of what was enabled before.\<close>

theorem controlled_program_fails:
  fixes s :: "'w preload" and call :: "('a, 'r, 'w) cfun"
  assumes "opts \<noteq> [] \<or> args \<noteq> []" and "\<forall>opt\<in>set opts. ctrl_current opt" and "ctrl_commands opts = map rc_text ls"
    and "\<forall>l\<in>set ls. line_ok l \<and> length (rc_text l) < MAX_LINE" and "\<forall>i\<in>set args. one_word i"
    and "ctrl_fifo opts (k_fifo (ctrl_start tmpdir)) = fifo" and "\<forall>c\<in>set fifo. \<not> in_ifs c"
    and "\<forall>p\<in>set (reached pipe lives fifo args). fiu_ready_at 1 (w p) \<and> env_ok (envs p)"
    and "distinct (reached pipe lives fifo args)" and "p \<in> set (reached pipe lives fifo args)"
    and "after = snd (ctl_maps args_pf (map rc_ctl ls) (points (w p)))"
    and "preload_ready s" and "wcall_ok cx" and "body_valid body" and "\<not> is_pat fname"
  shows "\<exists>out w' r s'. fiu_ctrl pipe lives (exchange envs) tmpdir opts args w = Some (Ctrl_sent out w') \<and> points (w' p) = after
    \<and> wrapper cx call name on_err fname None body x (in_program (w' p) s) = Some (r, s') \<and> preload_ready s'
    \<and> (\<forall>n i fl. after fname = Some (args_pf fname (n, i, fl, PF_ALWAYS, M_unset)) \<and> n \<noteq> 0
         \<longrightarrow> last_failinfo (lib s') = i \<and> body_fails body (lib s') r (proc s) (proc s'))
    \<and> ((\<forall>q \<in> dom after. q \<noteq> fname \<and> \<not> pat_matches q fname)
         \<longrightarrow> (r, proc s') = call (orig_addr cx name s) x (proc s) \<and> points (lib s') = after)"
proof -
  let ?sends = "concat (map (\<lambda>l. map (\<lambda>p. (p, l)) (reached pipe lives fifo args)) ls)"
  obtain out w' where w': "fiu_ctrl pipe lives (exchange envs) tmpdir opts args w = Some (Ctrl_sent out w')"
    "points (w' p) = snd (ctl_sends ?sends (\<lambda>p. points (w p))) p" "fiu_ready_at 1 (w' p)"
    using ctrl_session_run [OF assms(1-8) refl] assms(8,10) by blast
  have after: "points (w' p) = after"
    unfolding w'(2) ctl_sends_one sends_to_one [OF assms(9,10)] assms(11) by (simp add: comp_def)
  note prog = in_program_ready [OF w'(3) assms(12)]
  from wrapped_call [OF prog(1) assms(13-15), of call name on_err x] obtain r s' where
    "wrapper cx call name on_err fname None body x (in_program (w' p) s) = Some (r, s')" "preload_ready s'"
    "\<forall>n i fl. after fname = Some (args_pf fname (n, i, fl, PF_ALWAYS, M_unset)) \<and> n \<noteq> 0
         \<longrightarrow> last_failinfo (lib s') = i \<and> body_fails body (lib s') r (proc s) (proc s')"
    "(\<forall>q \<in> dom after. q \<noteq> fname \<and> \<not> pat_matches q fname)
         \<longrightarrow> (r, proc s') = call (orig_addr cx name s) x (proc s) \<and> points (lib s') = after"
    unfolding prog(2-4) after by blast
  with w'(1) after show ?thesis by blast
qed


theorem controlled_program_fails_witness:
  "\<exists>l out w' r s'. fiu_init quiet_env fiu_start = Some (0, l)
     \<and> fiu_ctrl (\<lambda>f. f = ''/p.out'') (\<lambda>_. False) (exchange (\<lambda>_. quiet_env)) None
         [CO_c (rc_text (L_enable ''posix/io/oc/close'' 1 24 False))] [''/p''] (\<lambda>_. rec_inc l) = Some (Ctrl_sent out w')
     \<and> wrapper quiet_call (\<lambda>a fd p. (0, p)) ''close'' (-1) ''posix/io/oc/close'' None (Errno (-1) [4, 5]) (3 :: int)
         (in_program (w' ''/p'') (preload_start l ())) = Some (r, s')
     \<and> r = (-1 :: int) \<and> errno (proc s') = 24"
proof -
  obtain l where l: "fiu_init quiet_env fiu_start = Some (0, l)" "fiu_ready l" "points l = Map.empty" by (rule quiet_start)
  let ?n = "''posix/io/oc/close''" and ?ls = "[L_enable ''posix/io/oc/close'' 1 24 False]" and ?pipe = "\<lambda>f. f = ''/p.out''"
  let ?opts = "[CO_c (rc_text (L_enable ''posix/io/oc/close'' 1 24 False))]" and ?fifo = "''/tmp/fiu-ctrl''"
  have len: "length (dec_int 1) = 1" "length (dec_nat (unat (24 :: addr))) = 2" by (simp_all add: dec_int_def dec_nat.simps)
  have h: "?opts \<noteq> [] \<or> [''/p''] \<noteq> []" "\<forall>opt\<in>set ?opts. ctrl_current opt" "ctrl_commands ?opts = map rc_text ?ls"
    "\<forall>l\<in>set ?ls. line_ok l \<and> length (rc_text l) < MAX_LINE" "\<forall>i\<in>set [''/p'']. one_word i"
    "ctrl_fifo ?opts (k_fifo (ctrl_start None)) = ?fifo" "\<forall>c\<in>set ?fifo. \<not> in_ifs c"
    using len by (simp_all add: word_ok_def MAX_LINE_def once_text_def ctrl_start_def ctrl_opts_reset_def in_ifs_def one_word_def)
  have r: "reached ?pipe (\<lambda>_. False) ?fifo [''/p''] = [''/p'']" by (simp add: reached_def is_pid_def is_prefix_def)
  have ready: "\<forall>p\<in>set (reached ?pipe (\<lambda>_. False) ?fifo [''/p'']). fiu_ready_at 1 ((\<lambda>_. rec_inc l) p) \<and> env_ok ((\<lambda>_. quiet_env) p)"
    "distinct (reached ?pipe (\<lambda>_. False) ?fifo [''/p''])" "''/p'' \<in> set (reached ?pipe (\<lambda>_. False) ?fifo [''/p''])"
    using rec_inc_ready(1) [OF l(2)] quiet_env_ok(1) unfolding r by simp_all
  define after where "after = snd (ctl_maps args_pf (map rc_ctl ?ls) (points ((\<lambda>_. rec_inc l) ''/p'')))"
  have a: "after ?n = Some (args_pf ?n (1, 24, 0, PF_ALWAYS, M_unset))"
    unfolding after_def rec_inc_ready(2) l(3) by (simp add: once_flags_def)
  have b: "body_valid (Errno (-1 :: int) [4, 5])" "\<not> is_pat ?n" "errno_of 24 = 24" by (simp_all add: is_pat_def errno_of_def)
  from controlled_program_fails [OF h ready after_def preload_start_ready(1) [OF l(2), of "()"] quiet_call_ok(2) b(1,2),
      of "\<lambda>a fd p. (0, p)" "''close''" "-1 :: int" "3 :: int"] obtain out w' r s' where
    run: "fiu_ctrl ?pipe (\<lambda>_. False) (exchange (\<lambda>_. quiet_env)) None ?opts [''/p''] (\<lambda>_. rec_inc l) = Some (Ctrl_sent out w')"
      "wrapper quiet_call (\<lambda>a fd p. (0, p)) ''close'' (-1) ?n None (Errno (-1) [4, 5]) (3 :: int)
         (in_program (w' ''/p'') (preload_start l ())) = Some (r, s')"
    and fails: "\<forall>n i fl. after ?n = Some (args_pf ?n (n, i, fl, PF_ALWAYS, M_unset)) \<and> n \<noteq> 0
      \<longrightarrow> last_failinfo (lib s') = i \<and> body_fails (Errno (-1 :: int) [4, 5]) (lib s') r (proc (preload_start l ())) (proc s')"
    by blast
  from fails [rule_format, of 1 24 0] a have "last_failinfo (lib s') = 24"
    "body_fails (Errno (-1 :: int) [4, 5]) (lib s') r (proc (preload_start l ())) (proc s')" by simp_all
  with b(3) have "r = -1" "errno (proc s') = 24" by simp_all
  with l(1) run show ?thesis by blast
qed

end
